theory Spec2Isabelle
  imports Main "HOL-Library.Product_Lexorder" "HOL-Library.List_Lexorder" "HOL-Library.Char_ord" "HOL-Library.Option_ord"
begin

section \<open>Configuration expressions (utils/configuration)\<close>

subsection \<open>Version strings and the default compare function\<close>

text \<open>
  \<^verbatim>\<open>QString::split('.')\<close> with the default \<^verbatim>\<open>KeepEmptyParts\<close>: the parts between
  the separators, empty ones kept, so the result is never the empty list.
\<close>

fun split_dot :: "string \<Rightarrow> string list" where
  "split_dot [] = [[]]"
| "split_dot (c # cs) =
     (if c = CHR ''.'' then [] # split_dot cs
      else (case split_dot cs of
              [] \<Rightarrow> [[c]]
            | p # ps \<Rightarrow> (c # p) # ps))"

definition is_digit :: "char \<Rightarrow> bool" where
  "is_digit c = (c \<in> set ''0123456789'')"

text \<open>
  \<^verbatim>\<open>QRegExp("[0-9]+(\\.[0-9]+)*").exactMatch(s)\<close>: the whole string is a
  dot-separated series of non-empty digit runs.
\<close>

definition exactMatch_version :: "string \<Rightarrow> bool" where
  "exactMatch_version s = list_all (\<lambda>p. p \<noteq> [] \<and> list_all is_digit p) (split_dot s)"

definition digit_value :: "char \<Rightarrow> nat" where
  "digit_value c = of_char c - 48"

text \<open>The number a run of decimal digits denotes.\<close>

definition decimal :: "string \<Rightarrow> nat" where
  "decimal s = foldl (\<lambda>a c. 10 * a + digit_value c) 0 s"

definition INT_MAX :: nat where
  "INT_MAX = 2147483647"

text \<open>
  \<^verbatim>\<open>QString::toInt()\<close> on a run of decimal digits (the only strings the compare
  function hands to it, the format being asserted first): the value when it fits
  a 32-bit \<^verbatim>\<open>int\<close>, and 0 when the conversion fails, which it does for a value
  above \<^verbatim>\<open>INT_MAX\<close>.
\<close>

definition toInt :: "string \<Rightarrow> int" where
  "toInt s =
     (if s \<noteq> [] \<and> list_all is_digit s \<and> decimal s \<le> INT_MAX then int (decimal s) else 0)"

text \<open>
  The loop of \<^verbatim>\<open>defaultVersionCompareFunction\<close>:
  \<^verbatim>\<open>for (i = 0; i < minCount; i++) if (cmp = sv1.at(i).toInt() - sv2.at(i).toInt()) return cmp;\<close>
  followed by \<^verbatim>\<open>return sv1.count() - sv2.count()\<close>.
\<close>

function compare_from :: "string list \<Rightarrow> string list \<Rightarrow> nat \<Rightarrow> nat \<Rightarrow> int" where
  "compare_from sv1 sv2 minCount i =
     (if i < minCount then
        (let cmp = toInt (sv1 ! i) - toInt (sv2 ! i)
         in if cmp \<noteq> 0 then cmp else compare_from sv1 sv2 minCount (Suc i))
      else int (length sv1) - int (length sv2))"
  by pat_completeness auto
termination
  by (relation "measure (\<lambda>(sv1, sv2, minCount, i). minCount - i)") auto

declare compare_from.simps [simp del]

text \<open>
  \<^verbatim>\<open>Configuration::defaultVersionCompareFunction\<close>. The two \<^verbatim>\<open>Q_ASSERT\<close>s on the
  format are the \<open>None\<close> result.
\<close>

definition defaultVersionCompareFunction :: "string \<Rightarrow> string \<Rightarrow> int option" where
  "defaultVersionCompareFunction v1 v2 =
     (if \<not> exactMatch_version v1 then None
      else if \<not> exactMatch_version v2 then None
      else
        (let sv1 = split_dot v1;
             sv2 = split_dot v2;
             minCount = min (length sv1) (length sv2)
         in Some (compare_from sv1 sv2 minCount 0)))"

subsection \<open>The expression tree and \<open>satisfies\<close>\<close>

text \<open>
  A resource is identified by its \<^verbatim>\<open>UniqueId\<close>, an interned integer.
  The relations are the \<^verbatim>\<open>Type\<close> values \<^verbatim>\<open>Lt .. Gt\<close>; the other \<^verbatim>\<open>Type\<close> values
  are the constructors of the tree, one for each way the private constructors of
  \<^verbatim>\<open>Configuration::Data\<close> are used by the operators. \<open>Null\<close> is the default
  constructed configuration (\<^verbatim>\<open>d == 0\<close>).
\<close>

type_synonym Resource = int
type_synonym Version = string

datatype Relation = Lt | Le | Eq | Ne | Ge | Gt

datatype Configuration =
    Null
  | Exists_c Resource
  | Rel Resource Relation Version
  | Not_c Configuration
  | Comma Configuration Configuration
  | And_c Configuration Configuration
  | Or_c Configuration Configuration

type_synonym VersionCompareFunction = "Version \<Rightarrow> Version \<Rightarrow> int option"

text \<open>
  \<^verbatim>\<open>Configuration::Data::versionCompareFunctions\<close>, the registry of compare
  functions, is a map from resource to function; \<^verbatim>\<open>value(id, default)\<close> falls
  back to the default compare function.
\<close>

type_synonym registry = "Resource \<rightharpoonup> VersionCompareFunction"

definition registry_value :: "registry \<Rightarrow> Resource \<Rightarrow> VersionCompareFunction" where
  "registry_value reg r = (case reg r of None \<Rightarrow> defaultVersionCompareFunction | Some f \<Rightarrow> f)"

text \<open>\<^verbatim>\<open>Configuration::Data::satisfiesVersion\<close>, on a node \<^verbatim>\<open>resource == version\<close>.\<close>

definition satisfiesVersion ::
  "registry \<Rightarrow> Resource \<Rightarrow> Version \<Rightarrow> Relation \<Rightarrow> Version \<Rightarrow> bool option" where
  "satisfiesVersion reg resource this_version relation version =
     (case registry_value reg resource this_version version of
        None \<Rightarrow> None
      | Some cmp \<Rightarrow>
          Some (case relation of
                  Lt \<Rightarrow> cmp < 0
                | Le \<Rightarrow> cmp \<le> 0
                | Eq \<Rightarrow> cmp = 0
                | Ne \<Rightarrow> cmp \<noteq> 0
                | Ge \<Rightarrow> cmp \<ge> 0
                | Gt \<Rightarrow> cmp > 0))"

text \<open>
  \<^verbatim>\<open>a && b\<close> and \<^verbatim>\<open>a || b\<close> on results that may fail: the right operand is
  evaluated only when the left one does not decide.
\<close>

definition and_then :: "bool option \<Rightarrow> bool option \<Rightarrow> bool option" where
  "and_then a b = (case a of None \<Rightarrow> None | Some False \<Rightarrow> Some False | Some True \<Rightarrow> b)"

definition or_else :: "bool option \<Rightarrow> bool option \<Rightarrow> bool option" where
  "or_else a b = (case a of None \<Rightarrow> None | Some True \<Rightarrow> Some True | Some False \<Rightarrow> b)"

text \<open>
  \<^verbatim>\<open>Configuration::satisfies\<close>: \<open>satisfies reg this required\<close>. The outer switch is
  on the type of \<open>required\<close>, the inner ones on the type of \<open>this\<close>. \<open>None\<close> is a
  failed assertion (a shape other than comma, exists and \<open>==\<close> on the left side) or
  the dereference of a null configuration.
\<close>

fun satisfies :: "registry \<Rightarrow> Configuration \<Rightarrow> Configuration \<Rightarrow> bool option" where
  "satisfies reg this Null = None"
| "satisfies reg this (Not_c r) = map_option Not (satisfies reg this r)"
| "satisfies reg this (Comma l r) = and_then (satisfies reg this l) (satisfies reg this r)"
| "satisfies reg this (And_c l r) = and_then (satisfies reg this l) (satisfies reg this r)"
| "satisfies reg this (Or_c l r) = or_else (satisfies reg this l) (satisfies reg this r)"
| "satisfies reg this (Exists_c res) =
     (case this of
        Comma l r \<Rightarrow> or_else (satisfies reg l (Exists_c res)) (satisfies reg r (Exists_c res))
      | Exists_c res' \<Rightarrow> Some (res' = res)
      | Rel res' Eq v' \<Rightarrow> Some (res' = res)
      | _ \<Rightarrow> None)"
| "satisfies reg this (Rel res rel v) =
     (case this of
        Comma l r \<Rightarrow> or_else (satisfies reg l (Rel res rel v)) (satisfies reg r (Rel res rel v))
      | Exists_c res' \<Rightarrow> Some False
      | Rel res' Eq v' \<Rightarrow>
          and_then (Some (res' = res)) (satisfiesVersion reg res' v' rel v)
      | _ \<Rightarrow> None)"

subsection \<open>The comparison the specification describes\<close>

text \<open>
  A second definition, following the words of the specification and not the code:
  the dot-separated components are compared as integers from left to right, and
  when the two series agree on the shared prefix the shorter one is the smaller.
\<close>

datatype ordering = Less | Equal | Greater

fun compare_components :: "nat list \<Rightarrow> nat list \<Rightarrow> ordering" where
  "compare_components [] [] = Equal"
| "compare_components [] (y # ys) = Less"
| "compare_components (x # xs) [] = Greater"
| "compare_components (x # xs) (y # ys) =
     (if x < y then Less else if y < x then Greater else compare_components xs ys)"

text \<open>The reading of a compare result: negative, zero or positive.\<close>

definition sign_of :: "int \<Rightarrow> ordering" where
  "sign_of c = (if c < 0 then Less else if c = 0 then Equal else Greater)"

definition components :: "string \<Rightarrow> nat list" where
  "components v = map decimal (split_dot v)"

text \<open>Every component of the version is a number a 32-bit \<^verbatim>\<open>int\<close> holds.\<close>

definition fits_int :: "string \<Rightarrow> bool" where
  "fits_int v = list_all (\<lambda>n. n \<le> INT_MAX) (components v)"

definition good_component :: "string \<Rightarrow> bool" where
  "good_component p = (p \<noteq> [] \<and> list_all is_digit p \<and> decimal p \<le> INT_MAX)"

text \<open>
  The two configurations of the scenario, for a resource \<open>qt\<close> and a resource
  \<open>gui\<close>: the provided one is \<^verbatim>\<open>(Resource(qt), Resource(qt) == "4.7", Resource(gui))\<close>,
  the required one \<^verbatim>\<open>Resource(qt) >= v && Resource(qt) < "4.8" && Resource(gui)\<close>.
  Both operators associate to the left.
\<close>

definition providedConfiguration :: "Resource \<Rightarrow> Resource \<Rightarrow> Configuration" where
  "providedConfiguration qt gui = Comma (Comma (Exists_c qt) (Rel qt Eq ''4.7'')) (Exists_c gui)"

definition requiredConfiguration :: "Resource \<Rightarrow> Resource \<Rightarrow> Version \<Rightarrow> Configuration" where
  "requiredConfiguration qt gui v = And_c (And_c (Rel qt Ge v) (Rel qt Lt ''4.8'')) (Exists_c gui)"

section \<open>The dependency graph (utils/dependencygraph.h)\<close>

subsection \<open>\<^verbatim>\<open>DependencyGraph<T, sortIndependent>\<close>\<close>

text \<open>
  The nodes in the order of their addition, the edges as a vector of bit arrays
  (\<open>m_edges ! d ! r\<close> is set when node number \<open>d\<close> requires node number \<open>r\<close>),
  and the memoised result of \<^verbatim>\<open>sort()\<close>.
\<close>

record 'a DependencyGraph =
  m_nodes :: "'a list"
  m_edges :: "bool list list"
  m_cacheIsValid :: bool
  m_cache :: "'a list"

definition DependencyGraph_new :: "'a DependencyGraph" where
  "DependencyGraph_new = \<lparr>m_nodes = [], m_edges = [], m_cacheIsValid = False, m_cache = []\<rparr>"

text \<open>
  \<^verbatim>\<open>QList::indexOf\<close>: the position of the first occurrence. Every call is behind
  an assertion that the list contains the value, so the result \<open>-1\<close> for a
  missing value does not arise.
\<close>

fun indexOf :: "'a list \<Rightarrow> 'a \<Rightarrow> nat" where
  "indexOf [] x = 0"
| "indexOf (y # ys) x = (if y = x then 0 else Suc (indexOf ys x))"

text \<open>\<^verbatim>\<open>QBitArray::resize\<close>: cut, or extended with cleared bits.\<close>

definition resize :: "nat \<Rightarrow> bool list \<Rightarrow> bool list" where
  "resize n bs = take n bs @ replicate (n - length bs) False"

text \<open>\<^verbatim>\<open>addNode\<close>: the assertion that the node is new is the \<open>None\<close> result.\<close>

definition DependencyGraph_addNode :: "'a \<Rightarrow> 'a DependencyGraph \<Rightarrow> 'a DependencyGraph option" where
  "DependencyGraph_addNode node g =
     (if node \<in> set (m_nodes g) then None
      else Some (g\<lparr>m_nodes := m_nodes g @ [node], m_cacheIsValid := False\<rparr>))"

text \<open>
  \<^verbatim>\<open>addEdge\<close>: both nodes are asserted to exist; the bit matrix grows to
  \<open>requiredSize\<close> rows and columns when it is smaller, and the bit is set.
\<close>

definition grow_edges :: "nat \<Rightarrow> bool list list \<Rightarrow> bool list list" where
  "grow_edges requiredSize edges =
     (if length edges < requiredSize
      then map (resize requiredSize) edges
           @ replicate (requiredSize - length edges) (replicate requiredSize False)
      else edges)"

definition DependencyGraph_addEdge ::
  "'a \<Rightarrow> 'a \<Rightarrow> 'a DependencyGraph \<Rightarrow> 'a DependencyGraph option" where
  "DependencyGraph_addEdge dependentNode requiredNode g =
     (if dependentNode \<notin> set (m_nodes g) then None
      else if requiredNode \<notin> set (m_nodes g) then None
      else
        (let dependentNodeIdx = indexOf (m_nodes g) dependentNode;
             requiredNodeIdx = indexOf (m_nodes g) requiredNode;
             requiredSize = max dependentNodeIdx requiredNodeIdx + 1;
             edges = grow_edges requiredSize (m_edges g)
         in Some (g\<lparr>m_edges :=
                      edges[dependentNodeIdx := (edges ! dependentNodeIdx)[requiredNodeIdx := True]],
                    m_cacheIsValid := False\<rparr>)))"

text \<open>\<^verbatim>\<open>hasEdge\<close>, on the edge matrix.\<close>

definition hasEdge :: "bool list list \<Rightarrow> nat \<Rightarrow> nat \<Rightarrow> bool" where
  "hasEdge edges dependentNodeIdx requiredNodeIdx =
     (max dependentNodeIdx requiredNodeIdx < length edges
      \<and> (edges ! dependentNodeIdx) ! requiredNodeIdx)"

text \<open>
  \<^verbatim>\<open>QMap<T, int>::insert\<close> on a map kept as a list of pairs in ascending order of
  the keys; an existing key has its value replaced.
\<close>

fun qmap_insert :: "'k::linorder \<Rightarrow> 'v \<Rightarrow> ('k \<times> 'v) list \<Rightarrow> ('k \<times> 'v) list" where
  "qmap_insert k v [] = [(k, v)]"
| "qmap_insert k v ((k', v') # m) =
     (if k < k' then (k, v) # (k', v') # m
      else if k = k' then (k, v) # m
      else (k', v') # qmap_insert k v m)"

text \<open>
  \<^verbatim>\<open>Helper::nodeNumbers\<close>, for \<^verbatim>\<open>sortIndependent == true\<close>: every node is
  inserted into a map under its value, with the count of the map as its number;
  the numbers are read in the order of the keys. For \<^verbatim>\<open>sortIndependent == false\<close>:
  the numbers \<open>0 .. count - 1\<close>.
\<close>

definition nodeNumbers_sortedByValue :: "'a::linorder list \<Rightarrow> nat list" where
  "nodeNumbers_sortedByValue nodes =
     map snd (foldl (\<lambda>nodeNumbersByValues node.
                       qmap_insert node (length nodeNumbersByValues) nodeNumbersByValues) [] nodes)"

definition nodeNumbers_unsorted :: "'a list \<Rightarrow> nat list" where
  "nodeNumbers_unsorted nodes = [0..<length nodes]"

text \<open>
  The body of \<^verbatim>\<open>sort()\<close>. A node number is independent when it has no edge to a
  remaining node number (itself included). Each round takes the first independent
  one among the remaining numbers, appends its node to the cache and removes the
  number; the loop ends when there is none.
\<close>

definition independent :: "bool list list \<Rightarrow> nat list \<Rightarrow> nat \<Rightarrow> bool" where
  "independent edges remainingNodeNumbers nodeNumber =
     (\<not> list_ex (hasEdge edges nodeNumber) remainingNodeNumbers)"

function sort_loop :: "'a list \<Rightarrow> bool list list \<Rightarrow> nat list \<Rightarrow> 'a list \<Rightarrow> nat list \<times> 'a list" where
  "sort_loop nodes edges remainingNodeNumbers cache =
     (case find (independent edges remainingNodeNumbers) remainingNodeNumbers of
        None \<Rightarrow> (remainingNodeNumbers, cache)
      | Some independentNodeNumber \<Rightarrow>
          sort_loop nodes edges (remove1 independentNodeNumber remainingNodeNumbers)
            (cache @ [nodes ! independentNodeNumber]))"
  by pat_completeness auto
termination
proof (relation "measure (\<lambda>(nodes, edges, remaining, cache). length remaining)")
  show "wf (measure (\<lambda>(nodes, edges, remaining, cache). length remaining))"
    by simp
next
  fix nodes :: "'a list" and edges remaining and cache :: "'a list" and n
  assume "find (independent edges remaining) remaining = Some n"
  then have "n \<in> set remaining"
    by (auto simp: find_Some_iff)
  then show "((nodes, edges, remove1 n remaining, cache @ [nodes ! n]),
              (nodes, edges, remaining, cache))
             \<in> measure (\<lambda>(nodes, edges, remaining, cache). length remaining)"
    using length_pos_if_in_set [of n remaining] by (simp add: length_remove1)
qed

declare sort_loop.simps [simp del]

text \<open>
  \<^verbatim>\<open>sort()\<close>, with the node numbering of the template argument as a parameter.
  The assertion \<^verbatim>\<open>remainingNodeNumbers.isEmpty()\<close> (circular dependency) is the
  \<open>None\<close> result; the sort completes successfully when the result is \<open>Some\<close>.
\<close>

definition DependencyGraph_sort ::
  "('a list \<Rightarrow> nat list) \<Rightarrow> 'a DependencyGraph \<Rightarrow> ('a list \<times> 'a DependencyGraph) option" where
  "DependencyGraph_sort nodeNumbers g =
     (if \<not> m_cacheIsValid g then
        (case sort_loop (m_nodes g) (m_edges g) (nodeNumbers (m_nodes g)) [] of
           (remainingNodeNumbers, cache) \<Rightarrow>
             if remainingNodeNumbers \<noteq> [] then None
             else Some (cache, g\<lparr>m_cache := cache, m_cacheIsValid := True\<rparr>))
      else Some (m_cache g, g))"

text \<open>
  The public interface as data: a graph is what a series of calls of
  \<^verbatim>\<open>addNode\<close>, \<^verbatim>\<open>addEdge\<close> and \<^verbatim>\<open>sort\<close> makes of a newly constructed one.
\<close>

datatype 'a call = AddNode 'a | AddEdge 'a 'a | Sort

fun DependencyGraph_call ::
  "('a list \<Rightarrow> nat list) \<Rightarrow> 'a call \<Rightarrow> 'a DependencyGraph \<Rightarrow> 'a DependencyGraph option" where
  "DependencyGraph_call nodeNumbers (AddNode node) g = DependencyGraph_addNode node g"
| "DependencyGraph_call nodeNumbers (AddEdge dependentNode requiredNode) g =
     DependencyGraph_addEdge dependentNode requiredNode g"
| "DependencyGraph_call nodeNumbers Sort g = map_option snd (DependencyGraph_sort nodeNumbers g)"

fun DependencyGraph_calls ::
  "('a list \<Rightarrow> nat list) \<Rightarrow> 'a call list \<Rightarrow> 'a DependencyGraph \<Rightarrow> 'a DependencyGraph option" where
  "DependencyGraph_calls nodeNumbers [] g = Some g"
| "DependencyGraph_calls nodeNumbers (c # cs) g =
     (case DependencyGraph_call nodeNumbers c g of
        None \<Rightarrow> None
      | Some g' \<Rightarrow> DependencyGraph_calls nodeNumbers cs g')"

text \<open>
  \<open>precedes a b xs\<close>: the first occurrence of \<open>a\<close> in \<open>xs\<close> is strictly before an
  occurrence of \<open>b\<close>. On a list without repetition: \<open>a\<close> is strictly before \<open>b\<close>.
\<close>

fun precedes :: "'a \<Rightarrow> 'a \<Rightarrow> 'a list \<Rightarrow> bool" where
  "precedes a b [] = False"
| "precedes a b (x # xs) = (if x = a then b \<in> set xs else precedes a b xs)"

subsection \<open>Notions used in the statements about the graph\<close>

text \<open>
  No number in the list has an edge to itself or to a number after it.
\<close>

fun no_forward_edge :: "bool list list \<Rightarrow> nat list \<Rightarrow> bool" where
  "no_forward_edge edges [] = True"
| "no_forward_edge edges (n # ns) =
     ((\<forall>m \<in> set (n # ns). \<not> hasEdge edges n m) \<and> no_forward_edge edges ns)"

text \<open>
  What every graph made by the public interface satisfies: the nodes are distinct,
  the bit matrix is square, and a valid cache holds the result of the sort loop.
\<close>

definition graph_inv :: "('a list \<Rightarrow> nat list) \<Rightarrow> 'a DependencyGraph \<Rightarrow> bool" where
  "graph_inv nodeNumbers g =
     (distinct (m_nodes g)
      \<and> (\<forall>row \<in> set (m_edges g). length row = length (m_edges g))
      \<and> (m_cacheIsValid g \<longrightarrow>
           sort_loop (m_nodes g) (m_edges g) (nodeNumbers (m_nodes g)) [] = ([], m_cache g)))"

text \<open>The edge from \<open>d\<close> to \<open>r\<close> is in the graph.\<close>

definition edge_recorded :: "'a DependencyGraph \<Rightarrow> 'a \<Rightarrow> 'a \<Rightarrow> bool" where
  "edge_recorded g d r =
     (d \<in> set (m_nodes g) \<and> r \<in> set (m_nodes g)
      \<and> hasEdge (m_edges g) (indexOf (m_nodes g) d) (indexOf (m_nodes g) r))"

text \<open>A numbering lists every node number of a list of distinct nodes once.\<close>

definition numbering :: "('a list \<Rightarrow> nat list) \<Rightarrow> bool" where
  "numbering nodeNumbers =
     (\<forall>nodes. distinct nodes \<longrightarrow>
        distinct (nodeNumbers nodes) \<and> set (nodeNumbers nodes) = {0..<length nodes})"

subsection \<open>\<^verbatim>\<open>FifoDependencyGraph<T>\<close> and \<^verbatim>\<open>LifoDependencyGraph<T>\<close>\<close>

text \<open>
  Both keep the nodes and a slave graph \<^verbatim>\<open>DependencyGraph<int, true>\<close> whose nodes are
  the positions of the nodes (negated for the LIFO order), sorted by value.
\<close>

record 'a FifoDependencyGraph =
  fifo_nodes :: "'a list"
  fifo_slave :: "int DependencyGraph"

definition FifoDependencyGraph_new :: "'a FifoDependencyGraph" where
  "FifoDependencyGraph_new = \<lparr>fifo_nodes = [], fifo_slave = DependencyGraph_new\<rparr>"

definition FifoDependencyGraph_addNode ::
  "'a \<Rightarrow> 'a FifoDependencyGraph \<Rightarrow> 'a FifoDependencyGraph option" where
  "FifoDependencyGraph_addNode node w =
     (if node \<in> set (fifo_nodes w) then None
      else (case DependencyGraph_addNode (int (length (fifo_nodes w))) (fifo_slave w) of
              None \<Rightarrow> None
            | Some s \<Rightarrow> Some (w\<lparr>fifo_slave := s, fifo_nodes := fifo_nodes w @ [node]\<rparr>)))"

definition FifoDependencyGraph_addEdge ::
  "'a \<Rightarrow> 'a \<Rightarrow> 'a FifoDependencyGraph \<Rightarrow> 'a FifoDependencyGraph option" where
  "FifoDependencyGraph_addEdge dependentNode requiredNode w =
     (if dependentNode \<notin> set (fifo_nodes w) then None
      else if requiredNode \<notin> set (fifo_nodes w) then None
      else (case DependencyGraph_addEdge (int (indexOf (fifo_nodes w) dependentNode))
                   (int (indexOf (fifo_nodes w) requiredNode)) (fifo_slave w) of
              None \<Rightarrow> None
            | Some s \<Rightarrow> Some (w\<lparr>fifo_slave := s\<rparr>)))"

definition FifoDependencyGraph_sort ::
  "'a FifoDependencyGraph \<Rightarrow> ('a list \<times> 'a FifoDependencyGraph) option" where
  "FifoDependencyGraph_sort w =
     (case DependencyGraph_sort nodeNumbers_sortedByValue (fifo_slave w) of
        None \<Rightarrow> None
      | Some (slaveSorted, s) \<Rightarrow>
          Some (map (\<lambda>i. fifo_nodes w ! nat i) slaveSorted, w\<lparr>fifo_slave := s\<rparr>))"

record 'a LifoDependencyGraph =
  lifo_nodes :: "'a list"
  lifo_slave :: "int DependencyGraph"

definition LifoDependencyGraph_new :: "'a LifoDependencyGraph" where
  "LifoDependencyGraph_new = \<lparr>lifo_nodes = [], lifo_slave = DependencyGraph_new\<rparr>"

definition LifoDependencyGraph_addNode ::
  "'a \<Rightarrow> 'a LifoDependencyGraph \<Rightarrow> 'a LifoDependencyGraph option" where
  "LifoDependencyGraph_addNode node w =
     (if node \<in> set (lifo_nodes w) then None
      else (case DependencyGraph_addNode (- int (length (lifo_nodes w))) (lifo_slave w) of
              None \<Rightarrow> None
            | Some s \<Rightarrow> Some (w\<lparr>lifo_slave := s, lifo_nodes := lifo_nodes w @ [node]\<rparr>)))"

definition LifoDependencyGraph_addEdge ::
  "'a \<Rightarrow> 'a \<Rightarrow> 'a LifoDependencyGraph \<Rightarrow> 'a LifoDependencyGraph option" where
  "LifoDependencyGraph_addEdge dependentNode requiredNode w =
     (if dependentNode \<notin> set (lifo_nodes w) then None
      else if requiredNode \<notin> set (lifo_nodes w) then None
      else (case DependencyGraph_addEdge (- int (indexOf (lifo_nodes w) dependentNode))
                   (- int (indexOf (lifo_nodes w) requiredNode)) (lifo_slave w) of
              None \<Rightarrow> None
            | Some s \<Rightarrow> Some (w\<lparr>lifo_slave := s\<rparr>)))"

definition LifoDependencyGraph_sort ::
  "'a LifoDependencyGraph \<Rightarrow> ('a list \<times> 'a LifoDependencyGraph) option" where
  "LifoDependencyGraph_sort w =
     (case DependencyGraph_sort nodeNumbers_sortedByValue (lifo_slave w) of
        None \<Rightarrow> None
      | Some (slaveSorted, s) \<Rightarrow>
          Some (map (\<lambda>i. lifo_nodes w ! nat (- i)) slaveSorted, w\<lparr>lifo_slave := s\<rparr>))"

subsection \<open>\<^verbatim>\<open>StripedFifoDependencyGraph<T>\<close> and \<^verbatim>\<open>StripedLifoDependencyGraph<T>\<close>\<close>

text \<open>
  The slave nodes are pairs of the stripe and the position (negated for LIFO),
  ordered as \<^verbatim>\<open>QPair\<close> orders them: by the stripe first, then by the position.
\<close>

type_synonym SlaveNode = "int \<times> int"

record 'a StripedFifoDependencyGraph =
  sfifo_nodes :: "'a list"
  sfifo_stripes :: "int list"
  sfifo_slave :: "SlaveNode DependencyGraph"

definition StripedFifoDependencyGraph_new :: "'a StripedFifoDependencyGraph" where
  "StripedFifoDependencyGraph_new =
     \<lparr>sfifo_nodes = [], sfifo_stripes = [], sfifo_slave = DependencyGraph_new\<rparr>"

definition StripedFifoDependencyGraph_addNode ::
  "'a \<Rightarrow> int \<Rightarrow> 'a StripedFifoDependencyGraph \<Rightarrow> 'a StripedFifoDependencyGraph option" where
  "StripedFifoDependencyGraph_addNode node stripe w =
     (if node \<in> set (sfifo_nodes w) then None
      else (case DependencyGraph_addNode (stripe, int (length (sfifo_nodes w))) (sfifo_slave w) of
              None \<Rightarrow> None
            | Some s \<Rightarrow>
                Some (w\<lparr>sfifo_slave := s, sfifo_nodes := sfifo_nodes w @ [node],
                        sfifo_stripes := sfifo_stripes w @ [stripe]\<rparr>)))"

definition StripedFifoDependencyGraph_addEdge ::
  "'a \<Rightarrow> 'a \<Rightarrow> 'a StripedFifoDependencyGraph \<Rightarrow> 'a StripedFifoDependencyGraph option" where
  "StripedFifoDependencyGraph_addEdge dependentNode requiredNode w =
     (if dependentNode \<notin> set (sfifo_nodes w) then None
      else if requiredNode \<notin> set (sfifo_nodes w) then None
      else
        (let dIdx = indexOf (sfifo_nodes w) dependentNode;
             rIdx = indexOf (sfifo_nodes w) requiredNode
         in case DependencyGraph_addEdge (sfifo_stripes w ! dIdx, int dIdx)
                   (sfifo_stripes w ! rIdx, int rIdx) (sfifo_slave w) of
              None \<Rightarrow> None
            | Some s \<Rightarrow> Some (w\<lparr>sfifo_slave := s\<rparr>)))"

definition StripedFifoDependencyGraph_sort ::
  "'a StripedFifoDependencyGraph \<Rightarrow> ('a list \<times> 'a StripedFifoDependencyGraph) option" where
  "StripedFifoDependencyGraph_sort w =
     (case DependencyGraph_sort nodeNumbers_sortedByValue (sfifo_slave w) of
        None \<Rightarrow> None
      | Some (slaveSorted, s) \<Rightarrow>
          Some (map (\<lambda>i. sfifo_nodes w ! nat (snd i)) slaveSorted, w\<lparr>sfifo_slave := s\<rparr>))"

record 'a StripedLifoDependencyGraph =
  slifo_nodes :: "'a list"
  slifo_stripes :: "int list"
  slifo_slave :: "SlaveNode DependencyGraph"

definition StripedLifoDependencyGraph_new :: "'a StripedLifoDependencyGraph" where
  "StripedLifoDependencyGraph_new =
     \<lparr>slifo_nodes = [], slifo_stripes = [], slifo_slave = DependencyGraph_new\<rparr>"

definition StripedLifoDependencyGraph_addNode ::
  "'a \<Rightarrow> int \<Rightarrow> 'a StripedLifoDependencyGraph \<Rightarrow> 'a StripedLifoDependencyGraph option" where
  "StripedLifoDependencyGraph_addNode node stripe w =
     (if node \<in> set (slifo_nodes w) then None
      else (case DependencyGraph_addNode (stripe, - int (length (slifo_nodes w))) (slifo_slave w) of
              None \<Rightarrow> None
            | Some s \<Rightarrow>
                Some (w\<lparr>slifo_slave := s, slifo_nodes := slifo_nodes w @ [node],
                        slifo_stripes := slifo_stripes w @ [stripe]\<rparr>)))"

definition StripedLifoDependencyGraph_addEdge ::
  "'a \<Rightarrow> 'a \<Rightarrow> 'a StripedLifoDependencyGraph \<Rightarrow> 'a StripedLifoDependencyGraph option" where
  "StripedLifoDependencyGraph_addEdge dependentNode requiredNode w =
     (if dependentNode \<notin> set (slifo_nodes w) then None
      else if requiredNode \<notin> set (slifo_nodes w) then None
      else
        (let dIdx = indexOf (slifo_nodes w) dependentNode;
             rIdx = indexOf (slifo_nodes w) requiredNode
         in case DependencyGraph_addEdge (slifo_stripes w ! dIdx, - int dIdx)
                   (slifo_stripes w ! rIdx, - int rIdx) (slifo_slave w) of
              None \<Rightarrow> None
            | Some s \<Rightarrow> Some (w\<lparr>slifo_slave := s\<rparr>)))"

definition StripedLifoDependencyGraph_sort ::
  "'a StripedLifoDependencyGraph \<Rightarrow> ('a list \<times> 'a StripedLifoDependencyGraph) option" where
  "StripedLifoDependencyGraph_sort w =
     (case DependencyGraph_sort nodeNumbers_sortedByValue (slifo_slave w) of
        None \<Rightarrow> None
      | Some (slaveSorted, s) \<Rightarrow>
          Some (map (\<lambda>i. slifo_nodes w ! nat (- snd i)) slaveSorted, w\<lparr>slifo_slave := s\<rparr>))"

subsection \<open>Series of calls on the four wrappers\<close>

datatype 'a striped_call = StripedAddNode 'a int | StripedAddEdge 'a 'a | StripedSort

fun FifoDependencyGraph_calls ::
  "'a call list \<Rightarrow> 'a FifoDependencyGraph \<Rightarrow> 'a FifoDependencyGraph option" where
  "FifoDependencyGraph_calls [] w = Some w"
| "FifoDependencyGraph_calls (c # cs) w =
     (case (case c of
              AddNode node \<Rightarrow> FifoDependencyGraph_addNode node w
            | AddEdge d r \<Rightarrow> FifoDependencyGraph_addEdge d r w
            | Sort \<Rightarrow> map_option snd (FifoDependencyGraph_sort w)) of
        None \<Rightarrow> None
      | Some w' \<Rightarrow> FifoDependencyGraph_calls cs w')"

fun LifoDependencyGraph_calls ::
  "'a call list \<Rightarrow> 'a LifoDependencyGraph \<Rightarrow> 'a LifoDependencyGraph option" where
  "LifoDependencyGraph_calls [] w = Some w"
| "LifoDependencyGraph_calls (c # cs) w =
     (case (case c of
              AddNode node \<Rightarrow> LifoDependencyGraph_addNode node w
            | AddEdge d r \<Rightarrow> LifoDependencyGraph_addEdge d r w
            | Sort \<Rightarrow> map_option snd (LifoDependencyGraph_sort w)) of
        None \<Rightarrow> None
      | Some w' \<Rightarrow> LifoDependencyGraph_calls cs w')"

fun StripedFifoDependencyGraph_calls ::
  "'a striped_call list \<Rightarrow> 'a StripedFifoDependencyGraph \<Rightarrow> 'a StripedFifoDependencyGraph option" where
  "StripedFifoDependencyGraph_calls [] w = Some w"
| "StripedFifoDependencyGraph_calls (c # cs) w =
     (case (case c of
              StripedAddNode node stripe \<Rightarrow> StripedFifoDependencyGraph_addNode node stripe w
            | StripedAddEdge d r \<Rightarrow> StripedFifoDependencyGraph_addEdge d r w
            | StripedSort \<Rightarrow> map_option snd (StripedFifoDependencyGraph_sort w)) of
        None \<Rightarrow> None
      | Some w' \<Rightarrow> StripedFifoDependencyGraph_calls cs w')"

fun StripedLifoDependencyGraph_calls ::
  "'a striped_call list \<Rightarrow> 'a StripedLifoDependencyGraph \<Rightarrow> 'a StripedLifoDependencyGraph option" where
  "StripedLifoDependencyGraph_calls [] w = Some w"
| "StripedLifoDependencyGraph_calls (c # cs) w =
     (case (case c of
              StripedAddNode node stripe \<Rightarrow> StripedLifoDependencyGraph_addNode node stripe w
            | StripedAddEdge d r \<Rightarrow> StripedLifoDependencyGraph_addEdge d r w
            | StripedSort \<Rightarrow> map_option snd (StripedLifoDependencyGraph_sort w)) of
        None \<Rightarrow> None
      | Some w' \<Rightarrow> StripedLifoDependencyGraph_calls cs w')"

text \<open>
  What relates a wrapper to its slave graph, for a wrapper with the nodes \<open>nodes\<close>
  whose slave node for position \<open>i\<close> is \<open>key i\<close>: the slave graph is well formed and
  its nodes are the keys of the positions, and every edge of \<open>E\<close> is in the slave
  graph between the keys of its two nodes.
\<close>

definition wrapper_ok ::
  "'a list \<Rightarrow> (nat \<Rightarrow> 'k::linorder) \<Rightarrow> 'k DependencyGraph \<Rightarrow> ('a \<times> 'a) set \<Rightarrow> bool" where
  "wrapper_ok nodes key slave E =
     (distinct nodes
      \<and> graph_inv nodeNumbers_sortedByValue slave
      \<and> m_nodes slave = map key [0..<length nodes]
      \<and> (\<forall>(d, r) \<in> E. d \<in> set nodes \<and> r \<in> set nodes
            \<and> edge_recorded slave (key (indexOf nodes d)) (key (indexOf nodes r))))"

fun edges_of :: "'a call list \<Rightarrow> ('a \<times> 'a) set" where
  "edges_of [] = {}"
| "edges_of (AddEdge d r # cs) = insert (d, r) (edges_of cs)"
| "edges_of (c # cs) = edges_of cs"

fun striped_edges_of :: "'a striped_call list \<Rightarrow> ('a \<times> 'a) set" where
  "striped_edges_of [] = {}"
| "striped_edges_of (StripedAddEdge d r # cs) = insert (d, r) (striped_edges_of cs)"
| "striped_edges_of (c # cs) = striped_edges_of cs"

text \<open>
  A series of calls for the examples: three nodes, the second required by the
  first and the first by the third, with a \<^verbatim>\<open>sort()\<close> in between.
\<close>

abbreviation (input) example_calls :: "nat call list" where
  "example_calls \<equiv> [AddNode 20, AddNode 10, AddNode 30, AddEdge 20 10, Sort, AddEdge 30 20]"

abbreviation (input) example_striped_calls :: "nat striped_call list" where
  "example_striped_calls \<equiv>
     [StripedAddNode 20 2, StripedAddNode 10 2, StripedAddNode 30 1, StripedAddEdge 20 10,
      StripedSort, StripedAddEdge 30 20]"

section \<open>Plugin specifications (pluginloader/pluginspec)\<close>

subsection \<open>The data\<close>

datatype State = Invalid | Read | Resolved | Loaded | Initialized

text \<open>The order of the enumeration, for the comparisons \<^verbatim>\<open>state >= ...\<close>.\<close>

fun state_rank :: "State \<Rightarrow> nat" where
  "state_rank Invalid = 0"
| "state_rank Read = 1"
| "state_rank Resolved = 2"
| "state_rank Loaded = 3"
| "state_rank Initialized = 4"

record PluginDependency =
  dependency_name :: string
  dependency_version :: string

text \<open>
  A \<^verbatim>\<open>PluginSpec *\<close> is the position of the specification in the store, the list
  of all specifications the manager owns. An \<^verbatim>\<open>IPlugin *\<close> is a number, and the
  null pointer is \<open>None\<close>.
\<close>

type_synonym spec_ptr = nat
type_synonym plugin_ptr = nat

record PluginSpecPrivate =
  name :: string
  version :: string
  description :: string
  category :: string
  dependencies :: "PluginDependency list"
  enabled :: bool
  persistent :: bool
  indirectlyDisabled :: bool
  initializationFailed :: bool
  circularDependencyDetected :: bool
  filePath :: string
  fileName :: string
  providesSpecs :: "spec_ptr list"
  dependencySpecs :: "spec_ptr list"
  plugin :: "plugin_ptr option"
  state :: State
  hasError :: bool
  errorString :: string

type_synonym store = "PluginSpecPrivate list"

text \<open>The constructor \<^verbatim>\<open>PluginSpecPrivate::PluginSpecPrivate\<close>.\<close>

definition PluginSpecPrivate_new :: PluginSpecPrivate where
  "PluginSpecPrivate_new =
     \<lparr>name = [], version = [], description = [], category = [], dependencies = [],
      enabled = False, persistent = False, indirectlyDisabled = False,
      initializationFailed = False, circularDependencyDetected = False,
      filePath = [], fileName = [], providesSpecs = [], dependencySpecs = [],
      plugin = None, state = Invalid, hasError = False, errorString = []\<rparr>"

text \<open>
  \<^verbatim>\<open>reportError\<close>: the message is appended to the error string, after a line
  feed when the string is not empty, and the error flag is set. The result
  \<^verbatim>\<open>false\<close> of the source is written where it is used.
\<close>

definition reportError :: "string \<Rightarrow> PluginSpecPrivate \<Rightarrow> PluginSpecPrivate" where
  "reportError err d =
     d\<lparr>errorString :=
         (if errorString d \<noteq> [] then errorString d @ [CHR 0x0A] else errorString d) @ err,
       hasError := True\<rparr>"

text \<open>\<^verbatim>\<open>setEnabled\<close>, \<^verbatim>\<open>isEnabled\<close> and \<^verbatim>\<open>setPersistent\<close> of \<^verbatim>\<open>PluginSpec\<close>.\<close>

definition setEnabled :: "bool \<Rightarrow> PluginSpecPrivate \<Rightarrow> PluginSpecPrivate" where
  "setEnabled e d = (if persistent d \<and> \<not> e then d else d\<lparr>enabled := e\<rparr>)"

definition isEnabled :: "PluginSpecPrivate \<Rightarrow> bool" where
  "isEnabled d = (enabled d \<or> persistent d)"

definition setPersistent :: "bool \<Rightarrow> PluginSpecPrivate \<Rightarrow> PluginSpecPrivate" where
  "setPersistent p d = (if p then d\<lparr>persistent := p, enabled := p\<rparr> else d\<lparr>persistent := p\<rparr>)"

subsection \<open>Reading the description file\<close>

text \<open>
  The description file reaches the code as the series of tokens the stream reader
  of the library delivers. \<open>StartElement\<close> carries the name and the attributes,
  \<open>InvalidToken\<close> is the token of a parse error and carries the error text;
  \<open>OtherToken\<close> stands for the token types the code does not name (DTD, entity
  reference, processing instruction).
\<close>

datatype token =
    NoToken
  | InvalidToken string
  | StartDocument
  | EndDocument
  | StartElement string "(string \<times> string) list"
  | EndElement string
  | Characters string
  | Comment string
  | OtherToken

record XmlStreamReader =
  tokenType :: token
  pending :: "token list"

definition XmlStreamReader_new :: "token list \<Rightarrow> XmlStreamReader" where
  "XmlStreamReader_new ts = \<lparr>tokenType = NoToken, pending = ts\<rparr>"

fun is_invalid :: "token \<Rightarrow> bool" where
  "is_invalid (InvalidToken e) = True"
| "is_invalid t = False"

text \<open>
  \<^verbatim>\<open>atEnd()\<close>: the end of the document was read, or an error occurred.
  \<^verbatim>\<open>hasError()\<close>: an error occurred. \<^verbatim>\<open>readNext()\<close>: the next token; a stream
  that ends before the end of the document is the error of a premature end, and
  after an error the reader stays where it is.
\<close>

definition atEnd :: "XmlStreamReader \<Rightarrow> bool" where
  "atEnd r = (tokenType r = EndDocument \<or> is_invalid (tokenType r))"

definition reader_hasError :: "XmlStreamReader \<Rightarrow> bool" where
  "reader_hasError r = is_invalid (tokenType r)"

definition reader_errorString :: "XmlStreamReader \<Rightarrow> string" where
  "reader_errorString r = (case tokenType r of InvalidToken e \<Rightarrow> e | _ \<Rightarrow> [])"

definition raiseError :: "string \<Rightarrow> XmlStreamReader \<Rightarrow> XmlStreamReader" where
  "raiseError e r = r\<lparr>tokenType := InvalidToken e\<rparr>"

definition readNext :: "XmlStreamReader \<Rightarrow> XmlStreamReader" where
  "readNext r =
     (if is_invalid (tokenType r) then r
      else (case pending r of
              [] \<Rightarrow> raiseError ''Premature end of document.'' r
            | t # ts \<Rightarrow> r\<lparr>tokenType := t, pending := ts\<rparr>))"

text \<open>What is left to read: the measure of the reading loops.\<close>

definition reader_left :: "XmlStreamReader \<Rightarrow> nat" where
  "reader_left r = length (pending r) + (if atEnd r then 0 else 1)"

text \<open>The value of an attribute; the empty string when it is not there.\<close>

fun attribute_value :: "(string \<times> string) list \<Rightarrow> string \<Rightarrow> string" where
  "attribute_value [] a = []"
| "attribute_value ((k, v) # kvs) a = (if k = a then v else attribute_value kvs a)"

text \<open>
  \<^verbatim>\<open>readElementText()\<close> after a start element: the text up to the matching end
  element; comments and the other tokens are skipped, and a child element or the
  end of the stream is an error.
\<close>

function readElementText_loop :: "XmlStreamReader \<Rightarrow> string \<Rightarrow> XmlStreamReader \<times> string" where
  "readElementText_loop r result =
     (if atEnd r then (r, result)
      else
        (let r1 = readNext r
         in case tokenType r1 of
              Characters s \<Rightarrow> readElementText_loop r1 (result @ s)
            | EndElement e \<Rightarrow> (r1, result)
            | Comment s \<Rightarrow> readElementText_loop r1 result
            | OtherToken \<Rightarrow> readElementText_loop r1 result
            | InvalidToken e \<Rightarrow> (r1, result)
            | _ \<Rightarrow> (raiseError ''Expected character data.'' r1, result)))"
  by pat_completeness auto
termination
  by (relation "measure (\<lambda>(r, result). reader_left r)")
     (auto simp: reader_left_def atEnd_def readNext_def raiseError_def split: list.splits)

declare readElementText_loop.simps [simp del]

definition readElementText :: "XmlStreamReader \<Rightarrow> XmlStreamReader \<times> string" where
  "readElementText r =
     (case tokenType r of
        StartElement e as \<Rightarrow> readElementText_loop r []
      | _ \<Rightarrow> (r, []))"

text \<open>\<^verbatim>\<open>QString::trimmed()\<close>: white space removed at both ends.\<close>

definition is_space :: "char \<Rightarrow> bool" where
  "is_space c = (c \<in> set [CHR '' '', CHR 0x09, CHR 0x0A, CHR 0x0B, CHR 0x0C, CHR 0x0D])"

definition trimmed :: "string \<Rightarrow> string" where
  "trimmed s = rev (dropWhile is_space (rev (dropWhile is_space s)))"

text \<open>
  \<^verbatim>\<open>isValidVersion\<close>: the exact match of
  \<^verbatim>\<open>([0-9]+)(?:[.]([0-9]+))?(?:[.]([0-9]+))?(?:_([0-9]+))?\<close>. Each optional group
  starts with its own separator and a run of digits ends at the first other
  character, so the match reads from the left without choice.
\<close>

fun version_group :: "char \<Rightarrow> string option \<Rightarrow> string option" where
  "version_group c None = None"
| "version_group c (Some []) = Some []"
| "version_group c (Some (x # xs)) =
     (if x = c then (if takeWhile is_digit xs = [] then None else Some (dropWhile is_digit xs))
      else Some (x # xs))"

definition isValidVersion :: "string \<Rightarrow> bool" where
  "isValidVersion v =
     (takeWhile is_digit v \<noteq> []
      \<and> version_group (CHR ''_'') (version_group (CHR ''.'') (version_group (CHR ''.'')
           (Some (dropWhile is_digit v)))) = Some [])"

definition reader_name :: "XmlStreamReader \<Rightarrow> string" where
  "reader_name r = (case tokenType r of StartElement e as \<Rightarrow> e | EndElement e \<Rightarrow> e | _ \<Rightarrow> [])"

definition reader_attributes :: "XmlStreamReader \<Rightarrow> (string \<times> string) list" where
  "reader_attributes r = (case tokenType r of StartElement e as \<Rightarrow> as | _ \<Rightarrow> [])"

text \<open>\<^verbatim>\<open>readDependencyEntry\<close>, on the reader and the specification being read.\<close>

definition readDependencyEntry ::
  "XmlStreamReader \<times> PluginSpecPrivate \<Rightarrow> XmlStreamReader \<times> PluginSpecPrivate" where
  "readDependencyEntry = (\<lambda>(r, d).
     (let dep_name = attribute_value (reader_attributes r) ''name''
      in if dep_name = []
         then (r, reportError ''Expected attribut 'name' at element dependency'' d)
         else
           (let v = attribute_value (reader_attributes r) ''version'';
                dep = \<lparr>dependency_name = dep_name,
                       dependency_version = (if isValidVersion v then v else [])\<rparr>
            in (readNext r, d\<lparr>dependencies := dependencies d @ [dep]\<rparr>))))"

text \<open>
  \<^verbatim>\<open>readDependencies\<close>: the loop runs to the end of the stream, not to the end
  of the dependency list.
\<close>

function readDependencies ::
  "XmlStreamReader \<times> PluginSpecPrivate \<Rightarrow> XmlStreamReader \<times> PluginSpecPrivate" where
  "readDependencies (r, d) =
     (if atEnd r then (r, d)
      else
        (let r1 = readNext r
         in case tokenType r1 of
              StartElement element as \<Rightarrow>
                if element = ''dependency''
                then readDependencies (readDependencyEntry (r1, d))
                else readDependencies (r1, d)
            | _ \<Rightarrow> readDependencies (r1, d)))"
  by pat_completeness auto
termination
  by (relation "measure (\<lambda>(r, d). reader_left r)")
     (auto simp: reader_left_def atEnd_def readNext_def raiseError_def readDependencyEntry_def
        Let_def split: list.splits if_splits)

declare readDependencies.simps [simp del]

text \<open>
  The reading loops end because every round reads a token: what is left to read
  shrinks with \<^verbatim>\<open>readNext\<close> and does not grow in the helpers.
\<close>

lemma reader_left_readNext_le: "reader_left (readNext r) \<le> reader_left r"
  by (auto simp: reader_left_def atEnd_def readNext_def raiseError_def split: list.splits)

lemma reader_left_readNext_less: "\<not> atEnd r \<Longrightarrow> reader_left (readNext r) < reader_left r"
  by (auto simp: reader_left_def atEnd_def readNext_def raiseError_def split: list.splits)

lemma reader_left_readElementText_loop:
  "reader_left (fst (readElementText_loop r result)) \<le> reader_left r"
proof (induction "reader_left r" arbitrary: r result rule: less_induct)
  case less
  show ?case
  proof (cases "atEnd r")
    case True
    then show ?thesis by (simp add: readElementText_loop.simps)
  next
    case False
    have raise: "reader_left (raiseError e (readNext r)) \<le> reader_left r" for e
      using reader_left_readNext_le [of r] by (simp add: reader_left_def atEnd_def raiseError_def)
    have rec: "reader_left (fst (readElementText_loop (readNext r) res)) \<le> reader_left r" for res
      using less [OF reader_left_readNext_less [OF False], of res] reader_left_readNext_le [of r]
      by simp
    show ?thesis
      using False reader_left_readNext_le [of r] raise rec
      by (subst readElementText_loop.simps) (simp add: Let_def split: token.splits)
  qed
qed

lemma reader_left_readElementText:
  "readElementText r = (r2, t) \<Longrightarrow> reader_left r2 \<le> reader_left r"
  using reader_left_readElementText_loop [of r "[]"]
  by (cases "tokenType r") (auto simp: readElementText_def)

lemma reader_left_readDependencies:
  "reader_left (fst (readDependencies (r, d))) \<le> reader_left r"
proof (induction "reader_left r" arbitrary: r d rule: less_induct)
  case less
  show ?case
  proof (cases "atEnd r")
    case True
    then show ?thesis by (simp add: readDependencies.simps)
  next
    case False
    have rec: "reader_left (fst (readDependencies (readNext r, d'))) \<le> reader_left r" for d'
      using less [OF reader_left_readNext_less [OF False], of d'] reader_left_readNext_le [of r]
      by simp
    have "reader_left (readNext (readNext r)) < reader_left r"
      using reader_left_readNext_less [OF False] reader_left_readNext_le [of "readNext r"] by simp
    from less [OF this] have rec2:
      "reader_left (fst (readDependencies (readNext (readNext r), d'))) \<le> reader_left r" for d'
      using reader_left_readNext_le [of r] reader_left_readNext_le [of "readNext r"]
      by (meson order_trans)
    show ?thesis
      using False rec rec2
      by (subst readDependencies.simps)
         (simp add: Let_def readDependencyEntry_def split: token.splits)
  qed
qed

text \<open>The loop of \<^verbatim>\<open>readPluginSpec\<close> over the children of the plugin element.\<close>

function readPluginSpec_loop ::
  "XmlStreamReader \<times> PluginSpecPrivate \<Rightarrow> XmlStreamReader \<times> PluginSpecPrivate" where
  "readPluginSpec_loop (r, d) =
     (if atEnd r then (r, d)
      else
        (let r1 = readNext r
         in case tokenType r1 of
              StartElement element as \<Rightarrow>
                if element = ''description''
                then (case readElementText r1 of
                        (r2, text) \<Rightarrow> readPluginSpec_loop (r2, d\<lparr>description := trimmed text\<rparr>))
                else if element = ''category''
                then (case readElementText r1 of
                        (r2, text) \<Rightarrow> readPluginSpec_loop (r2, d\<lparr>category := trimmed text\<rparr>))
                else if element = ''dependencyList''
                then readPluginSpec_loop (readDependencies (r1, d))
                else readPluginSpec_loop (r1, d)
            | _ \<Rightarrow> readPluginSpec_loop (r1, d)))"
  by pat_completeness auto
termination
proof -
  have text2: "reader_left r2 < reader_left r"
    if "\<not> atEnd r" and "(r2, t) = readElementText (readNext r)" for r r2 t
    using reader_left_readElementText [of "readNext r" r2 t]
      reader_left_readNext_less [OF that(1)] that(2) by simp
  have deps2: "reader_left r2 < reader_left r"
    if "\<not> atEnd r" and "readDependencies (readNext r, d) = (r2, d2)" for r r2 d d2
    using reader_left_readDependencies [of "readNext r" d]
      reader_left_readNext_less [OF that(1)] that(2) by simp
  show ?thesis
    by (relation "measure (\<lambda>(r, d). reader_left r)")
       (auto simp: reader_left_readNext_less dest: text2 deps2 split: prod.splits)
qed

declare readPluginSpec_loop.simps [simp del]

lemma reader_left_readPluginSpec_loop:
  "reader_left (fst (readPluginSpec_loop (r, d))) \<le> reader_left r"
proof (induction "reader_left r" arbitrary: r d rule: less_induct)
  case less
  show ?case
  proof (cases "atEnd r")
    case True
    then show ?thesis by (simp add: readPluginSpec_loop.simps)
  next
    case False
    note lt = reader_left_readNext_less [OF False]
    have rec: "reader_left (fst (readPluginSpec_loop (r2, d'))) \<le> reader_left r"
      if "reader_left r2 \<le> reader_left (readNext r)" for r2 d'
      using less [of r2 d'] that lt by simp
    have t: "reader_left (fst (readPluginSpec_loop (r2, d'))) \<le> reader_left r"
      if "readElementText (readNext r) = (r2, c)" for r2 c d'
      using rec [OF reader_left_readElementText [OF that]] .
    have dp: "reader_left (fst (readPluginSpec_loop (readDependencies (readNext r, d')))) \<le> reader_left r"
      for d'
      using rec [OF reader_left_readDependencies [of "readNext r" d'],
          of "snd (readDependencies (readNext r, d'))"] by simp
    show ?thesis
      using False rec [OF order_refl] t dp
      by (subst readPluginSpec_loop.simps)
         (simp add: Let_def split: token.splits prod.splits)
  qed
qed

text \<open>
  \<^verbatim>\<open>readPluginSpec\<close>, called on a start element: the element is to be
  \<^verbatim>\<open>plugin\<close> and to have a name; both failures are reported and end the call.
\<close>

definition readPluginSpec ::
  "XmlStreamReader \<times> PluginSpecPrivate \<Rightarrow> XmlStreamReader \<times> PluginSpecPrivate" where
  "readPluginSpec = (\<lambda>(r, d).
     (if reader_name r \<noteq> ''plugin''
      then (r, reportError ''Expected element 'plugin' as top level element'' d)
      else
        (let d1 = d\<lparr>name := attribute_value (reader_attributes r) ''name''\<rparr>
         in if name d1 = []
            then (r, reportError ''Expected attribut 'name' at element plugin'' d1)
            else
              (let v = attribute_value (reader_attributes r) ''version'';
                   d2 = d1\<lparr>version := (if isValidVersion v then v else [])\<rparr>
               in readPluginSpec_loop (r, d2)))))"

lemma reader_left_readPluginSpec:
  "reader_left (fst (readPluginSpec (r, d))) \<le> reader_left r"
  by (simp add: readPluginSpec_def Let_def reader_left_readPluginSpec_loop)

text \<open>The loop of \<^verbatim>\<open>read\<close>: every start element is handed to \<^verbatim>\<open>readPluginSpec\<close>.\<close>

function read_loop ::
  "XmlStreamReader \<times> PluginSpecPrivate \<Rightarrow> XmlStreamReader \<times> PluginSpecPrivate" where
  "read_loop (r, d) =
     (if atEnd r then (r, d)
      else
        (let r1 = readNext r
         in case tokenType r1 of
              StartElement element as \<Rightarrow> read_loop (readPluginSpec (r1, d))
            | _ \<Rightarrow> read_loop (r1, d)))"
  by pat_completeness auto
termination
proof -
  have spec2: "reader_left r2 < reader_left r"
    if "\<not> atEnd r" and "readPluginSpec (readNext r, d) = (r2, d2)" for r r2 d d2
    using reader_left_readPluginSpec [of "readNext r" d]
      reader_left_readNext_less [OF that(1)] that(2) by simp
  show ?thesis
    by (relation "measure (\<lambda>(r, d). reader_left r)")
       (auto simp: reader_left_readNext_less dest: spec2 split: prod.splits)
qed

declare read_loop.simps [simp del]

text \<open>
  The file system as \<^verbatim>\<open>read\<close> sees it: a file does not exist, cannot be opened,
  or is opened and has an absolute path, a file name and a content.
\<close>

datatype spec_file = NoFile | Unreadable | File string string "token list"

text \<open>
  \<^verbatim>\<open>PluginSpecPrivate::read\<close>. The fields are cleared, then the file is opened
  and read. The message of a parse error has three places and is given four
  arguments; the fourth (the line number) is dropped by \<^verbatim>\<open>QString::arg\<close>. The
  arguments are written into the places, which is what the chained \<^verbatim>\<open>arg\<close> gives
  as long as none of them holds a place marker itself.
\<close>

definition PluginSpec_read ::
  "(string \<Rightarrow> spec_file) \<Rightarrow> string \<Rightarrow> PluginSpecPrivate \<Rightarrow> bool \<times> PluginSpecPrivate" where
  "PluginSpec_read fs specFileName d =
     (let d0 = d\<lparr>name := [], version := [], description := [], category := [],
                 errorString := [], dependencies := [], enabled := False,
                 indirectlyDisabled := False, circularDependencyDetected := False,
                 providesSpecs := [], dependencySpecs := [], plugin := None,
                 state := Invalid, hasError := False\<rparr>
      in case fs specFileName of
           NoFile \<Rightarrow> (False, reportError (''File does not exist: '' @ specFileName) d0)
         | Unreadable \<Rightarrow>
             (False, reportError (''File could not be opened for read: '' @ specFileName) d0)
         | File absolutePath baseName content \<Rightarrow>
             (let d1 = d0\<lparr>filePath := absolutePath, fileName := baseName\<rparr>
              in case read_loop (XmlStreamReader_new content, d1) of
                   (reader, d2) \<Rightarrow>
                     if reader_hasError reader
                     then (False,
                           reportError (''Error parsing spec file '' @ fileName d2 @ '': ''
                                        @ filePath d2 @ '', at line '' @ reader_errorString reader) d2)
                     else (True, d2\<lparr>state := Read, enabled := True\<rparr>)))"

subsection \<open>Resolving the dependencies\<close>

text \<open>
  The inner loop of \<^verbatim>\<open>resolveDependencies\<close>: the first specification of the list
  with the name of the dependency.
\<close>

fun find_spec :: "store \<Rightarrow> spec_ptr list \<Rightarrow> string \<Rightarrow> spec_ptr option" where
  "find_spec \<sigma> [] n = None"
| "find_spec \<sigma> (spec # specs) n =
     (if name (\<sigma> ! spec) = n then Some spec else find_spec \<sigma> specs n)"

text \<open>
  The text of the error. The source fills the two place markers of the text by
  \<^verbatim>\<open>arg(name).arg(dependency.name)\<close>; the model writes the arguments into the
  places, which is what the chained \<^verbatim>\<open>arg\<close> gives as long as the name of the
  plugin holds no place marker itself.
\<close>

definition unresolved_message :: "string \<Rightarrow> string \<Rightarrow> string" where
  "unresolved_message plugin_name dependency =
     ''Plugin '' @ plugin_name @ '' - could not resolve dependency on '' @ dependency @ ''.''"

text \<open>
  The outer loop, for the specification \<open>q\<close>: a dependency that is found gets \<open>q\<close>
  appended to its \<^verbatim>\<open>providesSpecs\<close> at once and is collected; one that is not
  found is reported on \<open>q\<close>.
\<close>

fun resolve_loop ::
  "spec_ptr \<Rightarrow> spec_ptr list \<Rightarrow> PluginDependency list \<Rightarrow> store \<times> spec_ptr list
   \<Rightarrow> store \<times> spec_ptr list" where
  "resolve_loop q specs [] (\<sigma>, resolvedDependencies) = (\<sigma>, resolvedDependencies)"
| "resolve_loop q specs (dependency # rest) (\<sigma>, resolvedDependencies) =
     (case find_spec \<sigma> specs (dependency_name dependency) of
        None \<Rightarrow>
          resolve_loop q specs rest
            (\<sigma>[q := reportError (unresolved_message (name (\<sigma> ! q)) (dependency_name dependency))
                      (\<sigma> ! q)],
             resolvedDependencies)
      | Some found \<Rightarrow>
          resolve_loop q specs rest
            (\<sigma>[found := (\<sigma> ! found)\<lparr>providesSpecs := providesSpecs (\<sigma> ! found) @ [q]\<rparr>],
             resolvedDependencies @ [found]))"

text \<open>
  \<^verbatim>\<open>PluginSpecPrivate::resolveDependencies\<close> of the specification \<open>q\<close>. The
  assertion \<^verbatim>\<open>state == PluginSpec::Read\<close> is the \<open>None\<close> result.
\<close>

definition PluginSpec_resolveDependencies ::
  "spec_ptr \<Rightarrow> spec_ptr list \<Rightarrow> store \<Rightarrow> (bool \<times> store) option" where
  "PluginSpec_resolveDependencies q specs \<sigma> =
     (if hasError (\<sigma> ! q) then Some (False, \<sigma>)
      else
        (let \<sigma>1 = (if state (\<sigma> ! q) = Resolved then \<sigma>[q := (\<sigma> ! q)\<lparr>state := Read\<rparr>] else \<sigma>)
         in if state (\<sigma>1 ! q) \<noteq> Read then None
            else
              (case resolve_loop q specs (dependencies (\<sigma>1 ! q)) (\<sigma>1, []) of
                 (\<sigma>2, resolvedDependencies) \<Rightarrow>
                   if hasError (\<sigma>2 ! q) then Some (False, \<sigma>2)
                   else Some (True, \<sigma>2[q := (\<sigma>2 ! q)\<lparr>dependencySpecs := resolvedDependencies,
                                                     state := Resolved\<rparr>]))))"

subsection \<open>The flag \<open>indirectlyDisabled\<close>\<close>

text \<open>A loop over a list whose body may fail: the state is handed from call to call.\<close>

fun foreach_opt :: "('a \<Rightarrow> 's \<Rightarrow> 's option) \<Rightarrow> 'a list \<Rightarrow> 's \<Rightarrow> 's option" where
  "foreach_opt f [] s = Some s"
| "foreach_opt f (x # xs) s = (case f x s of None \<Rightarrow> None | Some s' \<Rightarrow> foreach_opt f xs s')"

text \<open>
  The condition of the scan over \<^verbatim>\<open>dependencySpecs\<close>: the dependency has an
  error, is indirectly disabled, is not enabled, or failed to initialize.
\<close>

definition unavailable :: "store \<Rightarrow> spec_ptr \<Rightarrow> bool" where
  "unavailable \<sigma> dependencySpec =
     (hasError (\<sigma> ! dependencySpec)
      \<or> indirectlyDisabled (\<sigma> ! dependencySpec)
      \<or> \<not> isEnabled (\<sigma> ! dependencySpec)
      \<or> initializationFailed (\<sigma> ! dependencySpec))"

text \<open>
  The text of the cycle: the names from the top of the stack down to the
  specification itself.
\<close>

fun cycle_order :: "store \<Rightarrow> spec_ptr \<Rightarrow> spec_ptr list \<Rightarrow> string" where
  "cycle_order \<sigma> this [] = []"
| "cycle_order \<sigma> this (pluginSpec # below) =
     '' -> '' @ name (\<sigma> ! pluginSpec)
     @ (if pluginSpec = this then [] else cycle_order \<sigma> this below)"

definition circular_message :: "string \<Rightarrow> string" where
  "circular_message pluginOrder = ''Circular dependency detected: '' @ pluginOrder"

text \<open>\<^verbatim>\<open>QStack::pop\<close> with the assertion \<^verbatim>\<open>me == this\<close> that follows it.\<close>

definition pop_this :: "spec_ptr \<Rightarrow> spec_ptr list \<Rightarrow> spec_ptr list option" where
  "pop_this this stack =
     (if stack \<noteq> [] \<and> last stack = this then Some (butlast stack) else None)"

text \<open>
  \<^verbatim>\<open>PluginSpecPrivate::resolveIndirectlyDisabled\<close>. The static stack of the source
  is part of the state. The recursion over \<^verbatim>\<open>providesSpecs\<close> has no bound in the
  source; the model counts the depth of the calls down from \<open>fuel\<close>, and \<open>None\<close> is
  an exhausted count or a failed assertion.
\<close>

fun PluginSpec_resolveIndirectlyDisabled ::
  "nat \<Rightarrow> bool \<Rightarrow> spec_ptr \<Rightarrow> store \<times> spec_ptr list \<Rightarrow> (store \<times> spec_ptr list) option" where
  "PluginSpec_resolveIndirectlyDisabled 0 forceResolve this (\<sigma>, resolvedPluginsStack) = None"
| "PluginSpec_resolveIndirectlyDisabled (Suc fuel) forceResolve this (\<sigma>, resolvedPluginsStack) =
     (if circularDependencyDetected (\<sigma> ! this) then Some (\<sigma>, resolvedPluginsStack)
      else if this \<in> set resolvedPluginsStack then
        (let \<sigma>1 = \<sigma>[this := (\<sigma> ! this)\<lparr>indirectlyDisabled := True,
                                         circularDependencyDetected := True\<rparr>];
             pluginOrder = name (\<sigma>1 ! this) @ cycle_order \<sigma>1 this (rev resolvedPluginsStack)
         in case foreach_opt (\<lambda>providesSpec s. PluginSpec_resolveIndirectlyDisabled fuel True providesSpec s)
                   (providesSpecs (\<sigma>1 ! this)) (\<sigma>1, resolvedPluginsStack @ [this]) of
              None \<Rightarrow> None
            | Some (\<sigma>2, stack2) \<Rightarrow>
                (case pop_this this stack2 of
                   None \<Rightarrow> None
                 | Some stack3 \<Rightarrow>
                     Some (\<sigma>2[this := reportError (circular_message pluginOrder)
                                         (\<sigma>2 ! this)],
                           stack3)))
      else if \<not> forceResolve \<and> indirectlyDisabled (\<sigma> ! this) then Some (\<sigma>, resolvedPluginsStack)
      else
        (let \<sigma>1 = (if forceResolve then \<sigma>[this := (\<sigma> ! this)\<lparr>indirectlyDisabled := False\<rparr>] else \<sigma>);
             \<sigma>2 = (if list_ex (unavailable \<sigma>1) (dependencySpecs (\<sigma>1 ! this))
                   then \<sigma>1[this := (\<sigma>1 ! this)\<lparr>indirectlyDisabled := True\<rparr>] else \<sigma>1)
         in case (if indirectlyDisabled (\<sigma>2 ! this) \<or> forceResolve
                  then foreach_opt (\<lambda>providesSpec s.
                           PluginSpec_resolveIndirectlyDisabled fuel forceResolve providesSpec s)
                         (providesSpecs (\<sigma>2 ! this)) (\<sigma>2, resolvedPluginsStack @ [this])
                  else Some (\<sigma>2, resolvedPluginsStack @ [this])) of
              None \<Rightarrow> None
            | Some (\<sigma>3, stack3) \<Rightarrow>
                (case pop_this this stack3 of
                   None \<Rightarrow> None
                 | Some stack4 \<Rightarrow> Some (\<sigma>3, stack4))))"

declare PluginSpec_resolveIndirectlyDisabled.simps [simp del]

subsection \<open>Notions used in the statements about resolving\<close>

text \<open>
  \<^verbatim>\<open>resolveDependencies\<close> invoked on every specification of the list, with the
  list as its argument, as the manager does. A failed assertion ends the run.
\<close>

definition resolveDependencies_on_all :: "spec_ptr list \<Rightarrow> store \<Rightarrow> store option" where
  "resolveDependencies_on_all specs \<sigma> =
     foreach_opt (\<lambda>q s. map_option snd (PluginSpec_resolveDependencies q specs s)) specs \<sigma>"

text \<open>
  The specifications the declared dependencies of \<open>B\<close> resolve to, and whether
  all of them resolve.
\<close>

definition resolves_to :: "store \<Rightarrow> spec_ptr list \<Rightarrow> spec_ptr \<Rightarrow> spec_ptr \<Rightarrow> bool" where
  "resolves_to \<sigma> specs B A =
     list_ex (\<lambda>dependency. find_spec \<sigma> specs (dependency_name dependency) = Some A)
       (dependencies (\<sigma> ! B))"

definition all_found :: "store \<Rightarrow> spec_ptr list \<Rightarrow> spec_ptr \<Rightarrow> bool" where
  "all_found \<sigma> specs B =
     list_all (\<lambda>dependency. find_spec \<sigma> specs (dependency_name dependency) \<noteq> None)
       (dependencies (\<sigma> ! B))"

text \<open>Two specifications for the examples: \<open>A\<close> with no dependency, and \<open>B\<close>.\<close>

definition spec_A :: PluginSpecPrivate where
  "spec_A = PluginSpecPrivate_new\<lparr>name := ''A'', state := Read, enabled := True\<rparr>"

definition spec_B :: "string list \<Rightarrow> PluginSpecPrivate" where
  "spec_B ds =
     PluginSpecPrivate_new
       \<lparr>name := ''B'',
        dependencies := map (\<lambda>n. \<lparr>dependency_name = n, dependency_version = []\<rparr>) ds,
        state := Read, enabled := True\<rparr>"

text \<open>The frame of one resolving step: what a store keeps of another.\<close>

definition same_static :: "store \<Rightarrow> store \<Rightarrow> bool" where
  "same_static \<sigma> \<sigma>' =
     (length \<sigma>' = length \<sigma>
      \<and> (\<forall>p < length \<sigma>. name (\<sigma>' ! p) = name (\<sigma> ! p)
                           \<and> dependencies (\<sigma>' ! p) = dependencies (\<sigma> ! p)))"

text \<open>
  The state of a run of \<^verbatim>\<open>resolveDependencies\<close> over the specifications \<open>P\<close>,
  from the store \<open>\<sigma>0\<close>: the edges and the error flags are those the resolved
  names of \<open>\<sigma>0\<close> give for the specifications of \<open>P\<close>.
\<close>

definition run_inv :: "store \<Rightarrow> spec_ptr list \<Rightarrow> spec_ptr set \<Rightarrow> store \<Rightarrow> bool" where
  "run_inv \<sigma>0 specs P \<sigma> =
     (same_static \<sigma>0 \<sigma>
      \<and> (\<forall>A < length \<sigma>0. \<forall>B.
            B \<in> set (providesSpecs (\<sigma> ! A)) \<longleftrightarrow>
              B \<in> P \<and> \<not> hasError (\<sigma>0 ! B) \<and> resolves_to \<sigma>0 specs B A)
      \<and> (\<forall>B < length \<sigma>0. \<forall>A.
            A \<in> set (dependencySpecs (\<sigma> ! B)) \<longleftrightarrow>
              B \<in> P \<and> \<not> hasError (\<sigma>0 ! B) \<and> all_found \<sigma>0 specs B \<and> resolves_to \<sigma>0 specs B A)
      \<and> (\<forall>B < length \<sigma>0.
            hasError (\<sigma> ! B) \<longleftrightarrow> hasError (\<sigma>0 ! B) \<or> (B \<in> P \<and> \<not> all_found \<sigma>0 specs B)))"

text \<open>Two calls of \<^verbatim>\<open>resolveDependencies\<close> in a row, with the stores after each.\<close>

definition resolveDependencies_twice ::
  "spec_ptr \<Rightarrow> spec_ptr list \<Rightarrow> store \<Rightarrow> (store \<times> store) option" where
  "resolveDependencies_twice q specs \<sigma> =
     (case PluginSpec_resolveDependencies q specs \<sigma> of
        None \<Rightarrow> None
      | Some (ok1, \<sigma>1) \<Rightarrow>
          (case PluginSpec_resolveDependencies q specs \<sigma>1 of
             None \<Rightarrow> None
           | Some (ok2, \<sigma>2) \<Rightarrow> Some (\<sigma>1, \<sigma>2)))"

text \<open>The edge lists of every specification of a store.\<close>

definition provides_lists :: "store \<Rightarrow> spec_ptr list list" where
  "provides_lists \<sigma> = map providesSpecs \<sigma>"

definition dependency_lists :: "store \<Rightarrow> spec_ptr list list" where
  "dependency_lists \<sigma> = map dependencySpecs \<sigma>"

subsection \<open>Queues, loading and unloading\<close>

text \<open>
  What the code calls outside itself is a parameter: the dynamic loader and the
  file system for a library name, and the callbacks of a plugin instance. The
  calls with an effect are recorded in a log.
\<close>

datatype loaded = LoadFailed string | NotAPlugin | IsPlugin plugin_ptr

record environment =
  isLibrary :: "string \<Rightarrow> bool"
  fileExists :: "string \<Rightarrow> bool"
  loader_instance :: "string \<Rightarrow> loaded"
  loader_unload :: "string \<Rightarrow> bool"
  plugin_initialize :: "plugin_ptr \<Rightarrow> bool"
  plugin_isShutdownRequested :: "plugin_ptr \<Rightarrow> bool"

datatype event =
    LoaderInstance string
  | LoaderLoad string
  | LoaderUnload string
  | PluginInitialize plugin_ptr
  | PluginShutdown plugin_ptr
  | MonitorSetStatus string
  | PluginsInitialized

text \<open>
  \<^verbatim>\<open>FileHelper::buildPluginName\<close>, as built for a platform that is neither
  Windows nor Mac OS (the debug and the release build agree there). The source
  fills the format by \<^verbatim>\<open>arg(path).arg(name)\<close>; the model writes the arguments
  into the places, which is what the chained \<^verbatim>\<open>arg\<close> gives as long as the path
  holds no place marker itself. The same holds for the text of the failed
  dependency below.
\<close>

definition buildPluginName :: "string \<Rightarrow> string \<Rightarrow> string" where
  "buildPluginName path plugin_name =
     (if path = [] then ''.'' else path) @ ''/lib'' @ plugin_name @ ''.so''"

fun join_names :: "store \<Rightarrow> spec_ptr list \<Rightarrow> string" where
  "join_names \<sigma> [] = []"
| "join_names \<sigma> [p] = name (\<sigma> ! p)"
| "join_names \<sigma> (p # ps) = name (\<sigma> ! p) @ '' -> '' @ join_names \<sigma> ps"

definition queue_cycle_message :: "store \<Rightarrow> spec_ptr list \<Rightarrow> spec_ptr \<Rightarrow> string" where
  "queue_cycle_message \<sigma> circularityCheckQueue q =
     circular_message (join_names \<sigma> circularityCheckQueue @ '' -> '' @ name (\<sigma> ! q))"

definition dependency_failed_message :: "string \<Rightarrow> string \<Rightarrow> string" where
  "dependency_failed_message plugin_name dependency =
     ''Plugin '' @ plugin_name @ '' cannot be loaded because dependency '' @ dependency
     @ '' failed.''"

text \<open>
  The state of the queue walks: the store, the queue and the list of the
  circularity check.
\<close>

type_synonym queue_state = "store \<times> spec_ptr list \<times> spec_ptr list"

text \<open>
  The loop of \<^verbatim>\<open>loadQueue\<close> over \<^verbatim>\<open>dependencySpecs\<close>, with the recursive call as
  a parameter: the first dependency that fails is reported on \<open>q\<close> and ends the loop.
\<close>

fun loadQueue_dependencies ::
  "(spec_ptr \<Rightarrow> queue_state \<Rightarrow> (bool \<times> queue_state) option) \<Rightarrow> spec_ptr \<Rightarrow> spec_ptr list
   \<Rightarrow> queue_state \<Rightarrow> (bool \<times> queue_state) option" where
  "loadQueue_dependencies rec q [] s = Some (True, s)"
| "loadQueue_dependencies rec q (pluginSpec # rest) s =
     (case rec pluginSpec s of
        None \<Rightarrow> None
      | Some (ok, (\<sigma>, queue, circularityCheckQueue)) \<Rightarrow>
          if \<not> ok
          then Some (False,
                     (\<sigma>[q := reportError (dependency_failed_message (name (\<sigma> ! q))
                                           (name (\<sigma> ! pluginSpec))) (\<sigma> ! q)],
                      queue, circularityCheckQueue))
          else loadQueue_dependencies rec q rest (\<sigma>, queue, circularityCheckQueue))"

text \<open>
  \<^verbatim>\<open>PluginSpecPrivate::loadQueue\<close>. The depth of the recursion is counted down
  from \<open>fuel\<close>; \<open>None\<close> is an exhausted count or the failed assertion
  \<^verbatim>\<open>state >= PluginSpec::Resolved\<close>.
\<close>

fun PluginSpec_loadQueue ::
  "nat \<Rightarrow> spec_ptr \<Rightarrow> queue_state \<Rightarrow> (bool \<times> queue_state) option" where
  "PluginSpec_loadQueue 0 q s = None"
| "PluginSpec_loadQueue (Suc fuel) q (\<sigma>, queue, circularityCheckQueue) =
     (if state_rank (state (\<sigma> ! q)) < state_rank Resolved then None
      else if \<not> enabled (\<sigma> ! q) \<or> indirectlyDisabled (\<sigma> ! q)
      then Some (False, (\<sigma>, queue, circularityCheckQueue))
      else if q \<in> set queue then Some (True, (\<sigma>, queue, circularityCheckQueue))
      else if q \<in> set circularityCheckQueue
      then Some (False,
                 (\<sigma>[q := reportError (queue_cycle_message \<sigma> circularityCheckQueue q) (\<sigma> ! q)],
                  queue, circularityCheckQueue))
      else
        (case loadQueue_dependencies (\<lambda>pluginSpec s. PluginSpec_loadQueue fuel pluginSpec s) q
                (dependencySpecs (\<sigma> ! q)) (\<sigma>, queue, circularityCheckQueue @ [q]) of
           None \<Rightarrow> None
         | Some (ok, (\<sigma>', queue', circularityCheckQueue')) \<Rightarrow>
             if \<not> ok then Some (False, (\<sigma>', queue', circularityCheckQueue'))
             else Some (True, (\<sigma>', queue' @ [q], circularityCheckQueue'))))"

declare PluginSpec_loadQueue.simps [simp del]

text \<open>
  \<^verbatim>\<open>PluginSpecPrivate::unloadQueue\<close>: the walk over \<^verbatim>\<open>providesSpecs\<close>; the
  results of the recursive calls are not looked at.
\<close>

fun PluginSpec_unloadQueue ::
  "nat \<Rightarrow> spec_ptr \<Rightarrow> queue_state \<Rightarrow> (bool \<times> queue_state) option" where
  "PluginSpec_unloadQueue 0 q s = None"
| "PluginSpec_unloadQueue (Suc fuel) q (\<sigma>, queue, circularityCheckQueue) =
     (if state_rank (state (\<sigma> ! q)) < state_rank Resolved then None
      else if (\<not> enabled (\<sigma> ! q) \<or> indirectlyDisabled (\<sigma> ! q))
              \<and> state_rank (state (\<sigma> ! q)) < state_rank Loaded
      then Some (False, (\<sigma>, queue, circularityCheckQueue))
      else if q \<in> set queue then Some (True, (\<sigma>, queue, circularityCheckQueue))
      else if q \<in> set circularityCheckQueue
      then Some (False,
                 (\<sigma>[q := reportError (queue_cycle_message \<sigma> circularityCheckQueue q) (\<sigma> ! q)],
                  queue, circularityCheckQueue))
      else
        (case foreach_opt (\<lambda>pluginSpec s. map_option snd (PluginSpec_unloadQueue fuel pluginSpec s))
                (providesSpecs (\<sigma> ! q)) (\<sigma>, queue, circularityCheckQueue @ [q]) of
           None \<Rightarrow> None
         | Some (\<sigma>', queue', circularityCheckQueue') \<Rightarrow>
             Some (True, (\<sigma>', queue' @ [q], circularityCheckQueue'))))"

declare PluginSpec_unloadQueue.simps [simp del]

definition not_compatible_message :: "string \<Rightarrow> string" where
  "not_compatible_message libName = ''The file '' @ [CHR 0x27] @ libName @ [CHR 0x27] @ '' is not compatible plugin.''"

text \<open>
  \<^verbatim>\<open>PluginSpecPrivate::loadPlugin\<close> of the specification \<open>q\<close>; the result is the
  returned plugin pointer. The three assertions are the \<open>None\<close> result.
\<close>

definition PluginSpec_loadPlugin ::
  "environment \<Rightarrow> spec_ptr \<Rightarrow> store \<times> event list
   \<Rightarrow> (plugin_ptr option \<times> store \<times> event list) option" where
  "PluginSpec_loadPlugin env q = (\<lambda>(\<sigma>, log).
     (let libName = buildPluginName (filePath (\<sigma> ! q)) (name (\<sigma> ! q))
      in if state (\<sigma> ! q) \<noteq> Resolved then None
         else if \<not> isLibrary env libName then None
         else if \<not> fileExists env libName then None
         else if list_ex (\<lambda>dependencySpec. plugin (\<sigma> ! dependencySpec) = None)
                   (dependencySpecs (\<sigma> ! q))
         then Some (None, \<sigma>, log)
         else
           (case loader_instance env libName of
              IsPlugin p \<Rightarrow>
                Some (Some p, \<sigma>[q := (\<sigma> ! q)\<lparr>plugin := Some p, state := Loaded\<rparr>],
                      log @ [LoaderInstance libName])
            | NotAPlugin \<Rightarrow>
                Some (None,
                      \<sigma>[q := reportError (not_compatible_message libName) ((\<sigma> ! q)\<lparr>plugin := None\<rparr>)],
                      log @ [LoaderInstance libName, LoaderUnload libName])
            | LoadFailed err \<Rightarrow>
                Some (plugin (\<sigma> ! q), \<sigma>[q := reportError err (\<sigma> ! q)],
                      log @ [LoaderInstance libName]))))"

text \<open>
  \<^verbatim>\<open>PluginSpecPrivate::unloadPlugin\<close>, on the specification itself: nothing
  happens without a plugin; otherwise the plugin is shut down when it was
  initialized, the library is unloaded, and the state goes back to resolved.
\<close>

definition PluginSpec_unloadPlugin ::
  "environment \<Rightarrow> PluginSpecPrivate \<times> event list \<Rightarrow> PluginSpecPrivate \<times> event list" where
  "PluginSpec_unloadPlugin env = (\<lambda>(d, log).
     (case plugin d of
        None \<Rightarrow> (d, log)
      | Some p \<Rightarrow>
          (let log1 = (if state_rank (state d) \<ge> state_rank Initialized
                       then log @ [PluginShutdown p] else log);
               libName = buildPluginName (filePath d) (name d)
           in (d\<lparr>plugin := None, state := Resolved\<rparr>,
               log1 @ [LoaderLoad libName, LoaderUnload libName]))))"

definition initialization_failed_message :: "string \<Rightarrow> string" where
  "initialization_failed_message plugin_name =
     ''Initialization of '' @ [CHR 0x27] @ plugin_name @ [CHR 0x27] @ '' plugin failed: ''"

text \<open>
  \<^verbatim>\<open>PluginSpecPrivate::initializePlugin\<close>, on the specification itself. The two
  assertions are the \<open>None\<close> result.
\<close>

definition PluginSpec_initializePlugin ::
  "environment \<Rightarrow> PluginSpecPrivate \<times> event list
   \<Rightarrow> (bool \<times> PluginSpecPrivate \<times> event list) option" where
  "PluginSpec_initializePlugin env = (\<lambda>(d, log).
     (case plugin d of
        None \<Rightarrow> None
      | Some p \<Rightarrow>
          if state d \<noteq> Loaded then None
          else if \<not> plugin_initialize env p
          then Some (False,
                     (reportError (initialization_failed_message (name d)) d)
                       \<lparr>initializationFailed := True\<rparr>,
                     log @ [PluginInitialize p])
          else Some (True, d\<lparr>initializationFailed := False, state := Initialized\<rparr>,
                     log @ [PluginInitialize p])))"

subsection \<open>Examples of description files and of an environment\<close>

text \<open>
  A valid description without dependencies, and two descriptions the parser
  reports: one with another top level element, one without the name.
\<close>

definition valid_description :: "token list" where
  "valid_description =
     [StartDocument,
      StartElement ''plugin'' [(''name'', ''core''), (''version'', ''1.0.2'')],
      Characters '' '',
      StartElement ''description'' [], Characters '' The core. '', EndElement ''description'',
      StartElement ''category'' [], Characters ''Base'', EndElement ''category'',
      EndElement ''plugin'',
      EndDocument]"

definition wrong_top_level_description :: "token list" where
  "wrong_top_level_description =
     [StartDocument, StartElement ''module'' [(''name'', ''core'')], EndElement ''module'',
      EndDocument]"

definition nameless_description :: "token list" where
  "nameless_description =
     [StartDocument, StartElement ''plugin'' [(''version'', ''1.0'')], EndElement ''plugin'',
      EndDocument]"

definition example_files :: "string \<Rightarrow> spec_file" where
  "example_files f =
     (if f = ''/plugins/core.spec'' then File ''/plugins'' ''core.spec'' valid_description
      else if f = ''/plugins/module.spec''
      then File ''/plugins'' ''module.spec'' wrong_top_level_description
      else if f = ''/plugins/nameless.spec''
      then File ''/plugins'' ''nameless.spec'' nameless_description
      else if f = ''/plugins/locked.spec'' then Unreadable
      else NoFile)"

definition example_environment :: environment where
  "example_environment =
     \<lparr>isLibrary = (\<lambda>lib. True), fileExists = (\<lambda>lib. True),
      loader_instance = (\<lambda>lib. IsPlugin 7), loader_unload = (\<lambda>lib. True),
      plugin_initialize = (\<lambda>p. True), plugin_isShutdownRequested = (\<lambda>p. False)\<rparr>"

subsection \<open>Notions used in the statements about the propagation\<close>

text \<open>
  \<^verbatim>\<open>resolveIndirectlyDisabled(true)\<close> invoked on every specification of the list,
  as the second loop of the manager's \<^verbatim>\<open>resolveDependencies\<close> does; the static
  stack is empty at the start.
\<close>

definition resolveIndirectlyDisabled_on_all :: "nat \<Rightarrow> spec_ptr list \<Rightarrow> store \<Rightarrow> store option" where
  "resolveIndirectlyDisabled_on_all fuel specs \<sigma> =
     map_option fst
       (foreach_opt (\<lambda>pluginSpec s. PluginSpec_resolveIndirectlyDisabled fuel True pluginSpec s)
          specs (\<sigma>, []))"

text \<open>
  The relation ``\<open>B\<close> depends on \<open>A\<close>'' of the forward edges. The transitive
  dependents of \<open>X\<close> are the \<open>S\<close> with \<open>(S, X)\<close> in its transitive closure.
\<close>

definition dep_rel :: "store \<Rightarrow> (spec_ptr \<times> spec_ptr) set" where
  "dep_rel \<sigma> = {(B, A). B < length \<sigma> \<and> A \<in> set (dependencySpecs (\<sigma> ! B))}"

text \<open>
  A resolved and acyclic set: the edges point into the store, the reverse edges
  mirror the forward edges, the forward edges have no cycle, and no specification
  carries the mark of a circular dependency.
\<close>

definition resolved_graph :: "store \<Rightarrow> bool" where
  "resolved_graph \<sigma> =
     ((\<forall>B < length \<sigma>. set (dependencySpecs (\<sigma> ! B)) \<subseteq> {..<length \<sigma>}
                       \<and> set (providesSpecs (\<sigma> ! B)) \<subseteq> {..<length \<sigma>})
      \<and> (\<forall>A < length \<sigma>. \<forall>B < length \<sigma>.
            A \<in> set (dependencySpecs (\<sigma> ! B)) \<longleftrightarrow> B \<in> set (providesSpecs (\<sigma> ! A)))
      \<and> acyclic (dep_rel \<sigma>)
      \<and> (\<forall>p < length \<sigma>. \<not> circularDependencyDetected (\<sigma> ! p)))"

text \<open>
  The flag of \<open>S\<close> is up to date: it is set exactly when a dependency of \<open>S\<close> is
  unavailable. A propagation pass leaves every flag so.
\<close>

definition up_to_date :: "store \<Rightarrow> spec_ptr \<Rightarrow> bool" where
  "up_to_date \<sigma> S =
     (indirectlyDisabled (\<sigma> ! S) \<longleftrightarrow> list_ex (unavailable \<sigma>) (dependencySpecs (\<sigma> ! S)))"

text \<open>The second store is the first but for the flags \<open>indirectlyDisabled\<close>.\<close>

definition flags_only :: "store \<Rightarrow> store \<Rightarrow> bool" where
  "flags_only \<sigma> \<sigma>' =
     (length \<sigma>' = length \<sigma>
      \<and> (\<forall>p < length \<sigma>. \<sigma>' ! p = (\<sigma> ! p)\<lparr>indirectlyDisabled := indirectlyDisabled (\<sigma>' ! p)\<rparr>))"

text \<open>A specification and what depends on it, directly or not.\<close>

definition downstream :: "store \<Rightarrow> spec_ptr \<Rightarrow> spec_ptr set" where
  "downstream \<sigma> p = {S. (S, p) \<in> (dep_rel \<sigma>)\<^sup>*}"

text \<open>
  What a forced call on \<open>p\<close> with the count \<open>fuel\<close> does on every store that is
  \<open>\<sigma>0\<close> but for the flags, with a stack that holds nothing downstream of \<open>p\<close>: it
  returns with the stack as it was, changes flags only, changes nothing outside
  the downstream of \<open>p\<close>, and leaves every flag downstream of \<open>p\<close> up to date.
\<close>

definition propagates :: "store \<Rightarrow> nat \<Rightarrow> spec_ptr \<Rightarrow> bool" where
  "propagates \<sigma>0 fuel p =
     (\<forall>\<sigma> stack. flags_only \<sigma>0 \<sigma> \<longrightarrow> set stack \<inter> downstream \<sigma>0 p = {} \<longrightarrow>
        (\<exists>\<sigma>'. PluginSpec_resolveIndirectlyDisabled fuel True p (\<sigma>, stack) = Some (\<sigma>', stack)
              \<and> flags_only \<sigma> \<sigma>'
              \<and> (\<forall>S < length \<sigma>0. S \<notin> downstream \<sigma>0 p \<longrightarrow> \<sigma>' ! S = \<sigma> ! S)
              \<and> (\<forall>S \<in> downstream \<sigma>0 p. up_to_date \<sigma>' S)))"

text \<open>
  Specifications for the examples: \<open>B\<close> depends on \<open>A\<close>, both resolved; and a third
  resolved specification \<open>X\<close> without dependencies and without dependents.
\<close>

definition resolved_A :: PluginSpecPrivate where
  "resolved_A = spec_A\<lparr>state := Resolved, providesSpecs := [1]\<rparr>"

definition resolved_B :: PluginSpecPrivate where
  "resolved_B = (spec_B [''A''])\<lparr>state := Resolved, dependencySpecs := [0]\<rparr>"

definition spec_X :: PluginSpecPrivate where
  "spec_X = spec_A\<lparr>name := ''X'', state := Resolved\<rparr>"

text \<open>The flags \<^verbatim>\<open>indirectlyDisabled\<close> of a store, in the order of the store.\<close>

definition flags :: "store \<Rightarrow> bool list" where
  "flags \<sigma> = map indirectlyDisabled \<sigma>"
section \<open>The plugin manager (pluginloader/pluginmanager)\<close>

text \<open>
  The members of \<^verbatim>\<open>PluginManagerPrivate\<close>, together with what its methods reach:
  the store of the specification objects, the static stack of
  \<^verbatim>\<open>resolveIndirectlyDisabled\<close>, and the log of the outside calls and of the
  emitted signal. The multi map \<^verbatim>\<open>m_pluginToSpec\<close> is the list of its items in
  the order of the keys, the null pointer first; the progress monitor is taken
  to be there.
\<close>

record PluginManagerPrivate =
  m_pluginToSpec :: "(plugin_ptr option \<times> spec_ptr) list"
  m_disabledPlugins :: "string list"
  pluginWhichRequestedShutdown :: string
  objects :: store
  resolvedPluginsStack :: "spec_ptr list"
  events :: "event list"

text \<open>
  \<^verbatim>\<open>QMultiMap::insert\<close> puts the new item before the items of the same key,
  \<^verbatim>\<open>QMultiMap::remove(key, value)\<close> takes out every item with this key and value.
\<close>

fun qmultimap_insert :: "'k::linorder \<Rightarrow> 'v \<Rightarrow> ('k \<times> 'v) list \<Rightarrow> ('k \<times> 'v) list" where
  "qmultimap_insert k v [] = [(k, v)]"
| "qmultimap_insert k v ((k', v') # m) =
     (if k \<le> k' then (k, v) # (k', v') # m else (k', v') # qmultimap_insert k v m)"

definition qmultimap_remove :: "'k \<Rightarrow> 'v \<Rightarrow> ('k \<times> 'v) list \<Rightarrow> ('k \<times> 'v) list" where
  "qmultimap_remove k v m = filter (\<lambda>item. item \<noteq> (k, v)) m"

text \<open>
  \<^verbatim>\<open>PluginManagerPrivate::loadQueue\<close>: the specifications are put into a map
  under their names, and those at least resolved are walked in the order of the
  names, each with a fresh list for the circularity check.
\<close>

definition loadQueue_step ::
  "nat \<Rightarrow> spec_ptr \<Rightarrow> store \<times> spec_ptr list \<Rightarrow> (store \<times> spec_ptr list) option" where
  "loadQueue_step fuel pluginSpec = (\<lambda>(\<sigma>, queue).
     (if state_rank (state (\<sigma> ! pluginSpec)) \<ge> state_rank Resolved
      then (case PluginSpec_loadQueue fuel pluginSpec (\<sigma>, queue, []) of
              None \<Rightarrow> None
            | Some (ok, (\<sigma>', queue', circularityCheckQueue)) \<Rightarrow> Some (\<sigma>', queue'))
      else Some (\<sigma>, queue)))"

definition PluginManager_loadQueue ::
  "nat \<Rightarrow> PluginManagerPrivate \<Rightarrow> (spec_ptr list \<times> PluginManagerPrivate) option" where
  "PluginManager_loadQueue fuel d =
     (let pluginSpecs = foldl (\<lambda>m pluginSpec. qmap_insert (name (objects d ! pluginSpec)) pluginSpec m)
                          [] (map snd (m_pluginToSpec d))
      in case foreach_opt (loadQueue_step fuel) (map snd pluginSpecs) (objects d, []) of
           None \<Rightarrow> None
         | Some (\<sigma>, queue) \<Rightarrow> Some (queue, d\<lparr>objects := \<sigma>\<rparr>))"

text \<open>\<^verbatim>\<open>PluginManagerPrivate::unloadPlugins\<close>.\<close>

fun PluginManager_unloadPlugins ::
  "environment \<Rightarrow> spec_ptr list \<Rightarrow> PluginManagerPrivate \<Rightarrow> PluginManagerPrivate" where
  "PluginManager_unloadPlugins env [] d = d"
| "PluginManager_unloadPlugins env (pluginSpec # unloadQueue) d =
     (let m1 = qmultimap_remove (plugin (objects d ! pluginSpec)) pluginSpec (m_pluginToSpec d);
          (spec, log) = PluginSpec_unloadPlugin env (objects d ! pluginSpec, events d);
          m2 = qmultimap_insert None pluginSpec m1
      in PluginManager_unloadPlugins env unloadQueue
           (d\<lparr>m_pluginToSpec := m2, objects := (objects d)[pluginSpec := spec], events := log\<rparr>))"

text \<open>
  The loop of \<^verbatim>\<open>PluginManagerPrivate::initializePlugins\<close> over the load queue.
  \<open>Inl\<close> is the \<^verbatim>\<open>return false\<close> from inside the loop, \<open>Inr\<close> the end of the loop
  with the value of \<^verbatim>\<open>allInitialized\<close>. \<open>None\<close> is a failed assertion, the null
  plugin pointer, or an exhausted count of one of the recursions.
\<close>

fun initializePlugins_loop ::
  "nat \<Rightarrow> environment \<Rightarrow> spec_ptr list \<Rightarrow> bool \<Rightarrow> PluginManagerPrivate
   \<Rightarrow> (PluginManagerPrivate + bool \<times> PluginManagerPrivate) option" where
  "initializePlugins_loop fuel env [] allInitialized d = Some (Inr (allInitialized, d))"
| "initializePlugins_loop fuel env (pluginSpec # rest) allInitialized d =
     (if state (objects d ! pluginSpec) = Loaded
      then
        (case PluginSpec_initializePlugin env
                (objects d ! pluginSpec,
                 events d @ [MonitorSetStatus (name (objects d ! pluginSpec))]) of
           None \<Rightarrow> None
         | Some (initialized, spec, log) \<Rightarrow>
             (let d1 = d\<lparr>objects := (objects d)[pluginSpec := spec], events := log\<rparr>
              in if initialized then initializePlugins_loop fuel env rest allInitialized d1
                 else
                   (case plugin (objects d1 ! pluginSpec) of
                      None \<Rightarrow> None
                    | Some p \<Rightarrow>
                        if plugin_isShutdownRequested env p
                        then Some (Inl (d1\<lparr>pluginWhichRequestedShutdown :=
                                             name (objects d1 ! pluginSpec)\<rparr>))
                        else
                          (case PluginSpec_unloadQueue fuel pluginSpec (objects d1, [], []) of
                             None \<Rightarrow> None
                           | Some (ok, (\<sigma>2, queue, circularity)) \<Rightarrow>
                               (let d2 = PluginManager_unloadPlugins env queue (d1\<lparr>objects := \<sigma>2\<rparr>)
                                in case PluginSpec_resolveIndirectlyDisabled fuel True pluginSpec
                                          (objects d2, resolvedPluginsStack d2) of
                                     None \<Rightarrow> None
                                   | Some (\<sigma>3, stack) \<Rightarrow>
                                       initializePlugins_loop fuel env rest False
                                         (d2\<lparr>objects := \<sigma>3, resolvedPluginsStack := stack\<rparr>))))))
      else initializePlugins_loop fuel env rest allInitialized d)"

text \<open>
  \<^verbatim>\<open>PluginManagerPrivate::initializePlugins\<close>: the result of the call and the
  manager after it. The signal \<^verbatim>\<open>pluginsInitialized\<close> is emitted after the loop.
\<close>

definition PluginManager_initializePlugins ::
  "nat \<Rightarrow> environment \<Rightarrow> PluginManagerPrivate \<Rightarrow> (bool \<times> PluginManagerPrivate) option" where
  "PluginManager_initializePlugins fuel env d =
     (case PluginManager_loadQueue fuel d of
        None \<Rightarrow> None
      | Some (pluginLoadQueue, d1) \<Rightarrow>
          (case initializePlugins_loop fuel env pluginLoadQueue True
                  (d1\<lparr>pluginWhichRequestedShutdown := []\<rparr>) of
             None \<Rightarrow> None
           | Some (Inl d2) \<Rightarrow> Some (False, d2)
           | Some (Inr (allInitialized, d2)) \<Rightarrow>
               Some (allInitialized, d2\<lparr>events := events d2 @ [PluginsInitialized]\<rparr>)))"
subsection \<open>Notions used in the statements about the manager\<close>

text \<open>How often the signal \<^verbatim>\<open>pluginsInitialized\<close> was emitted.\<close>

definition emissions :: "PluginManagerPrivate \<Rightarrow> nat" where
  "emissions d = count_list (events d) PluginsInitialized"

text \<open>
  A store the manager can work on without a failed assertion: a resolved and
  acyclic set in which every specification is at least resolved and a loaded
  one has its plugin.
\<close>

definition loadable :: "store \<Rightarrow> bool" where
  "loadable \<sigma> =
     (resolved_graph \<sigma>
      \<and> (\<forall>p < length \<sigma>. state_rank Resolved \<le> state_rank (state (\<sigma> ! p))
                         \<and> (state (\<sigma> ! p) = Loaded \<longrightarrow> plugin (\<sigma> ! p) \<noteq> None)))"

definition manager_inv :: "PluginManagerPrivate \<Rightarrow> bool" where
  "manager_inv d =
     (loadable (objects d)
      \<and> snd ` set (m_pluginToSpec d) \<subseteq> {..<length (objects d)}
      \<and> resolvedPluginsStack d = [])"

text \<open>The second store is the first but for the recorded errors.\<close>

definition errors_only :: "store \<Rightarrow> store \<Rightarrow> bool" where
  "errors_only \<sigma> \<sigma>' =
     (length \<sigma>' = length \<sigma>
      \<and> (\<forall>p < length \<sigma>. \<sigma>' ! p = (\<sigma> ! p)\<lparr>hasError := hasError (\<sigma>' ! p),
                                             errorString := errorString (\<sigma>' ! p)\<rparr>))"

text \<open>
  A manager with the one loaded plugin \<open>core\<close>, and an environment in which
  every plugin fails to initialize and requests the shutdown.
\<close>

definition loaded_core :: PluginSpecPrivate where
  "loaded_core =
     PluginSpecPrivate_new\<lparr>name := ''core'', version := ''1.0.2'', enabled := True,
                            filePath := ''/plugins'', fileName := ''core.spec'',
                            plugin := Some 7, state := Loaded\<rparr>"

definition example_manager :: PluginManagerPrivate where
  "example_manager =
     \<lparr>m_pluginToSpec = [(Some 7, 0)], m_disabledPlugins = [],
      pluginWhichRequestedShutdown = [], objects = [loaded_core],
      resolvedPluginsStack = [], events = []\<rparr>"

definition shutdown_environment :: environment where
  "shutdown_environment =
     example_environment\<lparr>plugin_initialize := (\<lambda>p. False),
                          plugin_isShutdownRequested := (\<lambda>p. True)\<rparr>"

definition failing_environment :: environment where
  "failing_environment = example_environment\<lparr>plugin_initialize := (\<lambda>p. False)\<rparr>"

text \<open>What a call of \<^verbatim>\<open>initializePlugins\<close> shows outside.\<close>

definition outcome ::
  "(bool \<times> PluginManagerPrivate) option \<Rightarrow> (bool \<times> event list \<times> string) option" where
  "outcome = map_option (\<lambda>(r, d). (r, events d, pluginWhichRequestedShutdown d))"

text \<open>
  The call came back from inside the loop: the last thing that happened is the
  failed initialization of a plugin that requests the shutdown.
\<close>

definition returned_for_shutdown :: "environment \<Rightarrow> PluginManagerPrivate \<Rightarrow> bool" where
  "returned_for_shutdown env d =
     (events d \<noteq> []
      \<and> (case last (events d) of
            PluginInitialize p \<Rightarrow> \<not> plugin_initialize env p \<and> plugin_isShutdownRequested env p
          | _ \<Rightarrow> False))"

text \<open>
  The manager as \<^verbatim>\<open>loadPlugins\<close> leaves it for two description files: \<open>A\<close> without
  dependencies, and \<open>B\<close> that depends on \<open>A\<close> and on a plugin that is not there.
  The store is resolved, the flags are propagated, and \<open>A\<close>, the only
  specification that got resolved, is loaded; \<open>B\<close> stays read, with its error.
\<close>

definition unresolved_store :: store where
  "unresolved_store =
     (case resolveDependencies_on_all [0, 1] [spec_A, spec_B [''A'', ''Missing'']] of
        None \<Rightarrow> []
      | Some \<sigma>1 \<Rightarrow>
          (case resolveIndirectlyDisabled_on_all 2 [0, 1] \<sigma>1 of
             None \<Rightarrow> []
           | Some \<sigma>2 \<Rightarrow>
               (case PluginSpec_loadPlugin example_environment 0 (\<sigma>2, []) of
                  Some (Some p, \<sigma>3, log) \<Rightarrow> \<sigma>3
                | _ \<Rightarrow> [])))"

definition unresolved_manager :: PluginManagerPrivate where
  "unresolved_manager =
     \<lparr>m_pluginToSpec = [(None, 1), (Some 7, 0)], m_disabledPlugins = [],
      pluginWhichRequestedShutdown = [], objects = unresolved_store,
      resolvedPluginsStack = [], events = []\<rparr>"

section \<open>Basic facts\<close>

lemma reportError_fields [simp]:
  "name (reportError e d) = name d"
  "dependencies (reportError e d) = dependencies d"
  "providesSpecs (reportError e d) = providesSpecs d"
  "dependencySpecs (reportError e d) = dependencySpecs d"
  "state (reportError e d) = state d"
  "plugin (reportError e d) = plugin d"
  "enabled (reportError e d) = enabled d"
  "persistent (reportError e d) = persistent d"
  "indirectlyDisabled (reportError e d) = indirectlyDisabled d"
  "initializationFailed (reportError e d) = initializationFailed d"
  "circularDependencyDetected (reportError e d) = circularDependencyDetected d"
  "hasError (reportError e d) = True"
  by (simp_all add: reportError_def)

section \<open>Properties of the configuration expressions\<close>

lemmas version_eval =
  defaultVersionCompareFunction_def exactMatch_version_def is_digit_def compare_from.simps
  toInt_def decimal_def digit_value_def INT_MAX_def

lemma compare_47_465: "defaultVersionCompareFunction ''4.7'' ''4.6.5'' = Some 1"
  by (simp add: version_eval)

lemma compare_47_48: "defaultVersionCompareFunction ''4.7'' ''4.8'' = Some (- 1)"
  by (simp add: version_eval)

text \<open>
  Claim C8. With no compare function registered for the resource, the provided
  configuration \<open>(Exists qt, qt == "4.7", Exists gui)\<close> satisfies
  \<open>qt >= "4.6.5" && qt < "4.8" && Exists gui\<close>, and it does not satisfy the
  requirement once its first version is changed to \<open>"4.8"\<close>.
\<close>

theorem satisfies_scenario:
  assumes "reg qt = None"
  shows "satisfies reg (providedConfiguration qt gui) (requiredConfiguration qt gui ''4.6.5'') = Some True
       \<and> satisfies reg (providedConfiguration qt gui) (requiredConfiguration qt gui ''4.8'') = Some False"
  using assms
  by (cases "qt = gui")
     (simp_all add: providedConfiguration_def requiredConfiguration_def and_then_def
        or_else_def satisfiesVersion_def registry_value_def compare_47_465 compare_47_48)

theorem satisfies_scenario_witness:
  "(Map.empty :: registry) 0 = None
   \<and> satisfies Map.empty (providedConfiguration 0 1) (requiredConfiguration 0 1 ''4.6.5'') = Some True
   \<and> satisfies Map.empty (providedConfiguration 0 1) (requiredConfiguration 0 1 ''4.8'') = Some False"
  using satisfies_scenario [of Map.empty 0 1] by simp

lemma compare_from_sign:
  "list_all good_component xs \<Longrightarrow> list_all good_component ys \<Longrightarrow>
   i \<le> min (length xs) (length ys) \<Longrightarrow>
   sign_of (compare_from xs ys (min (length xs) (length ys)) i) =
   compare_components (map decimal (drop i xs)) (map decimal (drop i ys))"
proof (induction "min (length xs) (length ys) - i" arbitrary: i)
  case 0
  then have i: "i = min (length xs) (length ys)" by simp
  show ?case
  proof (cases "length xs \<le> length ys")
    case True
    then have ix: "i = length xs" using i by simp
    show ?thesis
    proof (cases "length xs = length ys")
      case True
      then show ?thesis using ix by (simp add: compare_from.simps sign_of_def)
    next
      case False
      then have lt: "length xs < length ys" using True by simp
      then have "drop i ys \<noteq> []" using ix by simp
      then obtain y ys' where "drop i ys = y # ys'" by (cases "drop i ys") auto
      then show ?thesis using ix lt by (simp add: compare_from.simps sign_of_def)
    qed
  next
    case False
    then have iy: "i = length ys" and lt: "length ys < length xs" using i by simp_all
    then have "drop i xs \<noteq> []" by simp
    then obtain x xs' where "drop i xs = x # xs'" by (cases "drop i xs") auto
    then show ?thesis using iy lt by (simp add: compare_from.simps sign_of_def)
  qed
next
  case (Suc n)
  from Suc.hyps(2) have lt: "i < min (length xs) (length ys)" by arith
  then have ix: "i < length xs" and iy: "i < length ys" by simp_all
  have dx: "drop i xs = xs ! i # drop (Suc i) xs" using ix by (simp add: Cons_nth_drop_Suc)
  have dy: "drop i ys = ys ! i # drop (Suc i) ys" using iy by (simp add: Cons_nth_drop_Suc)
  have gx: "good_component (xs ! i)" using Suc.prems(1) ix by (simp add: list_all_length)
  have gy: "good_component (ys ! i)" using Suc.prems(2) iy by (simp add: list_all_length)
  have tx: "toInt (xs ! i) = int (decimal (xs ! i))"
    using gx by (simp add: good_component_def toInt_def)
  have ty: "toInt (ys ! i) = int (decimal (ys ! i))"
    using gy by (simp add: good_component_def toInt_def)
  have IH: "sign_of (compare_from xs ys (min (length xs) (length ys)) (Suc i)) =
      compare_components (map decimal (drop (Suc i) xs)) (map decimal (drop (Suc i) ys))"
    using Suc.hyps(1)[of "Suc i"] Suc.hyps(2) Suc.prems(1,2) lt by simp
  show ?case
    using lt IH
    by (subst compare_from.simps) (auto simp: dx dy tx ty sign_of_def Let_def)
qed

lemma good_components:
  "exactMatch_version v \<Longrightarrow> fits_int v \<Longrightarrow> list_all good_component (split_dot v)"
  by (auto simp: exactMatch_version_def fits_int_def components_def good_component_def
      list_all_iff)

text \<open>
  Claim C9, as the code has it. For a resource with no registered compare function
  and two versions of the form \<open>[0-9]+(\.[0-9]+)*\<close> whose components all fit a
  32-bit \<^verbatim>\<open>int\<close>, the compare function returns a number whose sign is the
  component-wise comparison of the specification (integers, left to right, the
  shorter series smaller on an equal shared prefix).
\<close>

theorem default_compare_componentwise:
  assumes "reg r = None"
    and "exactMatch_version v1" and "exactMatch_version v2"
    and "fits_int v1" and "fits_int v2"
  shows "\<exists>c. registry_value reg r v1 v2 = Some c \<and>
             sign_of c = compare_components (components v1) (components v2)"
  using assms compare_from_sign [OF good_components good_components, of v1 v2 0]
  by (simp add: registry_value_def defaultVersionCompareFunction_def components_def Let_def)

text \<open>
  The instance the specification names: \<open>compare("1.2.3", "1.2.10")\<close> is negative.
\<close>

theorem default_compare_componentwise_witness:
  "(Map.empty :: registry) 0 = None
   \<and> exactMatch_version ''1.2.3'' \<and> exactMatch_version ''1.2.10''
   \<and> fits_int ''1.2.3'' \<and> fits_int ''1.2.10''
   \<and> (\<exists>c. registry_value Map.empty 0 ''1.2.3'' ''1.2.10'' = Some c \<and> c < 0 \<and>
           sign_of c = compare_components (components ''1.2.3'') (components ''1.2.10''))"
proof -
  have a: "exactMatch_version ''1.2.3''" "exactMatch_version ''1.2.10''"
    "fits_int ''1.2.3''" "fits_int ''1.2.10''"
    by (simp_all add: version_eval fits_int_def components_def)
  have r: "(Map.empty :: registry) 0 = None" by simp
  have b: "registry_value Map.empty 0 ''1.2.3'' ''1.2.10'' = Some (- 7)"
    by (simp add: registry_value_def version_eval)
  from default_compare_componentwise [OF r a] obtain c where
    c: "registry_value Map.empty 0 ''1.2.3'' ''1.2.10'' = Some c"
       "sign_of c = compare_components (components ''1.2.3'') (components ''1.2.10'')"
    by blast
  from c(1) b have "c < 0" by simp
  with a c r show ?thesis by blast
qed

text \<open>
  The claim as it is written, for every pair of well-formed versions, fails where a
  component exceeds \<^verbatim>\<open>INT_MAX\<close>: \<^verbatim>\<open>toInt\<close> gives 0 for it, and \<open>2147483648\<close>
  compares as smaller than \<open>1\<close>.
\<close>

theorem default_compare_overflow_counterexample:
  "exactMatch_version ''2147483648'' \<and> exactMatch_version ''1''
   \<and> registry_value Map.empty 0 ''2147483648'' ''1'' = Some (- 1)
   \<and> compare_components (components ''2147483648'') (components ''1'') = Greater"
  by (simp add: registry_value_def version_eval components_def)

section \<open>Properties of the dependency graph\<close>


lemma indexOf_less: "x \<in> set xs \<Longrightarrow> indexOf xs x < length xs"
  by (induction xs) auto

lemma nth_indexOf: "x \<in> set xs \<Longrightarrow> xs ! indexOf xs x = x"
  by (induction xs) auto

lemma indexOf_append: "x \<in> set xs \<Longrightarrow> indexOf (xs @ ys) x = indexOf xs x"
  by (induction xs) auto

lemma indexOf_append_new: "x \<notin> set xs \<Longrightarrow> indexOf (xs @ [x]) x = length xs"
  by (induction xs) auto

lemma sort_loop_order:
  "sort_loop nodes edges rem cache = ([], out) \<Longrightarrow> distinct rem \<Longrightarrow>
   \<exists>order. out = cache @ map ((!) nodes) order \<and> distinct order \<and> set order = set rem
           \<and> no_forward_edge edges order"
proof (induction nodes edges rem cache rule: sort_loop.induct)
  case (1 nodes edges rem cache)
  show ?case
  proof (cases "find (independent edges rem) rem")
    case None
    with "1.prems"(1) have "rem = []" by (simp add: sort_loop.simps)
    with None "1.prems"(1) have "out = cache" by (simp add: sort_loop.simps)
    with \<open>rem = []\<close> show ?thesis by (intro exI[of _ "[]"]) simp
  next
    case (Some n)
    then have n: "n \<in> set rem" and ind: "independent edges rem n"
      by (auto simp: find_Some_iff)
    from Some "1.prems"(1)
    have rec: "sort_loop nodes edges (remove1 n rem) (cache @ [nodes ! n]) = ([], out)"
      by (simp add: sort_loop.simps)
    from "1.prems"(2) have d1: "distinct (remove1 n rem)" by simp
    from "1.IH" [OF Some rec d1] obtain order where
      o: "out = (cache @ [nodes ! n]) @ map ((!) nodes) order" "distinct order"
         "set order = set (remove1 n rem)" "no_forward_edge edges order"
      by blast
    from o(3) "1.prems"(2) have so: "set order = set rem - {n}" by simp
    have "out = cache @ map ((!) nodes) (n # order)" using o(1) by simp
    moreover have "distinct (n # order)" using o(2) so by simp
    moreover have "set (n # order) = set rem" using so n by auto
    moreover have "no_forward_edge edges (n # order)"
      using o(4) ind so n by (auto simp: independent_def list_ex_iff)
    ultimately show ?thesis by blast
  qed
qed

lemma no_forward_edge_precedes:
  "no_forward_edge edges order \<Longrightarrow> d \<in> set order \<Longrightarrow> r \<in> set order \<Longrightarrow>
   hasEdge edges d r \<Longrightarrow> precedes r d order"
proof (induction order)
  case Nil
  then show ?case by simp
next
  case (Cons n ns)
  show ?case
  proof (cases "n = r")
    case True
    with Cons.prems have "d \<noteq> n" by auto
    with Cons.prems(2) True show ?thesis by simp
  next
    case False
    with Cons.prems have "n \<noteq> d" by auto
    with False Cons show ?thesis by auto
  qed
qed

lemma precedes_map:
  "precedes a b xs \<Longrightarrow> inj_on f (insert a (insert b (set xs))) \<Longrightarrow> precedes (f a) (f b) (map f xs)"
proof (induction xs)
  case Nil
  then show ?case by simp
next
  case (Cons x xs)
  show ?case
  proof (cases "x = a")
    case True
    with Cons.prems show ?thesis by simp
  next
    case False
    then have "f x \<noteq> f a" using Cons.prems(2) by (auto simp: inj_on_def)
    moreover have "inj_on f (insert a (insert b (set xs)))"
      using Cons.prems(2) by (rule inj_on_subset) auto
    ultimately show ?thesis using Cons False by simp
  qed
qed

lemma sorted_edge_precedes:
  assumes sl: "sort_loop nodes edges rem [] = ([], out)"
    and dn: "distinct nodes" and dr: "distinct rem" and sr: "set rem = {0..<length nodes}"
    and d: "d \<in> set nodes" and r: "r \<in> set nodes"
    and e: "hasEdge edges (indexOf nodes d) (indexOf nodes r)"
  shows "precedes r d out \<and> distinct out"
proof -
  from sort_loop_order [OF sl dr] obtain order where
    o: "out = map ((!) nodes) order" "distinct order" "set order = set rem"
       "no_forward_edge edges order"
    by auto
  have di: "indexOf nodes d \<in> set order" and ri: "indexOf nodes r \<in> set order"
    using o(3) sr d r by (simp_all add: indexOf_less)
  have p: "precedes (indexOf nodes r) (indexOf nodes d) order"
    by (rule no_forward_edge_precedes [OF o(4) di ri e])
  have inj: "inj_on ((!) nodes) {0..<length nodes}"
    using dn by (auto simp: inj_on_def nth_eq_iff_index_eq)
  have "inj_on ((!) nodes) (insert (indexOf nodes r) (insert (indexOf nodes d) (set order)))"
    by (rule inj_on_subset [OF inj]) (use o(3) sr d r in \<open>auto simp: indexOf_less\<close>)
  from precedes_map [OF p this] have "precedes r d out"
    using o(1) d r by (simp add: nth_indexOf)
  moreover have "distinct out"
    unfolding o(1) using o(2,3) sr inj by (simp add: distinct_map)
  ultimately show ?thesis by simp
qed


lemma length_grow_edges: "length (grow_edges n E) = max n (length E)"
  by (auto simp: grow_edges_def)

lemma square_grow_edges:
  assumes "\<forall>row \<in> set E. length row = length E"
  shows "\<forall>row \<in> set (grow_edges n E). length row = length (grow_edges n E)"
  using assms by (auto simp: grow_edges_def resize_def)

lemma hasEdge_grow_edges:
  assumes sq: "\<forall>row \<in> set E. length row = length E" and e: "hasEdge E a b"
  shows "hasEdge (grow_edges n E) a b"
proof (cases "length E < n")
  case False
  with e show ?thesis by (simp add: grow_edges_def)
next
  case True
  from e have a: "a < length E" and b: "b < length E" and ab: "E ! a ! b"
    by (simp_all add: hasEdge_def)
  from sq a have la: "length (E ! a) = length E" by simp
  have "grow_edges n E ! a = resize n (E ! a)"
    using True a by (simp add: grow_edges_def nth_append)
  moreover have "resize n (E ! a) ! b = E ! a ! b"
    using True b la by (simp add: resize_def nth_append)
  ultimately show ?thesis
    using True a b ab by (simp add: hasEdge_def length_grow_edges)
qed

lemma hasEdge_set_bit:
  assumes sq: "\<forall>row \<in> set G. length row = length G" and e: "hasEdge G a b"
  shows "hasEdge (G[d := (G ! d)[r := True]]) a b"
proof -
  from e have a: "a < length G" and b: "b < length G" and ab: "G ! a ! b"
    by (simp_all add: hasEdge_def)
  from sq a have "length (G ! a) = length G" by simp
  then show ?thesis
    using a b ab by (cases "a = d"; cases "b = r") (simp_all add: hasEdge_def nth_list_update)
qed

lemma hasEdge_set_bit_new:
  assumes sq: "\<forall>row \<in> set G. length row = length G" and d: "d < length G" and r: "r < length G"
  shows "hasEdge (G[d := (G ! d)[r := True]]) d r"
proof -
  from sq d have "length (G ! d) = length G" by simp
  with d r show ?thesis by (simp add: hasEdge_def)
qed

lemma square_set_bit:
  assumes "\<forall>row \<in> set G. length row = length G"
  shows "\<forall>row \<in> set (G[d := (G ! d)[r := True]]). length row = length (G[d := (G ! d)[r := True]])"
proof (cases "d < length G")
  case False
  then show ?thesis using assms by (simp add: list_update_beyond)
next
  case True
  from assms have "\<forall>i < length G. length (G ! i) = length G" by simp
  then show ?thesis
    using True by (auto simp: in_set_conv_nth nth_list_update)
qed

lemma addNode_inv:
  "graph_inv nn g \<Longrightarrow> DependencyGraph_addNode x g = Some g' \<Longrightarrow> graph_inv nn g'"
  by (auto simp: graph_inv_def DependencyGraph_addNode_def split: if_splits)

lemma addNode_edge:
  "edge_recorded g d r \<Longrightarrow> DependencyGraph_addNode x g = Some g' \<Longrightarrow> edge_recorded g' d r"
  by (auto simp: edge_recorded_def DependencyGraph_addNode_def indexOf_append split: if_splits)

lemma addEdge_inv:
  "graph_inv nn g \<Longrightarrow> DependencyGraph_addEdge a b g = Some g' \<Longrightarrow> graph_inv nn g'"
  using square_set_bit [OF square_grow_edges]
  by (auto simp: graph_inv_def DependencyGraph_addEdge_def Let_def split: if_splits)

lemma addEdge_edge:
  assumes "graph_inv nn g" "edge_recorded g d r" "DependencyGraph_addEdge a b g = Some g'"
  shows "edge_recorded g' d r"
  using assms hasEdge_set_bit [OF square_grow_edges hasEdge_grow_edges]
  by (auto simp: graph_inv_def edge_recorded_def DependencyGraph_addEdge_def Let_def
      split: if_splits)

lemma addEdge_new_edge:
  assumes inv: "graph_inv nn g" and ae: "DependencyGraph_addEdge d r g = Some g'"
  shows "edge_recorded g' d r"
proof -
  let ?di = "indexOf (m_nodes g) d" and ?ri = "indexOf (m_nodes g) r"
  let ?G = "grow_edges (max ?di ?ri + 1) (m_edges g)"
  from ae have d: "d \<in> set (m_nodes g)" and r: "r \<in> set (m_nodes g)"
    and g': "g' = g\<lparr>m_edges := ?G[?di := (?G ! ?di)[?ri := True]], m_cacheIsValid := False\<rparr>"
    by (auto simp: DependencyGraph_addEdge_def Let_def split: if_splits)
  from inv have sq: "\<forall>row \<in> set ?G. length row = length ?G"
    by (intro square_grow_edges) (simp add: graph_inv_def)
  have "?di < length ?G" "?ri < length ?G" by (simp_all add: length_grow_edges)
  from hasEdge_set_bit_new [OF sq this] show ?thesis
    using d r g' by (simp add: edge_recorded_def)
qed

lemma sort_result:
  assumes "graph_inv nn g" "DependencyGraph_sort nn g = Some (out, g')"
  shows "sort_loop (m_nodes g) (m_edges g) (nn (m_nodes g)) [] = ([], out)"
    and "graph_inv nn g'" and "m_nodes g' = m_nodes g" and "m_edges g' = m_edges g"
  using assms
  by (auto simp: graph_inv_def DependencyGraph_sort_def split: if_splits prod.splits)

lemma sort_edge:
  "edge_recorded g d r \<Longrightarrow> DependencyGraph_sort nn g = Some (out, g') \<Longrightarrow> edge_recorded g' d r"
  by (auto simp: edge_recorded_def DependencyGraph_sort_def split: if_splits prod.splits)

lemma call_inv:
  "graph_inv nn g \<Longrightarrow> DependencyGraph_call nn c g = Some g' \<Longrightarrow> graph_inv nn g'"
  by (cases c) (auto intro: addNode_inv addEdge_inv sort_result(2))

lemma call_edge:
  "graph_inv nn g \<Longrightarrow> edge_recorded g d r \<Longrightarrow> DependencyGraph_call nn c g = Some g' \<Longrightarrow>
   edge_recorded g' d r"
  by (cases c) (auto intro: addNode_edge addEdge_edge sort_edge)

lemma calls_inv:
  "graph_inv nn g \<Longrightarrow> DependencyGraph_calls nn cs g = Some g' \<Longrightarrow> graph_inv nn g'"
  by (induction cs arbitrary: g) (auto split: option.splits dest: call_inv)

lemma calls_edge:
  "graph_inv nn g \<Longrightarrow> edge_recorded g d r \<Longrightarrow> DependencyGraph_calls nn cs g = Some g' \<Longrightarrow>
   edge_recorded g' d r"
  by (induction cs arbitrary: g) (auto split: option.splits dest: call_inv call_edge)

lemma calls_new_edge:
  "graph_inv nn g \<Longrightarrow> DependencyGraph_calls nn cs g = Some g' \<Longrightarrow> AddEdge d r \<in> set cs \<Longrightarrow>
   edge_recorded g' d r"
proof (induction cs arbitrary: g)
  case Nil
  then show ?case by simp
next
  case (Cons c cs)
  from Cons.prems(2) obtain g1 where
    c: "DependencyGraph_call nn c g = Some g1" and cs: "DependencyGraph_calls nn cs g1 = Some g'"
    by (auto split: option.splits)
  have inv1: "graph_inv nn g1" by (rule call_inv [OF Cons.prems(1) c])
  show ?case
  proof (cases "AddEdge d r \<in> set cs")
    case True
    then show ?thesis by (rule Cons.IH [OF inv1 cs])
  next
    case False
    with Cons.prems(3) have "c = AddEdge d r" by simp
    with c have "edge_recorded g1 d r" using addEdge_new_edge [OF Cons.prems(1)] by simp
    then show ?thesis by (rule calls_edge [OF inv1 _ cs])
  qed
qed

lemma graph_inv_new: "graph_inv nn DependencyGraph_new"
  by (simp add: graph_inv_def DependencyGraph_new_def)

lemma sorted_graph_edge_precedes:
  assumes nn: "numbering nn"
    and cs: "DependencyGraph_calls nn cs DependencyGraph_new = Some g"
    and so: "DependencyGraph_sort nn g = Some (out, g')"
    and e: "AddEdge d r \<in> set cs"
  shows "precedes r d out \<and> distinct out"
proof -
  have inv: "graph_inv nn g" by (rule calls_inv [OF graph_inv_new cs])
  have er: "edge_recorded g d r" by (rule calls_new_edge [OF graph_inv_new cs e])
  from inv have dn: "distinct (m_nodes g)" by (simp add: graph_inv_def)
  with nn have "distinct (nn (m_nodes g))" "set (nn (m_nodes g)) = {0..<length (m_nodes g)}"
    by (simp_all add: numbering_def)
  from er have "d \<in> set (m_nodes g)" "r \<in> set (m_nodes g)"
    "hasEdge (m_edges g) (indexOf (m_nodes g) d) (indexOf (m_nodes g) r)"
    by (simp_all add: edge_recorded_def)
  with sorted_edge_precedes [OF sort_result(1) [OF inv so] dn \<open>distinct (nn (m_nodes g))\<close>
      \<open>set (nn (m_nodes g)) = {0..<length (m_nodes g)}\<close>]
  show ?thesis by blast
qed

lemma numbering_unsorted: "numbering nodeNumbers_unsorted"
  by (simp add: numbering_def nodeNumbers_unsorted_def)

lemma qmap_insert_new:
  "k \<notin> fst ` set m \<Longrightarrow>
   length (qmap_insert k v m) = Suc (length m) \<and> set (qmap_insert k v m) = insert (k, v) (set m)"
proof (induction m)
  case Nil
  then show ?case by simp
next
  case (Cons p m)
  obtain k' v' where p: "p = (k', v')" by (cases p)
  from Cons.prems p have ne: "k \<noteq> k'" and "k \<notin> fst ` set m" by auto
  with Cons.IH have "length (qmap_insert k v m) = Suc (length m)"
    "set (qmap_insert k v m) = insert (k, v) (set m)" by simp_all
  with ne p show ?case by auto
qed

lemma qmap_fold:
  "distinct nodes \<Longrightarrow>
   length (foldl (\<lambda>m node. qmap_insert node (length m) m) [] nodes) = length nodes
   \<and> set (foldl (\<lambda>m node. qmap_insert node (length m) m) [] nodes)
       = set (zip nodes [0..<length nodes])"
proof (induction nodes rule: rev_induct)
  case Nil
  then show ?case by simp
next
  case (snoc x xs)
  let ?m = "foldl (\<lambda>m node. qmap_insert node (length m) m) [] xs"
  from snoc have IH: "length ?m = length xs" "set ?m = set (zip xs [0..<length xs])"
    by simp_all
  have "x \<notin> fst ` set ?m" using snoc.prems IH(2) by (auto dest: set_zip_leftD)
  from qmap_insert_new [OF this, of "length ?m"] IH
  show ?case by (simp add: zip_append1)
qed

lemma numbering_sortedByValue: "numbering nodeNumbers_sortedByValue"
proof (unfold numbering_def, intro allI impI)
  fix nodes :: "'a list"
  assume d: "distinct nodes"
  let ?m = "foldl (\<lambda>m node. qmap_insert node (length m) m) [] nodes"
  from qmap_fold [OF d] have l: "length ?m = length nodes"
    and s: "set ?m = set (zip nodes [0..<length nodes])" by simp_all
  have "snd ` set ?m = {0..<length nodes}"
    unfolding s by (metis length_upt map_snd_zip set_map set_upt minus_nat.diff_0)
  then have s2: "set (map snd ?m) = {0..<length nodes}" by simp
  have "card (set (map snd ?m)) = length (map snd ?m)" using s2 l by simp
  then have "distinct (map snd ?m)" by (rule card_distinct)
  with s2 show "distinct (nodeNumbers_sortedByValue nodes) \<and>
     set (nodeNumbers_sortedByValue nodes) = {0..<length nodes}"
    by (simp add: nodeNumbers_sortedByValue_def)
qed


lemma sort_loop_set:
  assumes "sort_loop nodes edges rem [] = ([], out)" "distinct rem" "set rem = {0..<length nodes}"
  shows "set out = set nodes"
proof -
  from sort_loop_order [OF assms(1,2)] obtain order where
    "out = map ((!) nodes) order" "set order = set rem" by auto
  with assms(3) have "set out = (!) nodes ` {0..<length nodes}" by simp
  then show ?thesis by (simp add: nth_image)
qed

lemma addNode_nodes:
  "DependencyGraph_addNode k g = Some g' \<Longrightarrow> m_nodes g' = m_nodes g @ [k]"
  by (auto simp: DependencyGraph_addNode_def split: if_splits)

lemma addEdge_nodes:
  "DependencyGraph_addEdge a b g = Some g' \<Longrightarrow> m_nodes g' = m_nodes g"
  by (auto simp: DependencyGraph_addEdge_def Let_def split: if_splits)

lemma wrapper_addNode:
  assumes ok: "wrapper_ok nodes key slave E" and x: "x \<notin> set nodes"
    and an: "DependencyGraph_addNode k slave = Some s"
    and k: "key' (length nodes) = k" and old: "\<forall>i<length nodes. key' i = key i"
  shows "wrapper_ok (nodes @ [x]) key' s E"
proof -
  from ok have dn: "distinct nodes" and inv: "graph_inv nodeNumbers_sortedByValue slave"
    and mn: "m_nodes slave = map key [0..<length nodes]"
    and ed: "\<forall>(d, r) \<in> E. d \<in> set nodes \<and> r \<in> set nodes
            \<and> edge_recorded slave (key (indexOf nodes d)) (key (indexOf nodes r))"
    by (simp_all add: wrapper_ok_def)
  have "map key' [0..<length nodes] = map key [0..<length nodes]" using old by simp
  then have "m_nodes s = map key' [0..<length (nodes @ [x])]"
    using addNode_nodes [OF an] mn k by simp
  moreover have "graph_inv nodeNumbers_sortedByValue s" by (rule addNode_inv [OF inv an])
  moreover have "\<forall>(d, r) \<in> E. d \<in> set (nodes @ [x]) \<and> r \<in> set (nodes @ [x])
            \<and> edge_recorded s (key' (indexOf (nodes @ [x]) d)) (key' (indexOf (nodes @ [x]) r))"
  proof (clarify)
    fix d r assume "(d, r) \<in> E"
    with ed have d: "d \<in> set nodes" and r: "r \<in> set nodes"
      and e: "edge_recorded slave (key (indexOf nodes d)) (key (indexOf nodes r))" by auto
    from d r old have "key' (indexOf nodes d) = key (indexOf nodes d)"
      "key' (indexOf nodes r) = key (indexOf nodes r)" by (simp_all add: indexOf_less)
    with addNode_edge [OF e an] d r
    show "d \<in> set (nodes @ [x]) \<and> r \<in> set (nodes @ [x])
            \<and> edge_recorded s (key' (indexOf (nodes @ [x]) d)) (key' (indexOf (nodes @ [x]) r))"
      by (simp add: indexOf_append)
  qed
  ultimately show ?thesis using dn x by (simp add: wrapper_ok_def)
qed

lemma wrapper_addEdge:
  assumes ok: "wrapper_ok nodes key slave E" and d: "d \<in> set nodes" and r: "r \<in> set nodes"
    and ae: "DependencyGraph_addEdge (key (indexOf nodes d)) (key (indexOf nodes r)) slave = Some s"
  shows "wrapper_ok nodes key s (insert (d, r) E)"
proof -
  from ok have inv: "graph_inv nodeNumbers_sortedByValue slave" by (simp add: wrapper_ok_def)
  show ?thesis
    using ok d r addEdge_inv [OF inv ae] addEdge_nodes [OF ae] addEdge_new_edge [OF inv ae]
      addEdge_edge [OF inv _ ae]
    by (auto simp: wrapper_ok_def)
qed

lemma wrapper_sort:
  assumes ok: "wrapper_ok nodes key slave E"
    and so: "DependencyGraph_sort nodeNumbers_sortedByValue slave = Some (outs, s)"
  shows "wrapper_ok nodes key s E"
proof -
  from ok have inv: "graph_inv nodeNumbers_sortedByValue slave" by (simp add: wrapper_ok_def)
  show ?thesis
    using ok sort_result(2,3) [OF inv so] sort_edge [OF _ so]
    by (auto simp: wrapper_ok_def)
qed

lemma wrapper_sorted:
  assumes ok: "wrapper_ok nodes key slave E" and e: "(d, r) \<in> E"
    and so: "DependencyGraph_sort nodeNumbers_sortedByValue slave = Some (outs, s)"
    and bk: "\<forall>i<length nodes. back (key i) = i"
  shows "precedes r d (map (\<lambda>k. nodes ! back k) outs) \<and> distinct (map (\<lambda>k. nodes ! back k) outs)"
proof -
  let ?f = "\<lambda>k. nodes ! back k"
  from ok e have dn: "distinct nodes" and inv: "graph_inv nodeNumbers_sortedByValue slave"
    and mn: "m_nodes slave = map key [0..<length nodes]"
    and d: "d \<in> set nodes" and r: "r \<in> set nodes"
    and er: "edge_recorded slave (key (indexOf nodes d)) (key (indexOf nodes r))"
    by (auto simp: wrapper_ok_def)
  from inv have ds: "distinct (m_nodes slave)" by (simp add: graph_inv_def)
  have nn: "distinct (nodeNumbers_sortedByValue (m_nodes slave))"
    "set (nodeNumbers_sortedByValue (m_nodes slave)) = {0..<length (m_nodes slave)}"
    using numbering_sortedByValue [unfolded numbering_def, rule_format, OF ds] by simp_all
  note sl = sort_result(1) [OF inv so]
  from er have "key (indexOf nodes d) \<in> set (m_nodes slave)"
    "key (indexOf nodes r) \<in> set (m_nodes slave)"
    "hasEdge (m_edges slave) (indexOf (m_nodes slave) (key (indexOf nodes d)))
       (indexOf (m_nodes slave) (key (indexOf nodes r)))"
    by (simp_all add: edge_recorded_def)
  from sorted_edge_precedes [OF sl ds nn this]
  have p: "precedes (key (indexOf nodes r)) (key (indexOf nodes d)) outs" and dout: "distinct outs"
    by simp_all
  have souts: "set outs = key ` {0..<length nodes}"
    using sort_loop_set [OF sl nn] mn by simp
  have inj: "inj_on ?f (key ` {0..<length nodes})"
    using bk dn by (auto simp: inj_on_def nth_eq_iff_index_eq)
  have "inj_on ?f (insert (key (indexOf nodes r)) (insert (key (indexOf nodes d)) (set outs)))"
    by (rule inj_on_subset [OF inj]) (use souts d r in \<open>auto simp: indexOf_less\<close>)
  from precedes_map [OF p this] have "precedes r d (map ?f outs)"
    using bk d r by (simp add: indexOf_less nth_indexOf)
  moreover have "distinct (map ?f outs)"
    using dout inj souts by (simp add: distinct_map)
  ultimately show ?thesis by simp
qed

lemma wrapper_ok_new: "wrapper_ok [] key DependencyGraph_new {}"
  by (simp add: wrapper_ok_def graph_inv_new) (simp add: DependencyGraph_new_def)

subsection \<open>FIFO\<close>

lemma Fifo_calls_ok:
  "wrapper_ok (fifo_nodes w) int (fifo_slave w) E \<Longrightarrow> FifoDependencyGraph_calls cs w = Some w' \<Longrightarrow>
   wrapper_ok (fifo_nodes w') int (fifo_slave w') (E \<union> edges_of cs)"
proof (induction cs arbitrary: w E)
  case Nil
  then show ?case by simp
next
  case (Cons c cs)
  show ?case
  proof (cases c)
    case (AddNode x)
    with Cons.prems(2) obtain s where x: "x \<notin> set (fifo_nodes w)"
      and an: "DependencyGraph_addNode (int (length (fifo_nodes w))) (fifo_slave w) = Some s"
      and rest: "FifoDependencyGraph_calls cs
                   (w\<lparr>fifo_slave := s, fifo_nodes := fifo_nodes w @ [x]\<rparr>) = Some w'"
      by (auto simp: FifoDependencyGraph_addNode_def split: option.splits if_splits)
    from wrapper_addNode [OF Cons.prems(1) x an]
    have "wrapper_ok (fifo_nodes (w\<lparr>fifo_slave := s, fifo_nodes := fifo_nodes w @ [x]\<rparr>)) int
            (fifo_slave (w\<lparr>fifo_slave := s, fifo_nodes := fifo_nodes w @ [x]\<rparr>)) E" by simp
    from Cons.IH [OF this rest] AddNode show ?thesis by simp
  next
    case (AddEdge d r)
    with Cons.prems(2) obtain s where d: "d \<in> set (fifo_nodes w)" and r: "r \<in> set (fifo_nodes w)"
      and ae: "DependencyGraph_addEdge (int (indexOf (fifo_nodes w) d))
                 (int (indexOf (fifo_nodes w) r)) (fifo_slave w) = Some s"
      and rest: "FifoDependencyGraph_calls cs (w\<lparr>fifo_slave := s\<rparr>) = Some w'"
      by (auto simp: FifoDependencyGraph_addEdge_def split: option.splits if_splits)
    from wrapper_addEdge [OF Cons.prems(1) d r ae]
    have "wrapper_ok (fifo_nodes (w\<lparr>fifo_slave := s\<rparr>)) int (fifo_slave (w\<lparr>fifo_slave := s\<rparr>))
            (insert (d, r) E)" by simp
    from Cons.IH [OF this rest] AddEdge show ?thesis by simp
  next
    case Sort
    with Cons.prems(2) obtain outs s where
      so: "DependencyGraph_sort nodeNumbers_sortedByValue (fifo_slave w) = Some (outs, s)"
      and rest: "FifoDependencyGraph_calls cs (w\<lparr>fifo_slave := s\<rparr>) = Some w'"
      by (auto simp: FifoDependencyGraph_sort_def split: option.splits)
    from wrapper_sort [OF Cons.prems(1) so]
    have "wrapper_ok (fifo_nodes (w\<lparr>fifo_slave := s\<rparr>)) int (fifo_slave (w\<lparr>fifo_slave := s\<rparr>)) E"
      by simp
    from Cons.IH [OF this rest] Sort show ?thesis by simp
  qed
qed

lemma edges_of_iff: "(d, r) \<in> edges_of cs \<longleftrightarrow> AddEdge d r \<in> set cs"
  by (induction cs rule: edges_of.induct) auto

lemma striped_edges_of_iff: "(d, r) \<in> striped_edges_of cs \<longleftrightarrow> StripedAddEdge d r \<in> set cs"
  by (induction cs rule: striped_edges_of.induct) auto

lemma Fifo_sorted:
  assumes cs: "FifoDependencyGraph_calls cs FifoDependencyGraph_new = Some w"
    and so: "FifoDependencyGraph_sort w = Some (out, w')"
    and e: "AddEdge d r \<in> set cs"
  shows "precedes r d out \<and> distinct out"
proof -
  have "wrapper_ok (fifo_nodes w) int (fifo_slave w) ({} \<union> edges_of cs)"
    by (rule Fifo_calls_ok [OF _ cs]) (simp add: FifoDependencyGraph_new_def wrapper_ok_new)
  then have ok: "wrapper_ok (fifo_nodes w) int (fifo_slave w) (edges_of cs)" by simp
  from so obtain outs s where
    s: "DependencyGraph_sort nodeNumbers_sortedByValue (fifo_slave w) = Some (outs, s)"
    and out: "out = map (\<lambda>i. fifo_nodes w ! nat i) outs"
    by (auto simp: FifoDependencyGraph_sort_def split: option.splits)
  from e have "(d, r) \<in> edges_of cs" by (simp add: edges_of_iff)
  from wrapper_sorted [OF ok this s, of nat] out show ?thesis by simp
qed


subsection \<open>LIFO\<close>

lemma Lifo_calls_ok:
  "wrapper_ok (lifo_nodes w) (\<lambda>i. - int i) (lifo_slave w) E \<Longrightarrow> LifoDependencyGraph_calls cs w = Some w' \<Longrightarrow>
   wrapper_ok (lifo_nodes w') (\<lambda>i. - int i) (lifo_slave w') (E \<union> edges_of cs)"
proof (induction cs arbitrary: w E)
  case Nil
  then show ?case by simp
next
  case (Cons c cs)
  show ?case
  proof (cases c)
    case (AddNode x)
    with Cons.prems(2) obtain s where x: "x \<notin> set (lifo_nodes w)"
      and an: "DependencyGraph_addNode (- int (length (lifo_nodes w))) (lifo_slave w) = Some s"
      and rest: "LifoDependencyGraph_calls cs
                   (w\<lparr>lifo_slave := s, lifo_nodes := lifo_nodes w @ [x]\<rparr>) = Some w'"
      by (auto simp: LifoDependencyGraph_addNode_def split: option.splits if_splits)
    from wrapper_addNode [OF Cons.prems(1) x an]
    have "wrapper_ok (lifo_nodes (w\<lparr>lifo_slave := s, lifo_nodes := lifo_nodes w @ [x]\<rparr>)) (\<lambda>i. - int i)
            (lifo_slave (w\<lparr>lifo_slave := s, lifo_nodes := lifo_nodes w @ [x]\<rparr>)) E" by simp
    from Cons.IH [OF this rest] AddNode show ?thesis by simp
  next
    case (AddEdge d r)
    with Cons.prems(2) obtain s where d: "d \<in> set (lifo_nodes w)" and r: "r \<in> set (lifo_nodes w)"
      and ae: "DependencyGraph_addEdge (- int (indexOf (lifo_nodes w) d))
                 (- int (indexOf (lifo_nodes w) r)) (lifo_slave w) = Some s"
      and rest: "LifoDependencyGraph_calls cs (w\<lparr>lifo_slave := s\<rparr>) = Some w'"
      by (auto simp: LifoDependencyGraph_addEdge_def split: option.splits if_splits)
    from wrapper_addEdge [OF Cons.prems(1) d r ae]
    have "wrapper_ok (lifo_nodes (w\<lparr>lifo_slave := s\<rparr>)) (\<lambda>i. - int i) (lifo_slave (w\<lparr>lifo_slave := s\<rparr>))
            (insert (d, r) E)" by simp
    from Cons.IH [OF this rest] AddEdge show ?thesis by simp
  next
    case Sort
    with Cons.prems(2) obtain outs s where
      so: "DependencyGraph_sort nodeNumbers_sortedByValue (lifo_slave w) = Some (outs, s)"
      and rest: "LifoDependencyGraph_calls cs (w\<lparr>lifo_slave := s\<rparr>) = Some w'"
      by (auto simp: LifoDependencyGraph_sort_def split: option.splits)
    from wrapper_sort [OF Cons.prems(1) so]
    have "wrapper_ok (lifo_nodes (w\<lparr>lifo_slave := s\<rparr>)) (\<lambda>i. - int i) (lifo_slave (w\<lparr>lifo_slave := s\<rparr>)) E"
      by simp
    from Cons.IH [OF this rest] Sort show ?thesis by simp
  qed
qed

lemma Lifo_sorted:
  assumes cs: "LifoDependencyGraph_calls cs LifoDependencyGraph_new = Some w"
    and so: "LifoDependencyGraph_sort w = Some (out, w')"
    and e: "AddEdge d r \<in> set cs"
  shows "precedes r d out \<and> distinct out"
proof -
  have "wrapper_ok (lifo_nodes w) (\<lambda>i. - int i) (lifo_slave w) ({} \<union> edges_of cs)"
    by (rule Lifo_calls_ok [OF _ cs]) (simp add: LifoDependencyGraph_new_def wrapper_ok_new)
  then have ok: "wrapper_ok (lifo_nodes w) (\<lambda>i. - int i) (lifo_slave w) (edges_of cs)" by simp
  from so obtain outs s where
    s: "DependencyGraph_sort nodeNumbers_sortedByValue (lifo_slave w) = Some (outs, s)"
    and out: "out = map (\<lambda>i. lifo_nodes w ! nat (- i)) outs"
    by (auto simp: LifoDependencyGraph_sort_def split: option.splits)
  from e have "(d, r) \<in> edges_of cs" by (simp add: edges_of_iff)
  from wrapper_sorted [OF ok this s, of "\<lambda>k. nat (- k)"] out show ?thesis by simp
qed


subsection \<open>Striped FIFO\<close>

lemma StripedFifo_calls_ok:
  "wrapper_ok (sfifo_nodes w) (\<lambda>i. (sfifo_stripes w ! i, int i)) (sfifo_slave w) E \<Longrightarrow>
   length (sfifo_stripes w) = length (sfifo_nodes w) \<Longrightarrow>
   StripedFifoDependencyGraph_calls cs w = Some w' \<Longrightarrow>
   wrapper_ok (sfifo_nodes w') (\<lambda>i. (sfifo_stripes w' ! i, int i)) (sfifo_slave w')
     (E \<union> striped_edges_of cs)
   \<and> length (sfifo_stripes w') = length (sfifo_nodes w')"
proof (induction cs arbitrary: w E)
  case Nil
  then show ?case by simp
next
  case (Cons c cs)
  show ?case
  proof (cases c)
    case (StripedAddNode x stripe)
    let ?w1 = "\<lambda>s. w\<lparr>sfifo_slave := s, sfifo_nodes := sfifo_nodes w @ [x],
                  sfifo_stripes := sfifo_stripes w @ [stripe]\<rparr>"
    from StripedAddNode Cons.prems(3) obtain s where x: "x \<notin> set (sfifo_nodes w)"
      and an: "DependencyGraph_addNode (stripe, int (length (sfifo_nodes w))) (sfifo_slave w) = Some s"
      and rest: "StripedFifoDependencyGraph_calls cs (?w1 s) = Some w'"
      by (auto simp: StripedFifoDependencyGraph_addNode_def split: option.splits if_splits)
    have "wrapper_ok (sfifo_nodes w @ [x]) (\<lambda>i. ((sfifo_stripes w @ [stripe]) ! i, int i)) s E"
      by (rule wrapper_addNode [OF Cons.prems(1) x an])
         (simp_all add: Cons.prems(2) nth_append)
    then have "wrapper_ok (sfifo_nodes (?w1 s)) (\<lambda>i. (sfifo_stripes (?w1 s) ! i, int i))
                 (sfifo_slave (?w1 s)) E" by simp
    from Cons.IH [OF this _ rest] Cons.prems(2) StripedAddNode show ?thesis by simp
  next
    case (StripedAddEdge d r)
    let ?w1 = "\<lambda>s. w\<lparr>sfifo_slave := s\<rparr>"
    from StripedAddEdge Cons.prems(3) obtain s
      where d: "d \<in> set (sfifo_nodes w)" and r: "r \<in> set (sfifo_nodes w)"
      and ae: "DependencyGraph_addEdge
                 (sfifo_stripes w ! indexOf (sfifo_nodes w) d, int (indexOf (sfifo_nodes w) d))
                 (sfifo_stripes w ! indexOf (sfifo_nodes w) r, int (indexOf (sfifo_nodes w) r))
                 (sfifo_slave w) = Some s"
      and rest: "StripedFifoDependencyGraph_calls cs (?w1 s) = Some w'"
      by (auto simp: StripedFifoDependencyGraph_addEdge_def Let_def split: option.splits if_splits)
    from wrapper_addEdge [OF Cons.prems(1) d r ae]
    have "wrapper_ok (sfifo_nodes (?w1 s)) (\<lambda>i. (sfifo_stripes (?w1 s) ! i, int i))
            (sfifo_slave (?w1 s)) (insert (d, r) E)" by simp
    from Cons.IH [OF this _ rest] Cons.prems(2) StripedAddEdge show ?thesis by simp
  next
    case StripedSort
    let ?w1 = "\<lambda>s. w\<lparr>sfifo_slave := s\<rparr>"
    from StripedSort Cons.prems(3) obtain outs s where
      so: "DependencyGraph_sort nodeNumbers_sortedByValue (sfifo_slave w) = Some (outs, s)"
      and rest: "StripedFifoDependencyGraph_calls cs (?w1 s) = Some w'"
      by (auto simp: StripedFifoDependencyGraph_sort_def split: option.splits)
    from wrapper_sort [OF Cons.prems(1) so]
    have "wrapper_ok (sfifo_nodes (?w1 s)) (\<lambda>i. (sfifo_stripes (?w1 s) ! i, int i))
            (sfifo_slave (?w1 s)) E" by simp
    from Cons.IH [OF this _ rest] Cons.prems(2) StripedSort show ?thesis by simp
  qed
qed

lemma StripedFifo_sorted:
  assumes cs: "StripedFifoDependencyGraph_calls cs StripedFifoDependencyGraph_new = Some w"
    and so: "StripedFifoDependencyGraph_sort w = Some (out, w')"
    and e: "StripedAddEdge d r \<in> set cs"
  shows "precedes r d out \<and> distinct out"
proof -
  have "wrapper_ok (sfifo_nodes w) (\<lambda>i. (sfifo_stripes w ! i, int i)) (sfifo_slave w)
          ({} \<union> striped_edges_of cs) \<and> length (sfifo_stripes w) = length (sfifo_nodes w)"
    by (rule StripedFifo_calls_ok [OF _ _ cs])
       (simp_all add: StripedFifoDependencyGraph_new_def wrapper_ok_new)
  then have ok: "wrapper_ok (sfifo_nodes w) (\<lambda>i. (sfifo_stripes w ! i, int i)) (sfifo_slave w)
                   (striped_edges_of cs)" by simp
  from so obtain outs s where
    s: "DependencyGraph_sort nodeNumbers_sortedByValue (sfifo_slave w) = Some (outs, s)"
    and out: "out = map (\<lambda>i. sfifo_nodes w ! nat (snd i)) outs"
    by (auto simp: StripedFifoDependencyGraph_sort_def split: option.splits)
  from e have "(d, r) \<in> striped_edges_of cs" by (simp add: striped_edges_of_iff)
  from wrapper_sorted [OF ok this s, of "\<lambda>k. nat (snd k)"] out show ?thesis by simp
qed

subsection \<open>Striped LIFO\<close>

lemma StripedLifo_calls_ok:
  "wrapper_ok (slifo_nodes w) (\<lambda>i. (slifo_stripes w ! i, - int i)) (slifo_slave w) E \<Longrightarrow>
   length (slifo_stripes w) = length (slifo_nodes w) \<Longrightarrow>
   StripedLifoDependencyGraph_calls cs w = Some w' \<Longrightarrow>
   wrapper_ok (slifo_nodes w') (\<lambda>i. (slifo_stripes w' ! i, - int i)) (slifo_slave w')
     (E \<union> striped_edges_of cs)
   \<and> length (slifo_stripes w') = length (slifo_nodes w')"
proof (induction cs arbitrary: w E)
  case Nil
  then show ?case by simp
next
  case (Cons c cs)
  show ?case
  proof (cases c)
    case (StripedAddNode x stripe)
    let ?w1 = "\<lambda>s. w\<lparr>slifo_slave := s, slifo_nodes := slifo_nodes w @ [x],
                  slifo_stripes := slifo_stripes w @ [stripe]\<rparr>"
    from StripedAddNode Cons.prems(3) obtain s where x: "x \<notin> set (slifo_nodes w)"
      and an: "DependencyGraph_addNode (stripe, - int (length (slifo_nodes w))) (slifo_slave w) = Some s"
      and rest: "StripedLifoDependencyGraph_calls cs (?w1 s) = Some w'"
      by (auto simp: StripedLifoDependencyGraph_addNode_def split: option.splits if_splits)
    have "wrapper_ok (slifo_nodes w @ [x]) (\<lambda>i. ((slifo_stripes w @ [stripe]) ! i, - int i)) s E"
      by (rule wrapper_addNode [OF Cons.prems(1) x an])
         (simp_all add: Cons.prems(2) nth_append)
    then have "wrapper_ok (slifo_nodes (?w1 s)) (\<lambda>i. (slifo_stripes (?w1 s) ! i, - int i))
                 (slifo_slave (?w1 s)) E" by simp
    from Cons.IH [OF this _ rest] Cons.prems(2) StripedAddNode show ?thesis by simp
  next
    case (StripedAddEdge d r)
    let ?w1 = "\<lambda>s. w\<lparr>slifo_slave := s\<rparr>"
    from StripedAddEdge Cons.prems(3) obtain s
      where d: "d \<in> set (slifo_nodes w)" and r: "r \<in> set (slifo_nodes w)"
      and ae: "DependencyGraph_addEdge
                 (slifo_stripes w ! indexOf (slifo_nodes w) d, - int (indexOf (slifo_nodes w) d))
                 (slifo_stripes w ! indexOf (slifo_nodes w) r, - int (indexOf (slifo_nodes w) r))
                 (slifo_slave w) = Some s"
      and rest: "StripedLifoDependencyGraph_calls cs (?w1 s) = Some w'"
      by (auto simp: StripedLifoDependencyGraph_addEdge_def Let_def split: option.splits if_splits)
    from wrapper_addEdge [OF Cons.prems(1) d r ae]
    have "wrapper_ok (slifo_nodes (?w1 s)) (\<lambda>i. (slifo_stripes (?w1 s) ! i, - int i))
            (slifo_slave (?w1 s)) (insert (d, r) E)" by simp
    from Cons.IH [OF this _ rest] Cons.prems(2) StripedAddEdge show ?thesis by simp
  next
    case StripedSort
    let ?w1 = "\<lambda>s. w\<lparr>slifo_slave := s\<rparr>"
    from StripedSort Cons.prems(3) obtain outs s where
      so: "DependencyGraph_sort nodeNumbers_sortedByValue (slifo_slave w) = Some (outs, s)"
      and rest: "StripedLifoDependencyGraph_calls cs (?w1 s) = Some w'"
      by (auto simp: StripedLifoDependencyGraph_sort_def split: option.splits)
    from wrapper_sort [OF Cons.prems(1) so]
    have "wrapper_ok (slifo_nodes (?w1 s)) (\<lambda>i. (slifo_stripes (?w1 s) ! i, - int i))
            (slifo_slave (?w1 s)) E" by simp
    from Cons.IH [OF this _ rest] Cons.prems(2) StripedSort show ?thesis by simp
  qed
qed

lemma StripedLifo_sorted:
  assumes cs: "StripedLifoDependencyGraph_calls cs StripedLifoDependencyGraph_new = Some w"
    and so: "StripedLifoDependencyGraph_sort w = Some (out, w')"
    and e: "StripedAddEdge d r \<in> set cs"
  shows "precedes r d out \<and> distinct out"
proof -
  have "wrapper_ok (slifo_nodes w) (\<lambda>i. (slifo_stripes w ! i, - int i)) (slifo_slave w)
          ({} \<union> striped_edges_of cs) \<and> length (slifo_stripes w) = length (slifo_nodes w)"
    by (rule StripedLifo_calls_ok [OF _ _ cs])
       (simp_all add: StripedLifoDependencyGraph_new_def wrapper_ok_new)
  then have ok: "wrapper_ok (slifo_nodes w) (\<lambda>i. (slifo_stripes w ! i, - int i)) (slifo_slave w)
                   (striped_edges_of cs)" by simp
  from so obtain outs s where
    s: "DependencyGraph_sort nodeNumbers_sortedByValue (slifo_slave w) = Some (outs, s)"
    and out: "out = map (\<lambda>i. slifo_nodes w ! nat (- snd i)) outs"
    by (auto simp: StripedLifoDependencyGraph_sort_def split: option.splits)
  from e have "(d, r) \<in> striped_edges_of cs" by (simp add: striped_edges_of_iff)
  from wrapper_sorted [OF ok this s, of "\<lambda>k. nat (- snd k)"] out show ?thesis by simp
qed


text \<open>
  Claim C1. For a graph made by any series of calls of the public interface, if
  \<open>sort\<close> completes (the result is \<open>Some\<close>), then for every call
  \<open>addEdge(d, r)\<close> of the series the required node \<open>r\<close> is strictly before the
  dependent node \<open>d\<close> in the returned list, which has no repetition. This holds
  for the natural order, the order by value, and the FIFO, LIFO, striped FIFO and
  striped LIFO graphs.
\<close>

theorem sort_required_before_dependent:
  "(\<forall>cs g out g' d r.
      DependencyGraph_calls nodeNumbers_unsorted cs (DependencyGraph_new :: 'a DependencyGraph) = Some g
      \<longrightarrow> DependencyGraph_sort nodeNumbers_unsorted g = Some (out, g')
      \<longrightarrow> AddEdge d r \<in> set cs \<longrightarrow> precedes r d out \<and> distinct out)
   \<and> (\<forall>cs g out g' d r.
      DependencyGraph_calls nodeNumbers_sortedByValue cs (DependencyGraph_new :: 'b::linorder DependencyGraph) = Some g
      \<longrightarrow> DependencyGraph_sort nodeNumbers_sortedByValue g = Some (out, g')
      \<longrightarrow> AddEdge d r \<in> set cs \<longrightarrow> precedes r d out \<and> distinct out)
   \<and> (\<forall>cs w out w' d r.
      FifoDependencyGraph_calls cs (FifoDependencyGraph_new :: 'c FifoDependencyGraph) = Some w
      \<longrightarrow> FifoDependencyGraph_sort w = Some (out, w')
      \<longrightarrow> AddEdge d r \<in> set cs \<longrightarrow> precedes r d out \<and> distinct out)
   \<and> (\<forall>cs w out w' d r.
      LifoDependencyGraph_calls cs (LifoDependencyGraph_new :: 'd LifoDependencyGraph) = Some w
      \<longrightarrow> LifoDependencyGraph_sort w = Some (out, w')
      \<longrightarrow> AddEdge d r \<in> set cs \<longrightarrow> precedes r d out \<and> distinct out)
   \<and> (\<forall>cs w out w' d r.
      StripedFifoDependencyGraph_calls cs (StripedFifoDependencyGraph_new :: 'e StripedFifoDependencyGraph) = Some w
      \<longrightarrow> StripedFifoDependencyGraph_sort w = Some (out, w')
      \<longrightarrow> StripedAddEdge d r \<in> set cs \<longrightarrow> precedes r d out \<and> distinct out)
   \<and> (\<forall>cs w out w' d r.
      StripedLifoDependencyGraph_calls cs (StripedLifoDependencyGraph_new :: 'f StripedLifoDependencyGraph) = Some w
      \<longrightarrow> StripedLifoDependencyGraph_sort w = Some (out, w')
      \<longrightarrow> StripedAddEdge d r \<in> set cs \<longrightarrow> precedes r d out \<and> distinct out)"
proof (intro conjI)
  show "\<forall>cs g out g' d r.
      DependencyGraph_calls nodeNumbers_unsorted cs (DependencyGraph_new :: 'a DependencyGraph) = Some g
      \<longrightarrow> DependencyGraph_sort nodeNumbers_unsorted g = Some (out, g')
      \<longrightarrow> AddEdge d r \<in> set cs \<longrightarrow> precedes r d out \<and> distinct out"
    by (intro allI impI) (rule sorted_graph_edge_precedes [OF numbering_unsorted])
  show "\<forall>cs g out g' d r.
      DependencyGraph_calls nodeNumbers_sortedByValue cs (DependencyGraph_new :: 'b DependencyGraph) = Some g
      \<longrightarrow> DependencyGraph_sort nodeNumbers_sortedByValue g = Some (out, g')
      \<longrightarrow> AddEdge d r \<in> set cs \<longrightarrow> precedes r d out \<and> distinct out"
    by (intro allI impI) (rule sorted_graph_edge_precedes [OF numbering_sortedByValue])
  show "\<forall>cs w out w' d r.
      FifoDependencyGraph_calls cs (FifoDependencyGraph_new :: 'c FifoDependencyGraph) = Some w
      \<longrightarrow> FifoDependencyGraph_sort w = Some (out, w')
      \<longrightarrow> AddEdge d r \<in> set cs \<longrightarrow> precedes r d out \<and> distinct out"
    by (intro allI impI) (rule Fifo_sorted)
  show "\<forall>cs w out w' d r.
      LifoDependencyGraph_calls cs (LifoDependencyGraph_new :: 'd LifoDependencyGraph) = Some w
      \<longrightarrow> LifoDependencyGraph_sort w = Some (out, w')
      \<longrightarrow> AddEdge d r \<in> set cs \<longrightarrow> precedes r d out \<and> distinct out"
    by (intro allI impI) (rule Lifo_sorted)
  show "\<forall>cs w out w' d r.
      StripedFifoDependencyGraph_calls cs (StripedFifoDependencyGraph_new :: 'e StripedFifoDependencyGraph) = Some w
      \<longrightarrow> StripedFifoDependencyGraph_sort w = Some (out, w')
      \<longrightarrow> StripedAddEdge d r \<in> set cs \<longrightarrow> precedes r d out \<and> distinct out"
    by (intro allI impI) (rule StripedFifo_sorted)
  show "\<forall>cs w out w' d r.
      StripedLifoDependencyGraph_calls cs (StripedLifoDependencyGraph_new :: 'f StripedLifoDependencyGraph) = Some w
      \<longrightarrow> StripedLifoDependencyGraph_sort w = Some (out, w')
      \<longrightarrow> StripedAddEdge d r \<in> set cs \<longrightarrow> precedes r d out \<and> distinct out"
    by (intro allI impI) (rule StripedLifo_sorted)
qed

lemmas graph_eval =
  DependencyGraph_new_def DependencyGraph_addNode_def DependencyGraph_addEdge_def
  DependencyGraph_sort_def grow_edges_def resize_def hasEdge_def independent_def
  nodeNumbers_unsorted_def nodeNumbers_sortedByValue_def sort_loop.simps Let_def

lemma example_unsorted: "\<exists>g g'. DependencyGraph_calls nodeNumbers_unsorted example_calls DependencyGraph_new = Some g
   \<and> DependencyGraph_sort nodeNumbers_unsorted g = Some ([10, 20, 30], g')"
  by (simp add: graph_eval)

lemma example_sortedByValue: "\<exists>g g'. DependencyGraph_calls nodeNumbers_sortedByValue example_calls DependencyGraph_new = Some g
   \<and> DependencyGraph_sort nodeNumbers_sortedByValue g = Some ([10, 20, 30], g')"
  by (simp add: graph_eval)

lemmas wrapper_eval =
  FifoDependencyGraph_new_def FifoDependencyGraph_addNode_def FifoDependencyGraph_addEdge_def
  FifoDependencyGraph_sort_def
  LifoDependencyGraph_new_def LifoDependencyGraph_addNode_def LifoDependencyGraph_addEdge_def
  LifoDependencyGraph_sort_def
  StripedFifoDependencyGraph_new_def StripedFifoDependencyGraph_addNode_def
  StripedFifoDependencyGraph_addEdge_def StripedFifoDependencyGraph_sort_def
  StripedLifoDependencyGraph_new_def StripedLifoDependencyGraph_addNode_def
  StripedLifoDependencyGraph_addEdge_def StripedLifoDependencyGraph_sort_def

lemma example_fifo: "\<exists>g g'. FifoDependencyGraph_calls example_calls FifoDependencyGraph_new = Some g
   \<and> FifoDependencyGraph_sort g = Some ([10, 20, 30], g')"
  by (simp add: graph_eval wrapper_eval)

lemma example_lifo: "\<exists>g g'. LifoDependencyGraph_calls example_calls LifoDependencyGraph_new = Some g
   \<and> LifoDependencyGraph_sort g = Some ([10, 20, 30], g')"
  by (simp add: graph_eval wrapper_eval)

lemma example_striped_fifo: "\<exists>g g'. StripedFifoDependencyGraph_calls example_striped_calls StripedFifoDependencyGraph_new = Some g
   \<and> StripedFifoDependencyGraph_sort g = Some ([10, 20, 30], g')"
  by (simp add: graph_eval wrapper_eval)

lemma example_striped_lifo: "\<exists>g g'. StripedLifoDependencyGraph_calls example_striped_calls StripedLifoDependencyGraph_new = Some g
   \<and> StripedLifoDependencyGraph_sort g = Some ([10, 20, 30], g')"
  by (simp add: graph_eval wrapper_eval)


theorem sort_required_before_dependent_witness:
  "(\<exists>g g' out. DependencyGraph_calls nodeNumbers_unsorted example_calls DependencyGraph_new = Some g
      \<and> DependencyGraph_sort nodeNumbers_unsorted g = Some (out, g')
      \<and> AddEdge 30 20 \<in> set example_calls \<and> precedes 20 30 out \<and> distinct out)
   \<and> (\<exists>g g' out. DependencyGraph_calls nodeNumbers_sortedByValue example_calls DependencyGraph_new = Some g
      \<and> DependencyGraph_sort nodeNumbers_sortedByValue g = Some (out, g')
      \<and> AddEdge 30 20 \<in> set example_calls \<and> precedes 20 30 out \<and> distinct out)
   \<and> (\<exists>w w' out. FifoDependencyGraph_calls example_calls FifoDependencyGraph_new = Some w
      \<and> FifoDependencyGraph_sort w = Some (out, w')
      \<and> AddEdge 30 20 \<in> set example_calls \<and> precedes 20 30 out \<and> distinct out)
   \<and> (\<exists>w w' out. LifoDependencyGraph_calls example_calls LifoDependencyGraph_new = Some w
      \<and> LifoDependencyGraph_sort w = Some (out, w')
      \<and> AddEdge 30 20 \<in> set example_calls \<and> precedes 20 30 out \<and> distinct out)
   \<and> (\<exists>w w' out. StripedFifoDependencyGraph_calls example_striped_calls StripedFifoDependencyGraph_new = Some w
      \<and> StripedFifoDependencyGraph_sort w = Some (out, w')
      \<and> StripedAddEdge 30 20 \<in> set example_striped_calls \<and> precedes 20 30 out \<and> distinct out)
   \<and> (\<exists>w w' out. StripedLifoDependencyGraph_calls example_striped_calls StripedLifoDependencyGraph_new = Some w
      \<and> StripedLifoDependencyGraph_sort w = Some (out, w')
      \<and> StripedAddEdge 30 20 \<in> set example_striped_calls \<and> precedes 20 30 out \<and> distinct out)"
proof -
  note T = sort_required_before_dependent
    [where ?'a = nat and ?'b = nat and ?'c = nat and ?'d = nat and ?'e = nat and ?'f = nat]
  note T1 = T [THEN conjunct1, rule_format]
  note T2 = T [THEN conjunct2, THEN conjunct1, rule_format]
  note T3 = T [THEN conjunct2, THEN conjunct2, THEN conjunct1, rule_format]
  note T4 = T [THEN conjunct2, THEN conjunct2, THEN conjunct2, THEN conjunct1, rule_format]
  note T5 = T [THEN conjunct2, THEN conjunct2, THEN conjunct2, THEN conjunct2, THEN conjunct1,
      rule_format]
  note T6 = T [THEN conjunct2, THEN conjunct2, THEN conjunct2, THEN conjunct2, THEN conjunct2,
      rule_format]
  have e: "AddEdge 30 20 \<in> set example_calls" by simp
  have se: "StripedAddEdge 30 20 \<in> set example_striped_calls" by simp
  from example_unsorted obtain g1 g1' where
    x1: "DependencyGraph_calls nodeNumbers_unsorted example_calls DependencyGraph_new = Some g1"
        "DependencyGraph_sort nodeNumbers_unsorted g1 = Some ([10, 20, 30], g1')" by blast
  from example_sortedByValue obtain g2 g2' where
    x2: "DependencyGraph_calls nodeNumbers_sortedByValue example_calls DependencyGraph_new = Some g2"
        "DependencyGraph_sort nodeNumbers_sortedByValue g2 = Some ([10, 20, 30], g2')" by blast
  from example_fifo obtain g3 g3' where
    x3: "FifoDependencyGraph_calls example_calls FifoDependencyGraph_new = Some g3"
        "FifoDependencyGraph_sort g3 = Some ([10, 20, 30], g3')" by blast
  from example_lifo obtain g4 g4' where
    x4: "LifoDependencyGraph_calls example_calls LifoDependencyGraph_new = Some g4"
        "LifoDependencyGraph_sort g4 = Some ([10, 20, 30], g4')" by blast
  from example_striped_fifo obtain g5 g5' where
    x5: "StripedFifoDependencyGraph_calls example_striped_calls StripedFifoDependencyGraph_new = Some g5"
        "StripedFifoDependencyGraph_sort g5 = Some ([10, 20, 30], g5')" by blast
  from example_striped_lifo obtain g6 g6' where
    x6: "StripedLifoDependencyGraph_calls example_striped_calls StripedLifoDependencyGraph_new = Some g6"
        "StripedLifoDependencyGraph_sort g6 = Some ([10, 20, 30], g6')" by blast
  from T1 [OF x1 e] have "precedes 20 30 [10, 20, 30::nat]" "distinct [10, 20, 30::nat]"
    by blast+
  with x1 e have c1: "\<exists>g g' out. DependencyGraph_calls nodeNumbers_unsorted example_calls DependencyGraph_new = Some g
      \<and> DependencyGraph_sort nodeNumbers_unsorted g = Some (out, g')
      \<and> AddEdge 30 20 \<in> set example_calls \<and> precedes 20 30 out \<and> distinct out" by blast
  from T2 [OF x2 e] have "precedes 20 30 [10, 20, 30::nat]" "distinct [10, 20, 30::nat]"
    by blast+
  with x2 e have c2: "\<exists>g g' out. DependencyGraph_calls nodeNumbers_sortedByValue example_calls DependencyGraph_new = Some g
      \<and> DependencyGraph_sort nodeNumbers_sortedByValue g = Some (out, g')
      \<and> AddEdge 30 20 \<in> set example_calls \<and> precedes 20 30 out \<and> distinct out" by blast
  from T3 [OF x3 e] have "precedes 20 30 [10, 20, 30::nat]" "distinct [10, 20, 30::nat]"
    by blast+
  with x3 e have c3: "\<exists>w w' out. FifoDependencyGraph_calls example_calls FifoDependencyGraph_new = Some w
      \<and> FifoDependencyGraph_sort w = Some (out, w')
      \<and> AddEdge 30 20 \<in> set example_calls \<and> precedes 20 30 out \<and> distinct out" by blast
  from T4 [OF x4 e] have "precedes 20 30 [10, 20, 30::nat]" "distinct [10, 20, 30::nat]"
    by blast+
  with x4 e have c4: "\<exists>w w' out. LifoDependencyGraph_calls example_calls LifoDependencyGraph_new = Some w
      \<and> LifoDependencyGraph_sort w = Some (out, w')
      \<and> AddEdge 30 20 \<in> set example_calls \<and> precedes 20 30 out \<and> distinct out" by blast
  from T5 [OF x5 se] have "precedes 20 30 [10, 20, 30::nat]" "distinct [10, 20, 30::nat]"
    by blast+
  with x5 se have c5: "\<exists>w w' out. StripedFifoDependencyGraph_calls example_striped_calls StripedFifoDependencyGraph_new = Some w
      \<and> StripedFifoDependencyGraph_sort w = Some (out, w')
      \<and> StripedAddEdge 30 20 \<in> set example_striped_calls \<and> precedes 20 30 out \<and> distinct out" by blast
  from T6 [OF x6 se] have "precedes 20 30 [10, 20, 30::nat]" "distinct [10, 20, 30::nat]"
    by blast+
  with x6 se have c6: "\<exists>w w' out. StripedLifoDependencyGraph_calls example_striped_calls StripedLifoDependencyGraph_new = Some w
      \<and> StripedLifoDependencyGraph_sort w = Some (out, w')
      \<and> StripedAddEdge 30 20 \<in> set example_striped_calls \<and> precedes 20 30 out \<and> distinct out" by blast
  from c1 c2 c3 c4 c5 c6 show ?thesis by (intro conjI)
qed
subsection \<open>Reading leaves the plugin pointer alone\<close>

lemma readDependencyEntry_plugin: "plugin (snd (readDependencyEntry (r, d))) = plugin d"
  by (simp add: readDependencyEntry_def Let_def)

lemma reader_left_readDependencyEntry:
  "reader_left (fst (readDependencyEntry (r, d))) \<le> reader_left r"
  by (simp add: readDependencyEntry_def Let_def reader_left_readNext_le)

lemma readDependencies_plugin: "plugin (snd (readDependencies (r, d))) = plugin d"
proof (induction "reader_left r" arbitrary: r d rule: less_induct)
  case less
  show ?case
  proof (cases "atEnd r")
    case True
    then show ?thesis by (simp add: readDependencies.simps)
  next
    case False
    note lt = reader_left_readNext_less [OF False]
    have rec: "plugin (snd (readDependencies (readNext r, d'))) = plugin d'" for d'
      by (rule less [OF lt])
    have rec2: "plugin (snd (readDependencies (readDependencyEntry (readNext r, d)))) = plugin d"
    proof -
      obtain r2 d2 where e: "readDependencyEntry (readNext r, d) = (r2, d2)"
        by (cases "readDependencyEntry (readNext r, d)")
      from reader_left_readDependencyEntry [of "readNext r" d] e lt
      have "reader_left r2 < reader_left r" by simp
      from less [OF this, of d2] readDependencyEntry_plugin [of "readNext r" d] e
      show ?thesis by simp
    qed
    show ?thesis
      using False rec rec2
      by (subst readDependencies.simps) (simp add: Let_def split: token.splits)
  qed
qed

lemma readPluginSpec_loop_plugin: "plugin (snd (readPluginSpec_loop (r, d))) = plugin d"
proof (induction "reader_left r" arbitrary: r d rule: less_induct)
  case less
  show ?case
  proof (cases "atEnd r")
    case True
    then show ?thesis by (simp add: readPluginSpec_loop.simps)
  next
    case False
    note lt = reader_left_readNext_less [OF False]
    have rec: "plugin (snd (readPluginSpec_loop (r2, d'))) = plugin d'"
      if "reader_left r2 \<le> reader_left (readNext r)" for r2 d'
      using less [of r2 d'] that lt by simp
    have t: "plugin (snd (readPluginSpec_loop (r2, d'))) = plugin d'"
      if "readElementText (readNext r) = (r2, c)" for r2 c d'
      using rec [OF reader_left_readElementText [OF that]] .
    have dp: "plugin (snd (readPluginSpec_loop (readDependencies (readNext r, d)))) = plugin d"
    proof -
      obtain r2 d2 where e: "readDependencies (readNext r, d) = (r2, d2)"
        by (cases "readDependencies (readNext r, d)")
      from reader_left_readDependencies [of "readNext r" d] e
      have "reader_left r2 \<le> reader_left (readNext r)" by simp
      from rec [OF this, of d2] readDependencies_plugin [of "readNext r" d] e
      show ?thesis by simp
    qed
    show ?thesis
      using False rec [OF order_refl] t dp
      by (subst readPluginSpec_loop.simps)
         (simp add: Let_def split: token.splits prod.splits)
  qed
qed

lemma readPluginSpec_plugin: "plugin (snd (readPluginSpec (r, d))) = plugin d"
  by (simp add: readPluginSpec_def Let_def readPluginSpec_loop_plugin)

lemma read_loop_plugin: "plugin (snd (read_loop (r, d))) = plugin d"
proof (induction "reader_left r" arbitrary: r d rule: less_induct)
  case less
  show ?case
  proof (cases "atEnd r")
    case True
    then show ?thesis by (simp add: read_loop.simps)
  next
    case False
    note lt = reader_left_readNext_less [OF False]
    have rec: "plugin (snd (read_loop (readNext r, d))) = plugin d"
      by (rule less [OF lt])
    have sp: "plugin (snd (read_loop (readPluginSpec (readNext r, d)))) = plugin d"
    proof -
      obtain r2 d2 where e: "readPluginSpec (readNext r, d) = (r2, d2)"
        by (cases "readPluginSpec (readNext r, d)")
      from reader_left_readPluginSpec [of "readNext r" d] e lt
      have "reader_left r2 < reader_left r" by simp
      from less [OF this, of d2] readPluginSpec_plugin [of "readNext r" d] e
      show ?thesis by simp
    qed
    show ?thesis
      using False rec sp
      by (subst read_loop.simps) (simp add: Let_def split: token.splits)
  qed
qed

text \<open>\<^verbatim>\<open>read\<close> sets the plugin pointer to null, whatever the file holds.\<close>

lemma read_plugin: "plugin (snd (PluginSpec_read fs specFileName d)) = None"
proof (cases "fs specFileName")
  case NoFile
  then show ?thesis by (simp add: PluginSpec_read_def)
next
  case Unreadable
  then show ?thesis by (simp add: PluginSpec_read_def)
next
  case (File absolutePath baseName content)
  let ?d1 = "d\<lparr>name := [], version := [], description := [], category := [],
                 errorString := [], dependencies := [], enabled := False,
                 indirectlyDisabled := False, circularDependencyDetected := False,
                 providesSpecs := [], dependencySpecs := [], plugin := None,
                 state := Invalid, hasError := False,
                 filePath := absolutePath, fileName := baseName\<rparr>"
  obtain reader d2 where l: "read_loop (XmlStreamReader_new content, ?d1) = (reader, d2)"
    by (cases "read_loop (XmlStreamReader_new content, ?d1)")
  from read_loop_plugin [of "XmlStreamReader_new content" ?d1] l
  have "plugin d2 = None" by simp
  with File l show ?thesis by (simp add: PluginSpec_read_def Let_def)
qed

section \<open>Properties of resolving the dependencies\<close>


lemma find_spec_names:
  "\<forall>p \<in> set specs. name (\<sigma>' ! p) = name (\<sigma> ! p) \<Longrightarrow> find_spec \<sigma>' specs n = find_spec \<sigma> specs n"
  by (induction specs) auto

lemma find_spec_in: "find_spec \<sigma> specs n = Some A \<Longrightarrow> A \<in> set specs"
  by (induction specs) (auto split: if_splits)



lemma same_static_refl: "same_static \<sigma> \<sigma>"
  by (simp add: same_static_def)

lemma same_static_trans: "same_static \<sigma> \<sigma>' \<Longrightarrow> same_static \<sigma>' \<sigma>'' \<Longrightarrow> same_static \<sigma> \<sigma>''"
  by (simp add: same_static_def)

lemma same_static_find:
  "same_static \<sigma> \<sigma>' \<Longrightarrow> set specs \<subseteq> {..<length \<sigma>} \<Longrightarrow> find_spec \<sigma>' specs n = find_spec \<sigma> specs n"
  by (rule find_spec_names) (auto simp: same_static_def)

lemma resolve_loop_effect:
  assumes "resolve_loop q specs deps (\<sigma>, res) = (\<sigma>', res')"
    and "q < length \<sigma>" and "set specs \<subseteq> {..<length \<sigma>}"
  shows "same_static \<sigma> \<sigma>'
    \<and> set res' = set res \<union> {A. \<exists>dep \<in> set deps. find_spec \<sigma> specs (dependency_name dep) = Some A}
    \<and> (\<forall>A < length \<sigma>. set (providesSpecs (\<sigma>' ! A)) =
          set (providesSpecs (\<sigma> ! A))
          \<union> (if \<exists>dep \<in> set deps. find_spec \<sigma> specs (dependency_name dep) = Some A then {q} else {}))
    \<and> (\<forall>p < length \<sigma>. dependencySpecs (\<sigma>' ! p) = dependencySpecs (\<sigma> ! p)
                        \<and> state (\<sigma>' ! p) = state (\<sigma> ! p)
                        \<and> (p \<noteq> q \<longrightarrow> hasError (\<sigma>' ! p) = hasError (\<sigma> ! p)))
    \<and> (hasError (\<sigma>' ! q) \<longleftrightarrow>
          hasError (\<sigma> ! q) \<or> (\<exists>dep \<in> set deps. find_spec \<sigma> specs (dependency_name dep) = None))"
  using assms
proof (induction deps arbitrary: \<sigma> res)
  case Nil
  then show ?case by (simp add: same_static_refl)
next
  case (Cons dep deps)
  show ?case
  proof (cases "find_spec \<sigma> specs (dependency_name dep)")
    case None
    let ?\<sigma>1 = "\<sigma>[q := reportError (unresolved_message (name (\<sigma> ! q)) (dependency_name dep)) (\<sigma> ! q)]"
    from None Cons.prems(1) have rl: "resolve_loop q specs deps (?\<sigma>1, res) = (\<sigma>', res')" by simp
    have st: "same_static \<sigma> ?\<sigma>1"
      using Cons.prems(2) by (auto simp: same_static_def nth_list_update)
    have fs: "find_spec ?\<sigma>1 specs n = find_spec \<sigma> specs n" for n
      by (rule same_static_find [OF st Cons.prems(3)])
    from Cons.IH [OF rl] Cons.prems(2,3)
    have IH: "same_static ?\<sigma>1 \<sigma>'"
      "set res' = set res \<union> {A. \<exists>dep \<in> set deps. find_spec \<sigma> specs (dependency_name dep) = Some A}"
      "\<forall>A < length \<sigma>. set (providesSpecs (\<sigma>' ! A)) =
          set (providesSpecs (?\<sigma>1 ! A))
          \<union> (if \<exists>dep \<in> set deps. find_spec \<sigma> specs (dependency_name dep) = Some A then {q} else {})"
      "\<forall>p < length \<sigma>. dependencySpecs (\<sigma>' ! p) = dependencySpecs (?\<sigma>1 ! p)
                        \<and> state (\<sigma>' ! p) = state (?\<sigma>1 ! p)
                        \<and> (p \<noteq> q \<longrightarrow> hasError (\<sigma>' ! p) = hasError (?\<sigma>1 ! p))"
      "hasError (\<sigma>' ! q) \<longleftrightarrow>
          hasError (?\<sigma>1 ! q) \<or> (\<exists>dep \<in> set deps. find_spec \<sigma> specs (dependency_name dep) = None)"
      by (simp_all add: fs)
    have 1: "same_static \<sigma> \<sigma>'" by (rule same_static_trans [OF st IH(1)])
    have 2: "set res' = set res \<union> {A. \<exists>d \<in> set (dep # deps). find_spec \<sigma> specs (dependency_name d) = Some A}"
      using IH(2) None by auto
    have 3: "\<forall>A < length \<sigma>. set (providesSpecs (\<sigma>' ! A)) =
          set (providesSpecs (\<sigma> ! A))
          \<union> (if \<exists>d \<in> set (dep # deps). find_spec \<sigma> specs (dependency_name d) = Some A then {q} else {})"
      using IH(3) None Cons.prems(2) by (auto simp: nth_list_update)
    have 4: "\<forall>p < length \<sigma>. dependencySpecs (\<sigma>' ! p) = dependencySpecs (\<sigma> ! p)
                        \<and> state (\<sigma>' ! p) = state (\<sigma> ! p)
                        \<and> (p \<noteq> q \<longrightarrow> hasError (\<sigma>' ! p) = hasError (\<sigma> ! p))"
      using IH(4) Cons.prems(2) by (auto simp: nth_list_update)
    have 5: "hasError (\<sigma>' ! q) \<longleftrightarrow>
          hasError (\<sigma> ! q) \<or> (\<exists>d \<in> set (dep # deps). find_spec \<sigma> specs (dependency_name d) = None)"
      using IH(5) None Cons.prems(2) by auto
    from 1 2 3 4 5 show ?thesis by blast
  next
    case (Some found)
    let ?\<sigma>1 = "\<sigma>[found := (\<sigma> ! found)\<lparr>providesSpecs := providesSpecs (\<sigma> ! found) @ [q]\<rparr>]"
    from Some Cons.prems(1) have rl: "resolve_loop q specs deps (?\<sigma>1, res @ [found]) = (\<sigma>', res')"
      by simp
    from find_spec_in [OF Some] Cons.prems(3) have fl: "found < length \<sigma>" by auto
    have st: "same_static \<sigma> ?\<sigma>1"
      using fl by (auto simp: same_static_def nth_list_update)
    have fs: "find_spec ?\<sigma>1 specs n = find_spec \<sigma> specs n" for n
      by (rule same_static_find [OF st Cons.prems(3)])
    from Cons.IH [OF rl] Cons.prems(2,3)
    have IH: "same_static ?\<sigma>1 \<sigma>'"
      "set res' = set (res @ [found]) \<union> {A. \<exists>dep \<in> set deps. find_spec \<sigma> specs (dependency_name dep) = Some A}"
      "\<forall>A < length \<sigma>. set (providesSpecs (\<sigma>' ! A)) =
          set (providesSpecs (?\<sigma>1 ! A))
          \<union> (if \<exists>dep \<in> set deps. find_spec \<sigma> specs (dependency_name dep) = Some A then {q} else {})"
      "\<forall>p < length \<sigma>. dependencySpecs (\<sigma>' ! p) = dependencySpecs (?\<sigma>1 ! p)
                        \<and> state (\<sigma>' ! p) = state (?\<sigma>1 ! p)
                        \<and> (p \<noteq> q \<longrightarrow> hasError (\<sigma>' ! p) = hasError (?\<sigma>1 ! p))"
      "hasError (\<sigma>' ! q) \<longleftrightarrow>
          hasError (?\<sigma>1 ! q) \<or> (\<exists>dep \<in> set deps. find_spec \<sigma> specs (dependency_name dep) = None)"
      by (simp_all add: fs)
    have 1: "same_static \<sigma> \<sigma>'" by (rule same_static_trans [OF st IH(1)])
    have 2: "set res' = set res \<union> {A. \<exists>d \<in> set (dep # deps). find_spec \<sigma> specs (dependency_name d) = Some A}"
      using IH(2) Some by auto
    have 3: "\<forall>A < length \<sigma>. set (providesSpecs (\<sigma>' ! A)) =
          set (providesSpecs (\<sigma> ! A))
          \<union> (if \<exists>d \<in> set (dep # deps). find_spec \<sigma> specs (dependency_name d) = Some A then {q} else {})"
    proof (intro allI impI)
      fix A assume A: "A < length \<sigma>"
      show "set (providesSpecs (\<sigma>' ! A)) =
          set (providesSpecs (\<sigma> ! A))
          \<union> (if \<exists>d \<in> set (dep # deps). find_spec \<sigma> specs (dependency_name d) = Some A then {q} else {})"
        using IH(3) [rule_format, OF A] Some A fl
        by (cases "A = found") (auto simp: nth_list_update)
    qed
    have 4: "\<forall>p < length \<sigma>. dependencySpecs (\<sigma>' ! p) = dependencySpecs (\<sigma> ! p)
                        \<and> state (\<sigma>' ! p) = state (\<sigma> ! p)
                        \<and> (p \<noteq> q \<longrightarrow> hasError (\<sigma>' ! p) = hasError (\<sigma> ! p))"
      using IH(4) fl by (auto simp: nth_list_update)
    have 5: "hasError (\<sigma>' ! q) \<longleftrightarrow>
          hasError (\<sigma> ! q) \<or> (\<exists>d \<in> set (dep # deps). find_spec \<sigma> specs (dependency_name d) = None)"
      using IH(5) Some Cons.prems(2) fl by (auto simp: nth_list_update)
    from 1 2 3 4 5 show ?thesis by blast
  qed
qed


lemma resolve_step:
  assumes inv: "run_inv \<sigma>0 specs P \<sigma>" and q: "q < length \<sigma>0"
    and sp: "set specs \<subseteq> {..<length \<sigma>0}"
    and r: "PluginSpec_resolveDependencies q specs \<sigma> = Some (ok, \<sigma>')"
  shows "run_inv \<sigma>0 specs (insert q P) \<sigma>'"
proof -
  from inv have st: "same_static \<sigma>0 \<sigma>"
    and pv: "\<And>A B. A < length \<sigma>0 \<Longrightarrow> B \<in> set (providesSpecs (\<sigma> ! A)) \<longleftrightarrow>
              B \<in> P \<and> \<not> hasError (\<sigma>0 ! B) \<and> resolves_to \<sigma>0 specs B A"
    and dp: "\<And>A B. B < length \<sigma>0 \<Longrightarrow> A \<in> set (dependencySpecs (\<sigma> ! B)) \<longleftrightarrow>
              B \<in> P \<and> \<not> hasError (\<sigma>0 ! B) \<and> all_found \<sigma>0 specs B \<and> resolves_to \<sigma>0 specs B A"
    and he: "\<And>B. B < length \<sigma>0 \<Longrightarrow>
            hasError (\<sigma> ! B) \<longleftrightarrow> hasError (\<sigma>0 ! B) \<or> (B \<in> P \<and> \<not> all_found \<sigma>0 specs B)"
    by (simp_all add: run_inv_def)
  from st have len: "length \<sigma> = length \<sigma>0" by (simp add: same_static_def)
  show ?thesis
  proof (cases "hasError (\<sigma> ! q)")
    case True
    with r have "\<sigma>' = \<sigma>" by (simp add: PluginSpec_resolveDependencies_def)
    moreover from True he [OF q] have "hasError (\<sigma>0 ! q) \<or> (q \<in> P \<and> \<not> all_found \<sigma>0 specs q)"
      by simp
    ultimately show ?thesis
      using st pv dp he by (auto simp: run_inv_def)
  next
    case False
    with he [OF q] have h0: "\<not> hasError (\<sigma>0 ! q)" and pa: "q \<in> P \<longrightarrow> all_found \<sigma>0 specs q"
      by auto
    let ?\<sigma>1 = "if state (\<sigma> ! q) = Resolved then \<sigma>[q := (\<sigma> ! q)\<lparr>state := Read\<rparr>] else \<sigma>"
    obtain \<sigma>2 res where rl: "resolve_loop q specs (dependencies (?\<sigma>1 ! q)) (?\<sigma>1, []) = (\<sigma>2, res)"
      by (cases "resolve_loop q specs (dependencies (?\<sigma>1 ! q)) (?\<sigma>1, [])") auto
    have st1: "same_static \<sigma> ?\<sigma>1"
      using q len by (auto simp: same_static_def nth_list_update)
    have st01: "same_static \<sigma>0 ?\<sigma>1" by (rule same_static_trans [OF st st1])
    have l1: "length ?\<sigma>1 = length \<sigma>0" using len by simp
    have q1: "q < length ?\<sigma>1" using q l1 by simp
    have sp1: "set specs \<subseteq> {..<length ?\<sigma>1}" using sp l1 by simp
    have fs: "find_spec ?\<sigma>1 specs n = find_spec \<sigma>0 specs n" for n
      by (rule same_static_find [OF st01 sp])
    have deps1: "dependencies (?\<sigma>1 ! q) = dependencies (\<sigma>0 ! q)"
      using st01 q by (simp add: same_static_def)
    note eff = resolve_loop_effect [OF rl q1 sp1, unfolded fs deps1 l1]
    have f1: "providesSpecs (?\<sigma>1 ! A) = providesSpecs (\<sigma> ! A)"
      "dependencySpecs (?\<sigma>1 ! A) = dependencySpecs (\<sigma> ! A)"
      "hasError (?\<sigma>1 ! A) = hasError (\<sigma> ! A)" for A
      using q len by (auto simp: nth_list_update)
    from eff have st2: "same_static ?\<sigma>1 \<sigma>2"
      and res: "set res = {A. \<exists>dep \<in> set (dependencies (\<sigma>0 ! q)). find_spec \<sigma>0 specs (dependency_name dep) = Some A}"
      and pv2: "\<And>A. A < length \<sigma>0 \<Longrightarrow> set (providesSpecs (\<sigma>2 ! A)) =
          set (providesSpecs (\<sigma> ! A))
          \<union> (if \<exists>dep \<in> set (dependencies (\<sigma>0 ! q)). find_spec \<sigma>0 specs (dependency_name dep) = Some A
             then {q} else {})"
      and dp2: "\<And>p. p < length \<sigma>0 \<Longrightarrow> dependencySpecs (\<sigma>2 ! p) = dependencySpecs (\<sigma> ! p)"
      and he2: "\<And>p. p < length \<sigma>0 \<Longrightarrow> p \<noteq> q \<Longrightarrow> hasError (\<sigma>2 ! p) = hasError (\<sigma> ! p)"
      and heq: "hasError (\<sigma>2 ! q) \<longleftrightarrow>
          (\<exists>dep \<in> set (dependencies (\<sigma>0 ! q)). find_spec \<sigma>0 specs (dependency_name dep) = None)"
      using False by (simp_all add: f1)
    have rt: "resolves_to \<sigma>0 specs q A \<longleftrightarrow>
        (\<exists>dep \<in> set (dependencies (\<sigma>0 ! q)). find_spec \<sigma>0 specs (dependency_name dep) = Some A)" for A
      by (simp add: resolves_to_def list_ex_iff)
    have af: "all_found \<sigma>0 specs q \<longleftrightarrow>
        \<not> (\<exists>dep \<in> set (dependencies (\<sigma>0 ! q)). find_spec \<sigma>0 specs (dependency_name dep) = None)"
      by (simp add: all_found_def list_all_iff)
    have st02: "same_static \<sigma>0 \<sigma>2" by (rule same_static_trans [OF st01 st2])
    then have l2: "length \<sigma>2 = length \<sigma>0" by (simp add: same_static_def)
    from r False rl have \<sigma>': "\<sigma>' = (if hasError (\<sigma>2 ! q) then \<sigma>2
        else \<sigma>2[q := (\<sigma>2 ! q)\<lparr>dependencySpecs := res, state := Resolved\<rparr>])"
      by (auto simp: PluginSpec_resolveDependencies_def Let_def split: if_splits)
    show ?thesis
    proof (cases "hasError (\<sigma>2 ! q)")
      case True
      with \<sigma>' have e: "\<sigma>' = \<sigma>2" by simp
      from True heq af have naf: "\<not> all_found \<sigma>0 specs q" by simp
      with pa have qP: "q \<notin> P" by auto
      have "\<forall>A < length \<sigma>0. \<forall>B. B \<in> set (providesSpecs (\<sigma>2 ! A)) \<longleftrightarrow>
              B \<in> insert q P \<and> \<not> hasError (\<sigma>0 ! B) \<and> resolves_to \<sigma>0 specs B A"
        using pv2 pv h0 qP by (auto simp: rt split: if_splits)
      moreover have "\<forall>B < length \<sigma>0. \<forall>A. A \<in> set (dependencySpecs (\<sigma>2 ! B)) \<longleftrightarrow>
              B \<in> insert q P \<and> \<not> hasError (\<sigma>0 ! B) \<and> all_found \<sigma>0 specs B \<and> resolves_to \<sigma>0 specs B A"
        using dp2 dp naf qP by auto
      moreover have "\<forall>B < length \<sigma>0.
            hasError (\<sigma>2 ! B) \<longleftrightarrow> hasError (\<sigma>0 ! B) \<or> (B \<in> insert q P \<and> \<not> all_found \<sigma>0 specs B)"
        using he2 he True naf by (metis insert_iff)
      ultimately show ?thesis using st02 e by (simp add: run_inv_def)
    next
      case nerr: False
      with \<sigma>' have e: "\<sigma>' = \<sigma>2[q := (\<sigma>2 ! q)\<lparr>dependencySpecs := res, state := Resolved\<rparr>]" by simp
      from nerr heq af have allf: "all_found \<sigma>0 specs q" by simp
      have q2: "q < length \<sigma>2" using q l2 by simp
      have st': "same_static \<sigma>0 \<sigma>'"
        using st02 q2 unfolding e by (auto simp: same_static_def nth_list_update)
      have f': "providesSpecs (\<sigma>' ! A) = providesSpecs (\<sigma>2 ! A)"
        "hasError (\<sigma>' ! A) = hasError (\<sigma>2 ! A)"
        "dependencySpecs (\<sigma>' ! A) = (if A = q then res else dependencySpecs (\<sigma>2 ! A))" for A
        unfolding e using q2 by (auto simp: nth_list_update)
      have "\<forall>A < length \<sigma>0. \<forall>B. B \<in> set (providesSpecs (\<sigma>' ! A)) \<longleftrightarrow>
              B \<in> insert q P \<and> \<not> hasError (\<sigma>0 ! B) \<and> resolves_to \<sigma>0 specs B A"
        using pv2 pv h0 by (auto simp: rt f' split: if_splits)
      moreover have "\<forall>B < length \<sigma>0. \<forall>A. A \<in> set (dependencySpecs (\<sigma>' ! B)) \<longleftrightarrow>
              B \<in> insert q P \<and> \<not> hasError (\<sigma>0 ! B) \<and> all_found \<sigma>0 specs B \<and> resolves_to \<sigma>0 specs B A"
        using dp2 dp allf h0 res by (auto simp: f' rt)
      moreover have "\<forall>B < length \<sigma>0.
            hasError (\<sigma>' ! B) \<longleftrightarrow> hasError (\<sigma>0 ! B) \<or> (B \<in> insert q P \<and> \<not> all_found \<sigma>0 specs B)"
        using he2 he nerr allf h0 by (metis f'(2) insert_iff)
      ultimately show ?thesis using st' by (simp add: run_inv_def)
    qed
  qed
qed

lemma resolve_run:
  assumes "run_inv \<sigma>0 specs P \<sigma>" and "set ps \<subseteq> {..<length \<sigma>0}"
    and "set specs \<subseteq> {..<length \<sigma>0}"
    and "foreach_opt (\<lambda>q s. map_option snd (PluginSpec_resolveDependencies q specs s)) ps \<sigma> = Some \<sigma>'"
  shows "run_inv \<sigma>0 specs (P \<union> set ps) \<sigma>'"
  using assms
proof (induction ps arbitrary: P \<sigma>)
  case Nil
  then show ?case by simp
next
  case (Cons q ps)
  from Cons.prems(4) obtain ok \<sigma>1 where
    r: "PluginSpec_resolveDependencies q specs \<sigma> = Some (ok, \<sigma>1)"
    and rest: "foreach_opt (\<lambda>q s. map_option snd (PluginSpec_resolveDependencies q specs s)) ps \<sigma>1 = Some \<sigma>'"
    by (auto split: option.splits)
  from Cons.prems(2) have q: "q < length \<sigma>0" and ps: "set ps \<subseteq> {..<length \<sigma>0}" by simp_all
  from Cons.IH [OF resolve_step [OF Cons.prems(1) q Cons.prems(3) r] ps Cons.prems(3) rest]
  show ?case by simp
qed


lemma run_inv_fresh:
  "\<forall>p < length \<sigma>. providesSpecs (\<sigma> ! p) = [] \<and> dependencySpecs (\<sigma> ! p) = [] \<Longrightarrow>
   run_inv \<sigma> specs {} \<sigma>"
  by (simp add: run_inv_def same_static_refl)

text \<open>
  Claim C2, as the code has it. Let every specification of the store have empty
  edge lists, as \<^verbatim>\<open>read\<close> leaves them, and let \<^verbatim>\<open>resolveDependencies\<close> be
  invoked on every specification of the set. Then for all \<open>A\<close> and \<open>B\<close> of the
  set: if \<open>A\<close> is in \<open>B.dependencySpecs\<close> then \<open>B\<close> is in \<open>A.providesSpecs\<close>, and
  if \<open>B\<close> is in \<open>A.providesSpecs\<close> and the resolution of \<open>B\<close> did not fail
  (\<open>B\<close> has no error) then \<open>A\<close> is in \<open>B.dependencySpecs\<close>.
\<close>

theorem edges_symmetric_after_resolving:
  assumes fresh: "\<forall>p < length \<sigma>. providesSpecs (\<sigma> ! p) = [] \<and> dependencySpecs (\<sigma> ! p) = []"
    and sp: "set specs \<subseteq> {..<length \<sigma>}"
    and run: "resolveDependencies_on_all specs \<sigma> = Some \<sigma>'"
    and A: "A \<in> set specs" and B: "B \<in> set specs"
  shows "(A \<in> set (dependencySpecs (\<sigma>' ! B)) \<longrightarrow> B \<in> set (providesSpecs (\<sigma>' ! A)))
       \<and> (\<not> hasError (\<sigma>' ! B) \<longrightarrow> B \<in> set (providesSpecs (\<sigma>' ! A))
            \<longrightarrow> A \<in> set (dependencySpecs (\<sigma>' ! B)))"
proof -
  from resolve_run [OF run_inv_fresh [OF fresh] sp sp run [unfolded resolveDependencies_on_all_def]]
  have inv: "run_inv \<sigma> specs (set specs) \<sigma>'" by simp
  from A B sp have Al: "A < length \<sigma>" and Bl: "B < length \<sigma>" by auto
  from inv Al have pv: "B \<in> set (providesSpecs (\<sigma>' ! A)) \<longleftrightarrow>
      B \<in> set specs \<and> \<not> hasError (\<sigma> ! B) \<and> resolves_to \<sigma> specs B A"
    by (simp add: run_inv_def)
  from inv Bl have dp: "A \<in> set (dependencySpecs (\<sigma>' ! B)) \<longleftrightarrow>
      B \<in> set specs \<and> \<not> hasError (\<sigma> ! B) \<and> all_found \<sigma> specs B \<and> resolves_to \<sigma> specs B A"
    by (simp add: run_inv_def)
  from inv Bl have he: "hasError (\<sigma>' ! B) \<longleftrightarrow>
      hasError (\<sigma> ! B) \<or> (B \<in> set specs \<and> \<not> all_found \<sigma> specs B)"
    by (simp add: run_inv_def)
  from pv dp he show ?thesis by blast
qed

lemmas resolve_eval =
  spec_A_def spec_B_def PluginSpecPrivate_new_def PluginSpec_resolveDependencies_def
  reportError_def resolveDependencies_on_all_def resolveDependencies_twice_def
  provides_lists_def dependency_lists_def

lemma example_resolved:
  "map_option provides_lists (resolveDependencies_on_all [0, 1] [spec_A, spec_B [''A'']])
     = Some [[1], []]
   \<and> map_option dependency_lists (resolveDependencies_on_all [0, 1] [spec_A, spec_B [''A'']])
     = Some [[], [0]]
   \<and> map_option (map hasError) (resolveDependencies_on_all [0, 1] [spec_A, spec_B [''A'']])
     = Some [False, False]"
  by (simp add: resolve_eval)

theorem edges_symmetric_after_resolving_witness:
  "provides_lists [spec_A, spec_B [''A'']] = [[], []]
   \<and> dependency_lists [spec_A, spec_B [''A'']] = [[], []]
   \<and> set [0, 1] \<subseteq> {..<length [spec_A, spec_B [''A'']]}
   \<and> (\<exists>\<sigma>'. resolveDependencies_on_all [0, 1] [spec_A, spec_B [''A'']] = Some \<sigma>'
         \<and> 0 \<in> set (dependencySpecs (\<sigma>' ! 1)) \<and> \<not> hasError (\<sigma>' ! 1)
         \<and> 1 \<in> set (providesSpecs (\<sigma>' ! 0)))"
proof -
  let ?\<sigma> = "[spec_A, spec_B [''A'']]"
  have fresh: "\<forall>p < length ?\<sigma>. providesSpecs (?\<sigma> ! p) = [] \<and> dependencySpecs (?\<sigma> ! p) = []"
    by (simp add: less_Suc_eq spec_A_def spec_B_def PluginSpecPrivate_new_def)
  have sp: "set [0, 1] \<subseteq> {..<length ?\<sigma>}" by simp
  from example_resolved obtain \<sigma>' where
    run: "resolveDependencies_on_all [0, 1] ?\<sigma> = Some \<sigma>'"
    and d: "dependency_lists \<sigma>' = [[], [0]]" and h: "map hasError \<sigma>' = [False, False]"
    by auto
  from d have d1: "0 \<in> set (dependencySpecs (\<sigma>' ! 1))"
    by (auto simp: dependency_lists_def map_eq_Cons_conv)
  from h have h1: "\<not> hasError (\<sigma>' ! 1)" by (auto simp: map_eq_Cons_conv)
  from edges_symmetric_after_resolving [OF fresh sp run, of 0 1] d1
  have "1 \<in> set (providesSpecs (\<sigma>' ! 0))" by simp
  moreover have "provides_lists ?\<sigma> = [[], []]" "dependency_lists ?\<sigma> = [[], []]"
    by (simp_all add: provides_lists_def dependency_lists_def spec_A_def spec_B_def
        PluginSpecPrivate_new_def)
  ultimately show ?thesis using sp run d1 h1 by blast
qed

text \<open>
  The claim as it is written includes the runs where a resolution fails. There a
  dependency that was found has its reverse edge although the forward edges of
  the failing specification are not set: \<open>B\<close> depends on \<open>A\<close> and on a
  specification that does not exist.
\<close>

theorem edges_not_symmetric_counterexample:
  "map_option provides_lists (resolveDependencies_on_all [0, 1] [spec_A, spec_B [''A'', ''Missing'']])
     = Some [[1], []]
   \<and> map_option dependency_lists
        (resolveDependencies_on_all [0, 1] [spec_A, spec_B [''A'', ''Missing'']])
     = Some [[], []]"
  by (simp add: resolve_eval unresolved_message_def)

text \<open>
  Claim C7 at a concrete input: \<open>B\<close> depends on \<open>A\<close>, and \<^verbatim>\<open>resolveDependencies\<close>
  is called twice in a row on \<open>B\<close>. The forward edges of \<open>B\<close> are the same after
  both calls; the reverse edges of \<open>A\<close> hold \<open>B\<close> once after the first call and
  twice after the second.
\<close>

theorem resolveDependencies_twice_duplicates:
  "map_option (map_prod provides_lists provides_lists)
     (resolveDependencies_twice 1 [0, 1] [spec_A, spec_B [''A'']])
     = Some ([[1], []], [[1, 1], []])
   \<and> map_option (map_prod dependency_lists dependency_lists)
        (resolveDependencies_twice 1 [0, 1] [spec_A, spec_B [''A'']])
     = Some ([[], [0]], [[], [0]])"
  by (simp add: resolve_eval)

section \<open>Properties of reading, loading and unloading\<close>

lemmas read_eval =
  PluginSpec_read_def read_loop.simps readPluginSpec_def readPluginSpec_loop.simps
  readElementText_def readElementText_loop.simps readDependencies.simps readDependencyEntry_def
  XmlStreamReader_new_def atEnd_def readNext_def raiseError_def reader_hasError_def
  reader_errorString_def reader_name_def reader_attributes_def isValidVersion_def is_digit_def
  trimmed_def is_space_def example_files_def valid_description_def
  wrong_top_level_description_def nameless_description_def PluginSpecPrivate_new_def Let_def

text \<open>The specification the valid example file reads as.\<close>

lemma read_valid_description:
  "PluginSpec_read example_files ''/plugins/core.spec'' PluginSpecPrivate_new =
     (True, PluginSpecPrivate_new
        \<lparr>name := ''core'', version := ''1.0.2'', description := ''The core.'',
         category := ''Base'', enabled := True, filePath := ''/plugins'',
         fileName := ''core.spec'', state := Read\<rparr>)"
  by (simp add: read_eval)

text \<open>
  Claim C10. \<^verbatim>\<open>unloadPlugin\<close> on a specification without a plugin returns the
  specification and the log of the outside calls as they are: no field changes,
  the state included, and neither the plugin nor the loader is called.
\<close>

theorem unloadPlugin_without_plugin:
  "plugin d = None \<Longrightarrow> PluginSpec_unloadPlugin env (d, log) = (d, log)"
  by (simp add: PluginSpec_unloadPlugin_def)

theorem unloadPlugin_without_plugin_witness:
  "plugin spec_A = None \<and> state spec_A = Read
   \<and> PluginSpec_unloadPlugin example_environment (spec_A, []) = (spec_A, [])
   \<and> state (fst (PluginSpec_unloadPlugin example_environment (spec_A, []))) = Read"
proof -
  have p: "plugin spec_A = None" and s: "state spec_A = Read"
    by (simp_all add: spec_A_def PluginSpecPrivate_new_def)
  from unloadPlugin_without_plugin [OF p, of example_environment "[]"] p s
  show ?thesis by simp
qed

text \<open>
  Claim C4. A specification read with success from a description file without
  dependencies, whose \<^verbatim>\<open>resolveDependencies\<close> over the set of itself succeeds, is
  in the state \<open>Resolved\<close>; a \<^verbatim>\<open>loadPlugin\<close> that returns a plugin leaves it in
  the state \<open>Loaded\<close> holding that plugin, and after the \<^verbatim>\<open>unloadPlugin\<close> that
  follows the state is \<open>Resolved\<close> again and the plugin is null.
\<close>

theorem read_resolve_load_unload:
  assumes "PluginSpec_read fs specFileName d0 = (True, d)"
    and "dependencies d = []"
    and "PluginSpec_resolveDependencies 0 [0] [d] = Some (True, \<sigma>1)"
    and "PluginSpec_loadPlugin env 0 (\<sigma>1, log) = Some (Some p, \<sigma>2, log2)"
    and "PluginSpec_unloadPlugin env (\<sigma>2 ! 0, log2) = (d3, log3)"
  shows "state (\<sigma>1 ! 0) = Resolved
         \<and> state (\<sigma>2 ! 0) = Loaded \<and> plugin (\<sigma>2 ! 0) = Some p
         \<and> state d3 = Resolved \<and> plugin d3 = None"
proof -
  from read_plugin [of fs specFileName d0] assms(1) have pd: "plugin d = None" by simp
  from assms(2,3) obtain d1 where s1: "\<sigma>1 = [d1]" and "state d1 = Resolved"
    and p1: "plugin d1 = plugin d"
    by (auto simp: PluginSpec_resolveDependencies_def Let_def split: if_splits prod.splits)
  then have r1: "state (\<sigma>1 ! 0) = Resolved" by simp
  from assms(4) s1 r1 p1 pd have l2: "state (\<sigma>2 ! 0) = Loaded \<and> plugin (\<sigma>2 ! 0) = Some p"
    by (auto simp: PluginSpec_loadPlugin_def Let_def split: if_splits loaded.splits)
  with assms(5) have "state d3 = Resolved \<and> plugin d3 = None"
    by (auto simp: PluginSpec_unloadPlugin_def Let_def)
  with r1 l2 show ?thesis by simp
qed

theorem read_resolve_load_unload_witness:
  "\<exists>d \<sigma>1 \<sigma>2 log2 d3 log3.
     PluginSpec_read example_files ''/plugins/core.spec'' PluginSpecPrivate_new = (True, d)
     \<and> dependencies d = []
     \<and> PluginSpec_resolveDependencies 0 [0] [d] = Some (True, \<sigma>1)
     \<and> PluginSpec_loadPlugin example_environment 0 (\<sigma>1, []) = Some (Some 7, \<sigma>2, log2)
     \<and> PluginSpec_unloadPlugin example_environment (\<sigma>2 ! 0, log2) = (d3, log3)
     \<and> state (\<sigma>1 ! 0) = Resolved
     \<and> state (\<sigma>2 ! 0) = Loaded \<and> plugin (\<sigma>2 ! 0) = Some 7
     \<and> state d3 = Resolved \<and> plugin d3 = None"
proof -
  let ?d = "PluginSpecPrivate_new
        \<lparr>name := ''core'', version := ''1.0.2'', description := ''The core.'',
         category := ''Base'', enabled := True, filePath := ''/plugins'',
         fileName := ''core.spec'', state := Read\<rparr>"
  note rd = read_valid_description
  have nd: "dependencies ?d = []" by (simp add: PluginSpecPrivate_new_def)
  have rs: "PluginSpec_resolveDependencies 0 [0] [?d]
              = Some (True, [?d\<lparr>dependencySpecs := [], state := Resolved\<rparr>])"
    by (simp add: PluginSpec_resolveDependencies_def PluginSpecPrivate_new_def)
  let ?\<sigma>1 = "[?d\<lparr>dependencySpecs := [], state := Resolved\<rparr>]"
  obtain \<sigma>2 log2 where
    ld: "PluginSpec_loadPlugin example_environment 0 (?\<sigma>1, []) = Some (Some 7, \<sigma>2, log2)"
    by (simp add: PluginSpec_loadPlugin_def example_environment_def PluginSpecPrivate_new_def)
  obtain d3 log3 where
    ul: "PluginSpec_unloadPlugin example_environment (\<sigma>2 ! 0, log2) = (d3, log3)"
    by (cases "PluginSpec_unloadPlugin example_environment (\<sigma>2 ! 0, log2)") auto
  from read_resolve_load_unload [OF rd nd rs ld ul] rd nd rs ld ul
  show ?thesis by blast
qed

text \<open>
  Claim C5 at two concrete inputs: a description file whose top level element is
  not \<open>plugin\<close>, and one whose plugin element has no name. For both \<^verbatim>\<open>read\<close>
  records the error, and returns success with the state \<open>Read\<close>.
\<close>

theorem read_reported_error_succeeds:
  "map_prod id (\<lambda>d. (state d, hasError d, errorString d))
     (PluginSpec_read example_files ''/plugins/module.spec'' PluginSpecPrivate_new)
     = (True, Read, True, ''Expected element 'plugin' as top level element'')
   \<and> map_prod id (\<lambda>d. (state d, hasError d, errorString d))
        (PluginSpec_read example_files ''/plugins/nameless.spec'' PluginSpecPrivate_new)
     = (True, Read, True, ''Expected attribut 'name' at element plugin'')"
  by (simp add: read_eval reportError_def)

section \<open>Properties of the propagation\<close>

lemma finite_dep_rel: "finite (dep_rel \<sigma>)"
proof -
  have "dep_rel \<sigma> \<subseteq> (\<Union>B \<in> {..<length \<sigma>}. {B} \<times> set (dependencySpecs (\<sigma> ! B)))"
    by (auto simp: dep_rel_def)
  moreover have "finite (\<Union>B \<in> {..<length \<sigma>}. {B} \<times> set (dependencySpecs (\<sigma> ! B)))"
    by simp
  ultimately show ?thesis by (rule finite_subset)
qed

lemma wf_dep_rel: "resolved_graph \<sigma> \<Longrightarrow> wf (dep_rel \<sigma>)"
  by (simp add: resolved_graph_def finite_acyclic_wf finite_dep_rel)

lemma wf_dep_rel_converse: "resolved_graph \<sigma> \<Longrightarrow> wf ((dep_rel \<sigma>)\<inverse>)"
  by (simp add: resolved_graph_def finite_acyclic_wf_converse finite_dep_rel)

lemma dep_rel_less: "(S, A) \<in> dep_rel \<sigma> \<Longrightarrow> S < length \<sigma>"
  by (simp add: dep_rel_def)

lemma dep_rel_less2: "resolved_graph \<sigma> \<Longrightarrow> (S, A) \<in> dep_rel \<sigma> \<Longrightarrow> A < length \<sigma>"
  by (auto simp: dep_rel_def resolved_graph_def)

lemma downstream_self: "p \<in> downstream \<sigma> p"
  by (simp add: downstream_def)

lemma downstream_less: "p < length \<sigma> \<Longrightarrow> S \<in> downstream \<sigma> p \<Longrightarrow> S < length \<sigma>"
  by (auto simp: downstream_def elim: converse_rtranclE dest: dep_rel_less)

lemma downstream_closed:
  "d \<in> downstream \<sigma> p \<Longrightarrow> (S, d) \<in> dep_rel \<sigma> \<Longrightarrow> S \<in> downstream \<sigma> p"
  by (auto simp: downstream_def intro: converse_rtrancl_into_rtrancl)

lemma child_dep_rel:
  "resolved_graph \<sigma> \<Longrightarrow> p < length \<sigma> \<Longrightarrow> c \<in> set (providesSpecs (\<sigma> ! p)) \<Longrightarrow>
   c < length \<sigma> \<and> (c, p) \<in> dep_rel \<sigma>"
proof -
  assume G: "resolved_graph \<sigma>" and p: "p < length \<sigma>"
    and c: "c \<in> set (providesSpecs (\<sigma> ! p))"
  from G p c have cl: "c < length \<sigma>" by (auto simp: resolved_graph_def)
  with G p c have "p \<in> set (dependencySpecs (\<sigma> ! c))" by (simp add: resolved_graph_def)
  with cl show ?thesis by (simp add: dep_rel_def)
qed

lemma downstream_child_subset:
  "(c, p) \<in> dep_rel \<sigma> \<Longrightarrow> downstream \<sigma> c \<subseteq> downstream \<sigma> p"
  by (auto simp: downstream_def intro: rtrancl_into_rtrancl)

lemma not_downstream_child:
  assumes "resolved_graph \<sigma>" "(c, p) \<in> dep_rel \<sigma>"
  shows "p \<notin> downstream \<sigma> c"
proof
  assume "p \<in> downstream \<sigma> c"
  then have "(p, c) \<in> (dep_rel \<sigma>)\<^sup>*" by (simp add: downstream_def)
  with assms(2) have "(c, c) \<in> (dep_rel \<sigma>)\<^sup>+" by (rule rtrancl_into_trancl2)
  with assms(1) show False by (auto simp: resolved_graph_def acyclic_def)
qed

lemma dependency_not_downstream_child:
  assumes "resolved_graph \<sigma>" "(c, p) \<in> dep_rel \<sigma>" "(p, d) \<in> dep_rel \<sigma>"
  shows "d \<notin> downstream \<sigma> c"
proof
  assume "d \<in> downstream \<sigma> c"
  then have "(d, c) \<in> (dep_rel \<sigma>)\<^sup>*" by (simp add: downstream_def)
  with assms(3) have "(p, c) \<in> (dep_rel \<sigma>)\<^sup>+" by (rule rtrancl_into_trancl2)
  with assms(2) have "(c, c) \<in> (dep_rel \<sigma>)\<^sup>+" by (rule trancl_into_trancl2)
  with assms(1) show False by (auto simp: resolved_graph_def acyclic_def)
qed

lemma downstream_children:
  assumes G: "resolved_graph \<sigma>" and p: "p < length \<sigma>"
  shows "downstream \<sigma> p = insert p (\<Union>c \<in> set (providesSpecs (\<sigma> ! p)). downstream \<sigma> c)"
proof (intro equalityI subsetI)
  fix S assume "S \<in> downstream \<sigma> p"
  then have "(S, p) \<in> (dep_rel \<sigma>)\<^sup>*" by (simp add: downstream_def)
  then show "S \<in> insert p (\<Union>c \<in> set (providesSpecs (\<sigma> ! p)). downstream \<sigma> c)"
  proof (cases rule: rtranclE)
    case base
    then show ?thesis by simp
  next
    case (step c)
    from step(2) have "c < length \<sigma>" "p \<in> set (dependencySpecs (\<sigma> ! c))"
      by (simp_all add: dep_rel_def)
    with G p have "c \<in> set (providesSpecs (\<sigma> ! p))" by (simp add: resolved_graph_def)
    with step(1) show ?thesis by (auto simp: downstream_def)
  qed
next
  fix S assume "S \<in> insert p (\<Union>c \<in> set (providesSpecs (\<sigma> ! p)). downstream \<sigma> c)"
  then show "S \<in> downstream \<sigma> p"
    using child_dep_rel [OF G p] downstream_child_subset [of _ p \<sigma>] downstream_self [of p \<sigma>]
    by auto
qed

lemma flags_only_refl: "flags_only \<sigma> \<sigma>"
  by (simp add: flags_only_def)

lemma flags_only_length: "flags_only \<sigma> \<sigma>' \<Longrightarrow> length \<sigma>' = length \<sigma>"
  by (simp add: flags_only_def)

lemma flags_only_nth:
  "flags_only \<sigma> \<sigma>' \<Longrightarrow> p < length \<sigma> \<Longrightarrow>
   \<sigma>' ! p = (\<sigma> ! p)\<lparr>indirectlyDisabled := indirectlyDisabled (\<sigma>' ! p)\<rparr>"
  by (simp add: flags_only_def)

lemma flags_only_fields:
  assumes "flags_only \<sigma> \<sigma>'" "p < length \<sigma>"
  shows "dependencySpecs (\<sigma>' ! p) = dependencySpecs (\<sigma> ! p)"
    and "providesSpecs (\<sigma>' ! p) = providesSpecs (\<sigma> ! p)"
    and "hasError (\<sigma>' ! p) = hasError (\<sigma> ! p)"
    and "isEnabled (\<sigma>' ! p) = isEnabled (\<sigma> ! p)"
    and "initializationFailed (\<sigma>' ! p) = initializationFailed (\<sigma> ! p)"
    and "circularDependencyDetected (\<sigma>' ! p) = circularDependencyDetected (\<sigma> ! p)"
proof -
  note e = flags_only_nth [OF assms]
  show "dependencySpecs (\<sigma>' ! p) = dependencySpecs (\<sigma> ! p)" by (subst e) simp
  show "providesSpecs (\<sigma>' ! p) = providesSpecs (\<sigma> ! p)" by (subst e) simp
  show "hasError (\<sigma>' ! p) = hasError (\<sigma> ! p)" by (subst e) simp
  show "isEnabled (\<sigma>' ! p) = isEnabled (\<sigma> ! p)" by (subst e) (simp add: isEnabled_def)
  show "initializationFailed (\<sigma>' ! p) = initializationFailed (\<sigma> ! p)" by (subst e) simp
  show "circularDependencyDetected (\<sigma>' ! p) = circularDependencyDetected (\<sigma> ! p)"
    by (subst e) simp
qed

lemma flags_only_trans:
  assumes "flags_only \<sigma> \<sigma>'" "flags_only \<sigma>' \<sigma>''"
  shows "flags_only \<sigma> \<sigma>''"
proof -
  have l: "length \<sigma>' = length \<sigma>" "length \<sigma>'' = length \<sigma>"
    using assms by (simp_all add: flags_only_def)
  have "\<sigma>'' ! p = (\<sigma> ! p)\<lparr>indirectlyDisabled := indirectlyDisabled (\<sigma>'' ! p)\<rparr>"
    if "p < length \<sigma>" for p
  proof -
    from that l have p': "p < length \<sigma>'" by simp
    have "\<sigma>'' ! p = (\<sigma>' ! p)\<lparr>indirectlyDisabled := indirectlyDisabled (\<sigma>'' ! p)\<rparr>"
      by (rule flags_only_nth [OF assms(2) p'])
    also have "\<sigma>' ! p = (\<sigma> ! p)\<lparr>indirectlyDisabled := indirectlyDisabled (\<sigma>' ! p)\<rparr>"
      by (rule flags_only_nth [OF assms(1) that])
    finally show ?thesis by simp
  qed
  with l show ?thesis by (simp add: flags_only_def)
qed

lemma flags_only_update:
  "p < length \<sigma> \<Longrightarrow> flags_only \<sigma> (\<sigma>[p := (\<sigma> ! p)\<lparr>indirectlyDisabled := b\<rparr>])"
  by (simp add: flags_only_def nth_list_update)

lemma flags_only_dep_rel: "flags_only \<sigma> \<sigma>' \<Longrightarrow> dep_rel \<sigma>' = dep_rel \<sigma>"
  by (auto simp: dep_rel_def flags_only_length flags_only_fields(1))

lemma flags_only_downstream: "flags_only \<sigma> \<sigma>' \<Longrightarrow> downstream \<sigma>' p = downstream \<sigma> p"
  by (simp add: downstream_def flags_only_dep_rel)

lemma unavailable_cong:
  "flags_only \<sigma> \<sigma>' \<Longrightarrow> d < length \<sigma> \<Longrightarrow>
   indirectlyDisabled (\<sigma>' ! d) = indirectlyDisabled (\<sigma> ! d) \<Longrightarrow>
   unavailable \<sigma>' d = unavailable \<sigma> d"
  by (simp add: unavailable_def flags_only_fields)

text \<open>
  A flag stays up to date, or stays out of date, under a change confined to a set
  of specifications that holds the dependents of its members.
\<close>

lemma up_to_date_outside:
  assumes G: "resolved_graph \<sigma>0" and f0: "flags_only \<sigma>0 \<sigma>" and f: "flags_only \<sigma> \<sigma>'"
    and same: "\<forall>S < length \<sigma>0. S \<notin> U \<longrightarrow> \<sigma>' ! S = \<sigma> ! S"
    and closed: "\<forall>S d. d \<in> U \<longrightarrow> (S, d) \<in> dep_rel \<sigma>0 \<longrightarrow> S \<in> U"
    and S: "S < length \<sigma>0" "S \<notin> U"
  shows "up_to_date \<sigma>' S = up_to_date \<sigma> S"
proof -
  have l: "length \<sigma> = length \<sigma>0" using f0 by (rule flags_only_length)
  have D: "dependencySpecs (\<sigma> ! S) = dependencySpecs (\<sigma>0 ! S)"
    using f0 S(1) by (rule flags_only_fields)
  have "unavailable \<sigma>' d = unavailable \<sigma> d" if "d \<in> set (dependencySpecs (\<sigma>0 ! S))" for d
  proof -
    from that S(1) have r: "(S, d) \<in> dep_rel \<sigma>0" by (simp add: dep_rel_def)
    with G have dl: "d < length \<sigma>0" by (rule dep_rel_less2)
    from r closed S(2) have "d \<notin> U" by blast
    with same dl have "\<sigma>' ! d = \<sigma> ! d" by simp
    then show ?thesis by (simp add: unavailable_def)
  qed
  then have "list_ex (unavailable \<sigma>') (dependencySpecs (\<sigma>0 ! S))
           = list_ex (unavailable \<sigma>) (dependencySpecs (\<sigma>0 ! S))"
    by (simp add: list_ex_iff)
  moreover from same S have "\<sigma>' ! S = \<sigma> ! S" by simp
  ultimately show ?thesis by (simp add: up_to_date_def D)
qed

lemma uniform_bound:
  "\<forall>c \<in> set cs. \<exists>N. \<forall>f \<ge> N. Q f c \<Longrightarrow> \<exists>N::nat. \<forall>c \<in> set cs. \<forall>f \<ge> N. Q f c"
proof (induction cs)
  case Nil
  then show ?case by simp
next
  case (Cons c cs)
  then obtain N1 N2 where "\<forall>f \<ge> N1. Q f c" "\<forall>c \<in> set cs. \<forall>f \<ge> N2. Q f c" by auto
  then have "\<forall>c' \<in> set (c # cs). \<forall>f \<ge> max N1 N2. Q f c'" by auto
  then show ?case by blast
qed

text \<open>The loop over a list of specifications each of which propagates.\<close>

lemma propagates_loop:
  assumes G: "resolved_graph \<sigma>0"
    and cs: "\<forall>c \<in> set cs. c < length \<sigma>0 \<and> propagates \<sigma>0 fuel c"
    and f0: "flags_only \<sigma>0 \<sigma>"
    and st: "\<forall>c \<in> set cs. set stack \<inter> downstream \<sigma>0 c = {}"
  shows "\<exists>\<sigma>'. foreach_opt (\<lambda>c s. PluginSpec_resolveIndirectlyDisabled fuel True c s) cs (\<sigma>, stack)
               = Some (\<sigma>', stack)
            \<and> flags_only \<sigma> \<sigma>'
            \<and> (\<forall>S < length \<sigma>0. S \<notin> (\<Union>c \<in> set cs. downstream \<sigma>0 c) \<longrightarrow> \<sigma>' ! S = \<sigma> ! S)
            \<and> (\<forall>S \<in> (\<Union>c \<in> set cs. downstream \<sigma>0 c). up_to_date \<sigma>' S)"
  using cs f0 st
proof (induction cs arbitrary: \<sigma>)
  case Nil
  then show ?case by (simp add: flags_only_refl)
next
  case (Cons c cs)
  let ?U = "\<Union>c \<in> set cs. downstream \<sigma>0 c"
  from Cons.prems(1) have cl: "c < length \<sigma>0" and pc: "propagates \<sigma>0 fuel c" by simp_all
  from Cons.prems(3) have sc: "set stack \<inter> downstream \<sigma>0 c = {}" by simp
  from pc Cons.prems(2) sc obtain \<sigma>1 where
    r1: "PluginSpec_resolveIndirectlyDisabled fuel True c (\<sigma>, stack) = Some (\<sigma>1, stack)"
    and f1: "flags_only \<sigma> \<sigma>1"
    and o1: "\<forall>S < length \<sigma>0. S \<notin> downstream \<sigma>0 c \<longrightarrow> \<sigma>1 ! S = \<sigma> ! S"
    and u1: "\<forall>S \<in> downstream \<sigma>0 c. up_to_date \<sigma>1 S"
    unfolding propagates_def by blast
  have f01: "flags_only \<sigma>0 \<sigma>1" by (rule flags_only_trans [OF Cons.prems(2) f1])
  from Cons.IH [OF _ f01] Cons.prems(1,3) obtain \<sigma>' where
    r2: "foreach_opt (\<lambda>c s. PluginSpec_resolveIndirectlyDisabled fuel True c s) cs (\<sigma>1, stack)
           = Some (\<sigma>', stack)"
    and f2: "flags_only \<sigma>1 \<sigma>'"
    and o2: "\<forall>S < length \<sigma>0. S \<notin> ?U \<longrightarrow> \<sigma>' ! S = \<sigma>1 ! S"
    and u2: "\<forall>S \<in> ?U. up_to_date \<sigma>' S"
    by auto
  have closed: "\<forall>S d. d \<in> ?U \<longrightarrow> (S, d) \<in> dep_rel \<sigma>0 \<longrightarrow> S \<in> ?U"
    by (auto intro: downstream_closed)
  have "up_to_date \<sigma>' S" if "S \<in> downstream \<sigma>0 c" for S
  proof (cases "S \<in> ?U")
    case True
    with u2 show ?thesis by blast
  next
    case False
    from that cl have "S < length \<sigma>0" by (rule downstream_less [rotated])
    from up_to_date_outside [OF G f01 f2 o2 closed this False] u1 that
    show ?thesis by simp
  qed
  with u2 have u: "\<forall>S \<in> (\<Union>c \<in> set (c # cs). downstream \<sigma>0 c). up_to_date \<sigma>' S" by auto
  have o: "\<forall>S < length \<sigma>0. S \<notin> (\<Union>c \<in> set (c # cs). downstream \<sigma>0 c) \<longrightarrow> \<sigma>' ! S = \<sigma> ! S"
    using o1 o2 by auto
  from r1 r2 have "foreach_opt (\<lambda>c s. PluginSpec_resolveIndirectlyDisabled fuel True c s)
                     (c # cs) (\<sigma>, stack) = Some (\<sigma>', stack)" by simp
  with flags_only_trans [OF f1 f2] o u show ?case by blast
qed

lemma pop_this_push: "pop_this p (stack @ [p]) = Some stack"
  by (simp add: pop_this_def)

text \<open>One forced call, given that the calls on the dependents propagate.\<close>

lemma propagates_step:
  assumes G: "resolved_graph \<sigma>0" and p: "p < length \<sigma>0"
    and ch: "\<forall>c \<in> set (providesSpecs (\<sigma>0 ! p)). propagates \<sigma>0 fuel c"
  shows "propagates \<sigma>0 (Suc fuel) p"
  unfolding propagates_def
proof (intro allI impI)
  fix \<sigma> stack
  assume f0: "flags_only \<sigma>0 \<sigma>" and st: "set stack \<inter> downstream \<sigma>0 p = {}"
  let ?cs = "providesSpecs (\<sigma>0 ! p)"
  let ?D = "dependencySpecs (\<sigma>0 ! p)"
  let ?U = "\<Union>c \<in> set ?cs. downstream \<sigma>0 c"
  have l: "length \<sigma> = length \<sigma>0" using f0 by (rule flags_only_length)
  have pl: "p < length \<sigma>" using p l by simp
  have nc: "\<not> circularDependencyDetected (\<sigma> ! p)"
    using G p flags_only_fields(6) [OF f0 p] by (simp add: resolved_graph_def)
  have ns: "p \<notin> set stack" using st downstream_self [of p \<sigma>0] by auto
  define \<sigma>1 where "\<sigma>1 = \<sigma>[p := (\<sigma> ! p)\<lparr>indirectlyDisabled := False\<rparr>]"
  define \<sigma>2 where "\<sigma>2 = (if list_ex (unavailable \<sigma>1) (dependencySpecs (\<sigma>1 ! p))
                   then \<sigma>1[p := (\<sigma>1 ! p)\<lparr>indirectlyDisabled := True\<rparr>] else \<sigma>1)"
  have f1: "flags_only \<sigma> \<sigma>1" unfolding \<sigma>1_def by (rule flags_only_update [OF pl])
  have l1: "length \<sigma>1 = length \<sigma>0" using l by (simp add: \<sigma>1_def)
  have f12: "flags_only \<sigma>1 \<sigma>2"
    unfolding \<sigma>2_def using l1 p by (simp add: flags_only_update flags_only_refl)
  have f2: "flags_only \<sigma> \<sigma>2" by (rule flags_only_trans [OF f1 f12])
  have f02: "flags_only \<sigma>0 \<sigma>2" by (rule flags_only_trans [OF f0 f2])
  have o2: "\<sigma>2 ! S = \<sigma> ! S" if "S \<noteq> p" for S
    using that by (simp add: \<sigma>2_def \<sigma>1_def)
  have D1: "dependencySpecs (\<sigma>1 ! p) = ?D"
    using flags_only_fields(1) [OF flags_only_trans [OF f0 f1] p] .
  have D2: "dependencySpecs (\<sigma>2 ! p) = ?D" using flags_only_fields(1) [OF f02 p] .
  have P2: "providesSpecs (\<sigma>2 ! p) = ?cs" using flags_only_fields(2) [OF f02 p] .
  have i2: "indirectlyDisabled (\<sigma>2 ! p) = list_ex (unavailable \<sigma>1) ?D"
    using l1 p D1 by (simp add: \<sigma>2_def) (simp add: \<sigma>1_def)
  have dne: "d \<noteq> p" if "d \<in> set ?D" for d
  proof
    assume "d = p"
    with that p have "(p, p) \<in> dep_rel \<sigma>0" by (simp add: dep_rel_def)
    then have "(p, p) \<in> (dep_rel \<sigma>0)\<^sup>+" by (rule r_into_trancl)
    with G show False by (auto simp: resolved_graph_def acyclic_def)
  qed
  have "unavailable \<sigma>2 d = unavailable \<sigma>1 d" if "d \<in> set ?D" for d
    using dne [OF that] by (simp add: unavailable_def \<sigma>2_def)
  then have "list_ex (unavailable \<sigma>2) ?D = list_ex (unavailable \<sigma>1) ?D"
    by (simp add: list_ex_iff)
  with i2 have u2: "up_to_date \<sigma>2 p" by (simp add: up_to_date_def D2)
  note child = child_dep_rel [OF G p]
  have cs: "\<forall>c \<in> set ?cs. c < length \<sigma>0 \<and> propagates \<sigma>0 fuel c"
    using child ch by blast
  have stc: "\<forall>c \<in> set ?cs. set (stack @ [p]) \<inter> downstream \<sigma>0 c = {}"
  proof
    fix c assume c: "c \<in> set ?cs"
    with child have r: "(c, p) \<in> dep_rel \<sigma>0" by simp
    from downstream_child_subset [OF r] st not_downstream_child [OF G r]
    show "set (stack @ [p]) \<inter> downstream \<sigma>0 c = {}" by auto
  qed
  from propagates_loop [OF G cs f02 stc] obtain \<sigma>3 where
    r3: "foreach_opt (\<lambda>c s. PluginSpec_resolveIndirectlyDisabled fuel True c s) ?cs
           (\<sigma>2, stack @ [p]) = Some (\<sigma>3, stack @ [p])"
    and f3: "flags_only \<sigma>2 \<sigma>3"
    and o3: "\<forall>S < length \<sigma>0. S \<notin> ?U \<longrightarrow> \<sigma>3 ! S = \<sigma>2 ! S"
    and u3: "\<forall>S \<in> ?U. up_to_date \<sigma>3 S"
    by blast
  have run: "PluginSpec_resolveIndirectlyDisabled (Suc fuel) True p (\<sigma>, stack) = Some (\<sigma>3, stack)"
    using nc ns r3
    by (simp add: PluginSpec_resolveIndirectlyDisabled.simps Let_def \<sigma>1_def [symmetric]
        \<sigma>2_def [symmetric] P2 pop_this_push)
  have ds: "downstream \<sigma>0 p = insert p ?U" by (rule downstream_children [OF G p])
  have pU: "p \<notin> ?U" using child not_downstream_child [OF G] by blast
  have closed: "\<forall>S d. d \<in> ?U \<longrightarrow> (S, d) \<in> dep_rel \<sigma>0 \<longrightarrow> S \<in> ?U"
    by (auto intro: downstream_closed)
  have "up_to_date \<sigma>3 p"
    using up_to_date_outside [OF G f02 f3 o3 closed p pU] u2 by simp
  with u3 have u: "\<forall>S \<in> downstream \<sigma>0 p. up_to_date \<sigma>3 S" by (simp add: ds)
  have o: "\<forall>S < length \<sigma>0. S \<notin> downstream \<sigma>0 p \<longrightarrow> \<sigma>3 ! S = \<sigma> ! S"
    using o3 o2 by (simp add: ds)
  from run flags_only_trans [OF f2 f3] o u
  show "\<exists>\<sigma>'. PluginSpec_resolveIndirectlyDisabled (Suc fuel) True p (\<sigma>, stack) = Some (\<sigma>', stack)
              \<and> flags_only \<sigma> \<sigma>'
              \<and> (\<forall>S < length \<sigma>0. S \<notin> downstream \<sigma>0 p \<longrightarrow> \<sigma>' ! S = \<sigma> ! S)
              \<and> (\<forall>S \<in> downstream \<sigma>0 p. up_to_date \<sigma>' S)"
    by blast
qed

text \<open>On an acyclic set every forced call propagates, given enough fuel.\<close>

lemma propagates_enough_fuel:
  assumes G: "resolved_graph \<sigma>0"
  shows "p < length \<sigma>0 \<Longrightarrow> \<exists>N. \<forall>fuel \<ge> N. propagates \<sigma>0 fuel p"
  using wf_dep_rel [OF G]
proof (induction p rule: wf_induct_rule)
  case (less p)
  have "\<forall>c \<in> set (providesSpecs (\<sigma>0 ! p)). \<exists>N. \<forall>fuel \<ge> N. propagates \<sigma>0 fuel c"
    using less.IH child_dep_rel [OF G less.prems] by blast
  from uniform_bound [OF this] obtain N where
    N: "\<forall>c \<in> set (providesSpecs (\<sigma>0 ! p)). \<forall>fuel \<ge> N. propagates \<sigma>0 fuel c" by blast
  have "propagates \<sigma>0 fuel p" if "fuel \<ge> Suc N" for fuel
  proof -
    from that obtain f where f: "fuel = Suc f" "f \<ge> N" by (cases fuel) auto
    with N have "\<forall>c \<in> set (providesSpecs (\<sigma>0 ! p)). propagates \<sigma>0 f c" by simp
    from propagates_step [OF G less.prems this] f(1) show ?thesis by simp
  qed
  then show ?case by blast
qed

text \<open>The pass over the whole list leaves every flag up to date.\<close>

lemma on_all_up_to_date:
  assumes G: "resolved_graph \<sigma>0" and specs: "set specs = {..<length \<sigma>0}"
  shows "\<exists>N. \<forall>fuel \<ge> N. \<exists>\<sigma>'. resolveIndirectlyDisabled_on_all fuel specs \<sigma>0 = Some \<sigma>'
            \<and> flags_only \<sigma>0 \<sigma>' \<and> (\<forall>S < length \<sigma>0. up_to_date \<sigma>' S)"
proof -
  have "\<forall>c \<in> set specs. \<exists>N. \<forall>fuel \<ge> N. propagates \<sigma>0 fuel c"
    using propagates_enough_fuel [OF G] specs by simp
  from uniform_bound [OF this] obtain N where
    N: "\<forall>c \<in> set specs. \<forall>fuel \<ge> N. propagates \<sigma>0 fuel c" by blast
  have "\<exists>\<sigma>'. resolveIndirectlyDisabled_on_all fuel specs \<sigma>0 = Some \<sigma>'
            \<and> flags_only \<sigma>0 \<sigma>' \<and> (\<forall>S < length \<sigma>0. up_to_date \<sigma>' S)" if "fuel \<ge> N" for fuel
  proof -
    have cs: "\<forall>c \<in> set specs. c < length \<sigma>0 \<and> propagates \<sigma>0 fuel c"
      using N that specs by simp
    have st: "\<forall>c \<in> set specs. set [] \<inter> downstream \<sigma>0 c = {}" by simp
    from propagates_loop [OF G cs flags_only_refl st] obtain \<sigma>' where
      r: "foreach_opt (\<lambda>c s. PluginSpec_resolveIndirectlyDisabled fuel True c s) specs (\<sigma>0, [])
            = Some (\<sigma>', [])"
      and f: "flags_only \<sigma>0 \<sigma>'"
      and u: "\<forall>S \<in> (\<Union>c \<in> set specs. downstream \<sigma>0 c). up_to_date \<sigma>' S"
      by blast
    have "up_to_date \<sigma>' S" if "S < length \<sigma>0" for S
    proof -
      from that specs have "S \<in> set specs" by simp
      with downstream_self [of S \<sigma>0] have "S \<in> (\<Union>c \<in> set specs. downstream \<sigma>0 c)" by blast
      with u show ?thesis by blast
    qed
    with r f show ?thesis by (simp add: resolveIndirectlyDisabled_on_all_def)
  qed
  then show ?thesis by blast
qed

text \<open>Disabling a specification that is not persistent keeps the graph.\<close>

lemma disable_fields:
  assumes "\<not> persistent d"
  shows "setEnabled False d = d\<lparr>enabled := False\<rparr>"
  using assms by (simp add: setEnabled_def)

lemma disable_resolved_graph:
  assumes G: "resolved_graph \<sigma>" and X: "X < length \<sigma>"
  shows "resolved_graph (\<sigma>[X := (\<sigma> ! X)\<lparr>enabled := False\<rparr>])"
proof -
  let ?\<sigma>1 = "\<sigma>[X := (\<sigma> ! X)\<lparr>enabled := False\<rparr>]"
  have d: "dependencySpecs (?\<sigma>1 ! p) = dependencySpecs (\<sigma> ! p)" if "p < length \<sigma>" for p
    using that by (cases "p = X") simp_all
  have pr: "providesSpecs (?\<sigma>1 ! p) = providesSpecs (\<sigma> ! p)" if "p < length \<sigma>" for p
    using that by (cases "p = X") simp_all
  have c: "circularDependencyDetected (?\<sigma>1 ! p) = circularDependencyDetected (\<sigma> ! p)"
    if "p < length \<sigma>" for p
    using that by (cases "p = X") simp_all
  have "dep_rel ?\<sigma>1 = dep_rel \<sigma>" using d by (auto simp: dep_rel_def)
  with G show ?thesis by (simp add: resolved_graph_def d pr c)
qed

text \<open>
  After the specification \<open>X\<close> is disabled, a store with every flag up to date
  has the flag of every transitive dependent of \<open>X\<close> set.
\<close>

lemma dependents_disabled:
  assumes f: "flags_only (\<sigma>[X := (\<sigma> ! X)\<lparr>enabled := False\<rparr>]) \<sigma>'"
    and u: "\<forall>S < length \<sigma>. up_to_date \<sigma>' S"
    and X: "X < length \<sigma>" and np: "\<not> persistent (\<sigma> ! X)"
    and r: "(S, X) \<in> (dep_rel \<sigma>)\<^sup>+"
  shows "indirectlyDisabled (\<sigma>' ! S)"
  using r
proof (induction rule: converse_trancl_induct)
  case (base S)
  then have S: "S < length \<sigma>" and d: "X \<in> set (dependencySpecs (\<sigma> ! S))"
    by (simp_all add: dep_rel_def)
  have "\<sigma>' ! X = (\<sigma> ! X)\<lparr>enabled := False, indirectlyDisabled := indirectlyDisabled (\<sigma>' ! X)\<rparr>"
    using flags_only_nth [OF f, of X] X by simp
  then have "\<not> isEnabled (\<sigma>' ! X)" using np
    by (metis (no_types, lifting) isEnabled_def PluginSpecPrivate.select_convs(6,7)
        PluginSpecPrivate.surjective PluginSpecPrivate.update_convs(6,8))
  then have ux: "unavailable \<sigma>' X" by (simp add: unavailable_def)
  have "dependencySpecs (\<sigma>' ! S) = dependencySpecs (\<sigma> ! S)"
    using flags_only_fields(1) [OF f, of S] S by (cases "S = X") simp_all
  with d ux have "list_ex (unavailable \<sigma>') (dependencySpecs (\<sigma>' ! S))"
    by (auto simp: list_ex_iff)
  with u S show ?case by (simp add: up_to_date_def)
next
  case (step S z)
  then have S: "S < length \<sigma>" and d: "z \<in> set (dependencySpecs (\<sigma> ! S))"
    by (simp_all add: dep_rel_def)
  from step.IH have uz: "unavailable \<sigma>' z" by (simp add: unavailable_def)
  have "dependencySpecs (\<sigma>' ! S) = dependencySpecs (\<sigma> ! S)"
    using flags_only_fields(1) [OF f, of S] S by (cases "S = X") simp_all
  with d uz have "list_ex (unavailable \<sigma>') (dependencySpecs (\<sigma>' ! S))"
    by (auto simp: list_ex_iff)
  with u S show ?case by (simp add: up_to_date_def)
qed

text \<open>
  And the flag of a specification that is no transitive dependent of \<open>X\<close> is as
  it was in the store before, where every flag was up to date.
\<close>

lemma others_unchanged:
  assumes G: "resolved_graph \<sigma>"
    and u0: "\<forall>S < length \<sigma>. up_to_date \<sigma> S"
    and f: "flags_only (\<sigma>[X := (\<sigma> ! X)\<lparr>enabled := False\<rparr>]) \<sigma>'"
    and u: "\<forall>S < length \<sigma>. up_to_date \<sigma>' S"
    and X: "X < length \<sigma>"
  shows "S < length \<sigma> \<Longrightarrow> (S, X) \<notin> (dep_rel \<sigma>)\<^sup>+
           \<Longrightarrow> indirectlyDisabled (\<sigma>' ! S) = indirectlyDisabled (\<sigma> ! S)"
  using wf_dep_rel_converse [OF G]
proof (induction S rule: wf_induct_rule)
  case (less S)
  have S: "S < length \<sigma>" by (rule less.prems(1))
  have D: "dependencySpecs (\<sigma>' ! S) = dependencySpecs (\<sigma> ! S)"
    using flags_only_fields(1) [OF f, of S] S by (cases "S = X") simp_all
  have "unavailable \<sigma>' d = unavailable \<sigma> d" if d: "d \<in> set (dependencySpecs (\<sigma> ! S))" for d
  proof -
    from d S have r: "(S, d) \<in> dep_rel \<sigma>" by (simp add: dep_rel_def)
    then have dl: "d < length \<sigma>" by (rule dep_rel_less2 [OF G])
    from r less.prems(2) have dX: "d \<noteq> X" by auto
    from r less.prems(2) have "(d, X) \<notin> (dep_rel \<sigma>)\<^sup>+"
      by (meson trancl_into_trancl2)
    with less.IH [of d] r dl
    have i: "indirectlyDisabled (\<sigma>' ! d) = indirectlyDisabled (\<sigma> ! d)" by simp
    have "\<sigma>' ! d = (\<sigma> ! d)\<lparr>indirectlyDisabled := indirectlyDisabled (\<sigma>' ! d)\<rparr>"
      using flags_only_nth [OF f, of d] dl dX by simp
    with i have "\<sigma>' ! d = \<sigma> ! d" by simp
    then show ?thesis by (simp add: unavailable_def)
  qed
  then have "list_ex (unavailable \<sigma>') (dependencySpecs (\<sigma> ! S))
               = list_ex (unavailable \<sigma>) (dependencySpecs (\<sigma> ! S))"
    by (simp add: list_ex_iff)
  with u u0 S D show ?case by (simp add: up_to_date_def)
qed

lemma example_dep_rel: "dep_rel [resolved_A, resolved_B] = {(1, 0)}"
  by (auto simp: dep_rel_def less_Suc_eq resolved_A_def resolved_B_def spec_A_def spec_B_def
      PluginSpecPrivate_new_def)

lemma example_acyclic: "acyclic {(1::nat, 0::nat)}"
  by (simp add: acyclic_insert) (simp add: acyclic_def)

lemma example_resolved_graph: "resolved_graph [resolved_A, resolved_B]"
  unfolding resolved_graph_def example_dep_rel
  using example_acyclic
  by (simp add: All_less_Suc resolved_A_def resolved_B_def spec_A_def spec_B_def
      PluginSpecPrivate_new_def)

lemma example_up_to_date: "\<forall>S < length [resolved_A, resolved_B]. up_to_date [resolved_A, resolved_B] S"
  by (simp add: All_less_Suc up_to_date_def unavailable_def isEnabled_def
      resolved_A_def resolved_B_def spec_A_def spec_B_def PluginSpecPrivate_new_def)

text \<open>
  Claim C3. In a resolved and acyclic set whose flags are up to date, disabling a
  specification \<open>X\<close> that is not persistent and running the forced propagation
  over the whole set returns (given enough fuel), sets \<^verbatim>\<open>indirectlyDisabled\<close> on
  every transitive dependent of \<open>X\<close>, and leaves the flag of every other
  specification as it was.
\<close>

theorem disable_propagates:
  assumes "resolved_graph \<sigma>"
    and "\<forall>S < length \<sigma>. up_to_date \<sigma> S"
    and "X < length \<sigma>"
    and "\<not> persistent (\<sigma> ! X)"
    and "set specs = {..<length \<sigma>}"
  shows "\<exists>N. \<forall>fuel \<ge> N. \<exists>\<sigma>'.
           resolveIndirectlyDisabled_on_all fuel specs (\<sigma>[X := setEnabled False (\<sigma> ! X)]) = Some \<sigma>'
           \<and> (\<forall>S. (S, X) \<in> (dep_rel \<sigma>)\<^sup>+ \<longrightarrow> indirectlyDisabled (\<sigma>' ! S))
           \<and> (\<forall>S < length \<sigma>. (S, X) \<notin> (dep_rel \<sigma>)\<^sup>+
                  \<longrightarrow> indirectlyDisabled (\<sigma>' ! S) = indirectlyDisabled (\<sigma> ! S))"
proof -
  let ?\<sigma>1 = "\<sigma>[X := (\<sigma> ! X)\<lparr>enabled := False\<rparr>]"
  have e: "\<sigma>[X := setEnabled False (\<sigma> ! X)] = ?\<sigma>1"
    using assms(4) by (simp add: disable_fields)
  have G1: "resolved_graph ?\<sigma>1" by (rule disable_resolved_graph [OF assms(1,3)])
  have s1: "set specs = {..<length ?\<sigma>1}" using assms(5) by simp
  from on_all_up_to_date [OF G1 s1] obtain N where
    N: "\<forall>fuel \<ge> N. \<exists>\<sigma>'. resolveIndirectlyDisabled_on_all fuel specs ?\<sigma>1 = Some \<sigma>'
           \<and> flags_only ?\<sigma>1 \<sigma>' \<and> (\<forall>S < length ?\<sigma>1. up_to_date \<sigma>' S)" by blast
  have "\<exists>\<sigma>'. resolveIndirectlyDisabled_on_all fuel specs ?\<sigma>1 = Some \<sigma>'
           \<and> (\<forall>S. (S, X) \<in> (dep_rel \<sigma>)\<^sup>+ \<longrightarrow> indirectlyDisabled (\<sigma>' ! S))
           \<and> (\<forall>S < length \<sigma>. (S, X) \<notin> (dep_rel \<sigma>)\<^sup>+
                  \<longrightarrow> indirectlyDisabled (\<sigma>' ! S) = indirectlyDisabled (\<sigma> ! S))"
    if "fuel \<ge> N" for fuel
  proof -
    from N that obtain \<sigma>' where
      r: "resolveIndirectlyDisabled_on_all fuel specs ?\<sigma>1 = Some \<sigma>'"
      and f: "flags_only ?\<sigma>1 \<sigma>'" and u: "\<forall>S < length \<sigma>. up_to_date \<sigma>' S"
      by auto
    have a: "\<forall>S. (S, X) \<in> (dep_rel \<sigma>)\<^sup>+ \<longrightarrow> indirectlyDisabled (\<sigma>' ! S)"
      using dependents_disabled [OF f u assms(3,4)] by blast
    have b: "\<forall>S < length \<sigma>. (S, X) \<notin> (dep_rel \<sigma>)\<^sup>+
                  \<longrightarrow> indirectlyDisabled (\<sigma>' ! S) = indirectlyDisabled (\<sigma> ! S)"
      using others_unchanged [OF assms(1,2) f u assms(3)] by blast
    from r a b show ?thesis by blast
  qed
  then show ?thesis unfolding e by blast
qed

theorem disable_propagates_witness:
  "resolved_graph [resolved_A, resolved_B]
   \<and> \<not> persistent ([resolved_A, resolved_B] ! 0)
   \<and> (1, 0) \<in> (dep_rel [resolved_A, resolved_B])\<^sup>+
   \<and> (\<exists>N. \<forall>fuel \<ge> N. \<exists>\<sigma>'.
         resolveIndirectlyDisabled_on_all fuel [0, 1]
           ([resolved_A, resolved_B][0 := setEnabled False ([resolved_A, resolved_B] ! 0)]) = Some \<sigma>'
         \<and> indirectlyDisabled (\<sigma>' ! 1)
         \<and> indirectlyDisabled (\<sigma>' ! 0) = indirectlyDisabled ([resolved_A, resolved_B] ! 0))"
proof -
  let ?\<sigma> = "[resolved_A, resolved_B]"
  have np: "\<not> persistent (?\<sigma> ! 0)"
    by (simp add: resolved_A_def spec_A_def PluginSpecPrivate_new_def)
  have s: "set [0, 1] = {..<length ?\<sigma>}" by auto
  have X: "0 < length ?\<sigma>" by simp
  have r: "(1, 0) \<in> (dep_rel ?\<sigma>)\<^sup>+" by (rule r_into_trancl) (simp add: example_dep_rel)
  have n: "(0, 0) \<notin> (dep_rel ?\<sigma>)\<^sup>+" by (simp add: example_dep_rel trancl_insert)
  from disable_propagates [OF example_resolved_graph example_up_to_date X np s]
  obtain N where N: "\<forall>fuel \<ge> N. \<exists>\<sigma>'.
           resolveIndirectlyDisabled_on_all fuel [0, 1] (?\<sigma>[0 := setEnabled False (?\<sigma> ! 0)]) = Some \<sigma>'
           \<and> (\<forall>S. (S, 0) \<in> (dep_rel ?\<sigma>)\<^sup>+ \<longrightarrow> indirectlyDisabled (\<sigma>' ! S))
           \<and> (\<forall>S < length ?\<sigma>. (S, 0) \<notin> (dep_rel ?\<sigma>)\<^sup>+
                  \<longrightarrow> indirectlyDisabled (\<sigma>' ! S) = indirectlyDisabled (?\<sigma> ! S))"
    by blast
  have "\<exists>\<sigma>'. resolveIndirectlyDisabled_on_all fuel [0, 1] (?\<sigma>[0 := setEnabled False (?\<sigma> ! 0)]) = Some \<sigma>'
         \<and> indirectlyDisabled (\<sigma>' ! 1)
         \<and> indirectlyDisabled (\<sigma>' ! 0) = indirectlyDisabled (?\<sigma> ! 0)" if "fuel \<ge> N" for fuel
  proof -
    from N that obtain \<sigma>' where
      a: "resolveIndirectlyDisabled_on_all fuel [0, 1] (?\<sigma>[0 := setEnabled False (?\<sigma> ! 0)]) = Some \<sigma>'"
      and b: "\<forall>S. (S, 0) \<in> (dep_rel ?\<sigma>)\<^sup>+ \<longrightarrow> indirectlyDisabled (\<sigma>' ! S)"
      and c: "\<forall>S < length ?\<sigma>. (S, 0) \<notin> (dep_rel ?\<sigma>)\<^sup>+
                  \<longrightarrow> indirectlyDisabled (\<sigma>' ! S) = indirectlyDisabled (?\<sigma> ! S)"
      by blast
    from b r have "indirectlyDisabled (\<sigma>' ! 1)" by blast
    moreover from c n X have "indirectlyDisabled (\<sigma>' ! 0) = indirectlyDisabled (?\<sigma> ! 0)" by blast
    ultimately show ?thesis using a by blast
  qed
  with example_resolved_graph np r show ?thesis by blast
qed

lemma persistent_dep_rel: "dep_rel [setPersistent True resolved_A, resolved_B] = {(1, 0)}"
  by (auto simp: dep_rel_def less_Suc_eq setPersistent_def resolved_A_def resolved_B_def
      spec_A_def spec_B_def PluginSpecPrivate_new_def)

lemma persistent_resolved_graph: "resolved_graph [setPersistent True resolved_A, resolved_B]"
  unfolding resolved_graph_def persistent_dep_rel
  using example_acyclic
  by (simp add: All_less_Suc setPersistent_def resolved_A_def resolved_B_def spec_A_def
      spec_B_def PluginSpecPrivate_new_def)

theorem disable_persistent_counterexample:
  "resolved_graph [setPersistent True resolved_A, resolved_B]
   \<and> dependency_lists [setPersistent True resolved_A, resolved_B] = [[], [0]]
   \<and> flags [setPersistent True resolved_A, resolved_B] = [False, False]
   \<and> map_option flags
        (resolveIndirectlyDisabled_on_all 2 [0, 1]
           ([setPersistent True resolved_A, resolved_B]
              [0 := setEnabled False (setPersistent True resolved_A)]))
      = Some [False, False]
   \<and> map_option flags
        (resolveIndirectlyDisabled_on_all 2 [0, 1]
           ([setPersistent True resolved_A, resolved_B]
              [0 := (setPersistent True resolved_A)\<lparr>enabled := False\<rparr>]))
      = Some [False, False]"
proof (intro conjI)
  show "resolved_graph [setPersistent True resolved_A, resolved_B]"
    by (rule persistent_resolved_graph)
qed code_simp+

text \<open>
  The flags have to be up to date before: here \<open>A\<close> reported an error after the
  last pass, \<open>B\<close> depends on \<open>A\<close>, and disabling the unrelated \<open>X\<close> sets the flag
  of \<open>B\<close>.
\<close>

lemma stale_flag_example:
  "dependency_lists [reportError ''load failed'' resolved_A, resolved_B, spec_X] = [[], [0], []]
   \<and> flags [reportError ''load failed'' resolved_A, resolved_B, spec_X] = [False, False, False]
   \<and> map_option flags
        (resolveIndirectlyDisabled_on_all 2 [0, 1, 2]
           ([reportError ''load failed'' resolved_A, resolved_B, spec_X]
              [2 := setEnabled False spec_X]))
      = Some [False, True, False]"
  by (intro conjI) code_simp+
section \<open>Properties of the manager\<close>

subsection \<open>More depth of recursion gives the same result\<close>

lemma foreach_opt_mono:
  assumes "\<And>x s y. f x s = Some y \<Longrightarrow> g x s = Some y"
  shows "foreach_opt f xs s = Some y \<Longrightarrow> foreach_opt g xs s = Some y"
proof (induction xs arbitrary: s)
  case Nil
  then show ?case by simp
next
  case (Cons x xs)
  from Cons.prems obtain s' where f: "f x s = Some s'" and r: "foreach_opt f xs s' = Some y"
    by (auto split: option.splits)
  from assms [OF f] Cons.IH [OF r] show ?case by simp
qed

lemma loadQueue_dependencies_mono:
  assumes "\<And>x s y. f x s = Some y \<Longrightarrow> g x s = Some y"
  shows "loadQueue_dependencies f q ds s = Some y \<Longrightarrow> loadQueue_dependencies g q ds s = Some y"
proof (induction ds arbitrary: s)
  case Nil
  then show ?case by simp
next
  case (Cons x xs)
  from Cons.prems obtain ok \<sigma> queue circ where f: "f x s = Some (ok, \<sigma>, queue, circ)"
    by (auto split: option.splits)
  note g = assms [OF f]
  show ?case
  proof (cases ok)
    case True
    with Cons.prems f have "loadQueue_dependencies f q xs (\<sigma>, queue, circ) = Some y" by simp
    from Cons.IH [OF this] g True show ?thesis by simp
  next
    case False
    with Cons.prems f g show ?thesis by simp
  qed
qed

lemma PluginSpec_loadQueue_mono:
  "PluginSpec_loadQueue fuel q s = Some y \<Longrightarrow> fuel \<le> fuel'
   \<Longrightarrow> PluginSpec_loadQueue fuel' q s = Some y"
proof (induction fuel arbitrary: q s y fuel')
  case 0
  then show ?case by (simp add: PluginSpec_loadQueue.simps)
next
  case (Suc fuel)
  from Suc.prems(2) obtain f' where f': "fuel' = Suc f'" "fuel \<le> f'" by (cases fuel') auto
  obtain \<sigma> queue circ where s: "s = (\<sigma>, queue, circ)" by (cases s)
  have m: "\<And>x s y. PluginSpec_loadQueue fuel x s = Some y \<Longrightarrow> PluginSpec_loadQueue f' x s = Some y"
    using Suc.IH f'(2) by blast
  have d: "loadQueue_dependencies (\<lambda>p s. PluginSpec_loadQueue fuel p s) q ds t = Some r
           \<Longrightarrow> loadQueue_dependencies (\<lambda>p s. PluginSpec_loadQueue f' p s) q ds t = Some r"
    for ds t r
    by (rule loadQueue_dependencies_mono [OF m])
  show ?case
  proof (cases "loadQueue_dependencies (\<lambda>p s. PluginSpec_loadQueue fuel p s) q
                  (dependencySpecs (\<sigma> ! q)) (\<sigma>, queue, circ @ [q])")
    case None
    with Suc.prems(1) show ?thesis
      unfolding f' s PluginSpec_loadQueue.simps by (auto split: if_splits)
  next
    case (Some r)
    note d [OF Some]
    with Suc.prems(1) Some show ?thesis
      unfolding f' s PluginSpec_loadQueue.simps by (auto split: if_splits)
  qed
qed

lemma PluginSpec_unloadQueue_mono:
  "PluginSpec_unloadQueue fuel q s = Some y \<Longrightarrow> fuel \<le> fuel'
   \<Longrightarrow> PluginSpec_unloadQueue fuel' q s = Some y"
proof (induction fuel arbitrary: q s y fuel')
  case 0
  then show ?case by (simp add: PluginSpec_unloadQueue.simps)
next
  case (Suc fuel)
  from Suc.prems(2) obtain f' where f': "fuel' = Suc f'" "fuel \<le> f'" by (cases fuel') auto
  obtain \<sigma> queue circ where s: "s = (\<sigma>, queue, circ)" by (cases s)
  have m: "map_option snd (PluginSpec_unloadQueue f' x t) = Some r"
    if "map_option snd (PluginSpec_unloadQueue fuel x t) = Some r" for x t r
  proof -
    from that obtain z where z: "PluginSpec_unloadQueue fuel x t = Some z" and r: "r = snd z"
      by (cases "PluginSpec_unloadQueue fuel x t") auto
    from Suc.IH [OF z f'(2)] r show ?thesis by simp
  qed
  have d: "foreach_opt (\<lambda>p s. map_option snd (PluginSpec_unloadQueue fuel p s)) ps t = Some r
           \<Longrightarrow> foreach_opt (\<lambda>p s. map_option snd (PluginSpec_unloadQueue f' p s)) ps t = Some r"
    for ps t r
    by (rule foreach_opt_mono [OF m])
  show ?case
  proof (cases "foreach_opt (\<lambda>p s. map_option snd (PluginSpec_unloadQueue fuel p s))
                  (providesSpecs (\<sigma> ! q)) (\<sigma>, queue, circ @ [q])")
    case None
    with Suc.prems(1) show ?thesis
      unfolding f' s PluginSpec_unloadQueue.simps by (auto split: if_splits)
  next
    case (Some r)
    note d [OF Some]
    with Suc.prems(1) Some show ?thesis
      unfolding f' s PluginSpec_unloadQueue.simps by (auto split: if_splits)
  qed
qed

lemma PluginSpec_resolveIndirectlyDisabled_mono:
  "PluginSpec_resolveIndirectlyDisabled fuel force p s = Some y \<Longrightarrow> fuel \<le> fuel'
   \<Longrightarrow> PluginSpec_resolveIndirectlyDisabled fuel' force p s = Some y"
proof (induction fuel arbitrary: force p s y fuel')
  case 0
  then show ?case by (cases s) (simp add: PluginSpec_resolveIndirectlyDisabled.simps)
next
  case (Suc fuel)
  from Suc.prems(2) obtain f' where f': "fuel' = Suc f'" "fuel \<le> f'" by (cases fuel') auto
  obtain \<sigma> stack where s: "s = (\<sigma>, stack)" by (cases s)
  have m: "\<And>b x s y. PluginSpec_resolveIndirectlyDisabled fuel b x s = Some y
             \<Longrightarrow> PluginSpec_resolveIndirectlyDisabled f' b x s = Some y"
    using Suc.IH f'(2) by blast
  have d: "foreach_opt (\<lambda>c s. PluginSpec_resolveIndirectlyDisabled fuel b c s) xs t = Some r
           \<Longrightarrow> foreach_opt (\<lambda>c s. PluginSpec_resolveIndirectlyDisabled f' b c s) xs t = Some r"
    for b xs t r
    by (rule foreach_opt_mono [OF m])
  let ?\<sigma>c = "\<sigma>[p := (\<sigma> ! p)\<lparr>indirectlyDisabled := True, circularDependencyDetected := True\<rparr>]"
  let ?\<sigma>1 = "if force then \<sigma>[p := (\<sigma> ! p)\<lparr>indirectlyDisabled := False\<rparr>] else \<sigma>"
  let ?\<sigma>2 = "if list_ex (unavailable ?\<sigma>1) (dependencySpecs (?\<sigma>1 ! p))
             then ?\<sigma>1[p := (?\<sigma>1 ! p)\<lparr>indirectlyDisabled := True\<rparr>] else ?\<sigma>1"
  note run = Suc.prems(1) [unfolded s PluginSpec_resolveIndirectlyDisabled.simps Let_def]
  show ?case
  proof (cases "circularDependencyDetected (\<sigma> ! p)")
    case True
    with run show ?thesis
      unfolding f' s PluginSpec_resolveIndirectlyDisabled.simps by simp
  next
    case nc: False
    show ?thesis
    proof (cases "p \<in> set stack")
      case True
      with nc run obtain r where
        r: "foreach_opt (\<lambda>c s. PluginSpec_resolveIndirectlyDisabled fuel True c s)
              (providesSpecs (?\<sigma>c ! p)) (?\<sigma>c, stack @ [p]) = Some r"
        by (auto split: option.splits)
      from d [OF r] r nc True run show ?thesis
        unfolding f' s PluginSpec_resolveIndirectlyDisabled.simps Let_def by simp
    next
      case ns: False
      show ?thesis
      proof (cases "\<not> force \<and> indirectlyDisabled (\<sigma> ! p)")
        case True
        with nc ns run show ?thesis
          unfolding f' s PluginSpec_resolveIndirectlyDisabled.simps by simp
      next
        case nf: False
        show ?thesis
        proof (cases "indirectlyDisabled (?\<sigma>2 ! p) \<or> force")
          case True
          with nc ns nf run obtain r where
            r: "foreach_opt (\<lambda>c s. PluginSpec_resolveIndirectlyDisabled fuel force c s)
                  (providesSpecs (?\<sigma>2 ! p)) (?\<sigma>2, stack @ [p]) = Some r"
            by (auto split: option.splits)
          from run have "(if circularDependencyDetected (\<sigma> ! p) then Some (\<sigma>, stack)
             else if p \<in> set stack then None
             else if \<not> force \<and> indirectlyDisabled (\<sigma> ! p) then Some (\<sigma>, stack)
             else case (if indirectlyDisabled (?\<sigma>2 ! p) \<or> force then Some r
                        else Some (?\<sigma>2, stack @ [p])) of
                    None \<Rightarrow> None
                  | Some (\<sigma>3, stack3) \<Rightarrow>
                      (case pop_this p stack3 of None \<Rightarrow> None
                       | Some stack4 \<Rightarrow> Some (\<sigma>3, stack4))) = Some y"
            using nc ns nf True by (simp only: r if_False if_True)
          then show ?thesis
            unfolding f' s PluginSpec_resolveIndirectlyDisabled.simps Let_def
            using nc ns nf True by (simp only: d [OF r] if_False if_True)
        next
          case False
          with nc ns nf run show ?thesis
            unfolding f' s PluginSpec_resolveIndirectlyDisabled.simps Let_def
            by (simp only: if_False if_True)
        qed
      qed
    qed
  qed
qed

subsection \<open>The signal is emitted nowhere but after the loop\<close>

lemma unloadPlugin_emissions:
  "count_list (snd (PluginSpec_unloadPlugin env (spec, log))) PluginsInitialized
     = count_list log PluginsInitialized"
  by (simp add: PluginSpec_unloadPlugin_def Let_def split: option.splits)

lemma unloadPlugins_emissions:
  "emissions (PluginManager_unloadPlugins env queue d) = emissions d"
proof (induction queue arbitrary: d)
  case Nil
  then show ?case by simp
next
  case (Cons p queue)
  obtain spec log where u: "PluginSpec_unloadPlugin env (objects d ! p, events d) = (spec, log)"
    by (cases "PluginSpec_unloadPlugin env (objects d ! p, events d)")
  from unloadPlugin_emissions [of env "objects d ! p" "events d"] u
  have "count_list log PluginsInitialized = emissions d" by (simp add: emissions_def)
  with u show ?case by (simp add: Cons.IH Let_def) (simp add: emissions_def)
qed

lemma unloadPlugins_stack:
  "resolvedPluginsStack (PluginManager_unloadPlugins env queue d) = resolvedPluginsStack d"
  by (induction queue arbitrary: d) (simp_all add: Let_def split: prod.splits)

lemma initializePlugin_log:
  assumes "PluginSpec_initializePlugin env (spec, log) = Some (ok, spec', log')"
  shows "\<exists>p. plugin spec = Some p \<and> plugin spec' = Some p \<and> log' = log @ [PluginInitialize p]
             \<and> ok = plugin_initialize env p"
  using assms
  by (auto simp: PluginSpec_initializePlugin_def split: option.splits if_splits)

lemma initializePlugins_loop_emissions:
  "initializePlugins_loop fuel env queue a d = Some res \<Longrightarrow>
     (case res of
        Inl d' \<Rightarrow> emissions d' = emissions d \<and> returned_for_shutdown env d'
      | Inr (a', d') \<Rightarrow> emissions d' = emissions d)"
proof (induction queue arbitrary: a d)
  case Nil
  then show ?case by auto
next
  case (Cons p rest)
  show ?case
  proof (cases "state (objects d ! p) = Loaded")
    case False
    with Cons.prems have "initializePlugins_loop fuel env rest a d = Some res" by simp
    from Cons.IH [OF this] show ?thesis .
  next
    case loaded: True
    let ?log = "events d @ [MonitorSetStatus (name (objects d ! p))]"
    from loaded Cons.prems obtain ok spec log where
      i: "PluginSpec_initializePlugin env (objects d ! p, ?log) = Some (ok, spec, log)"
      by (cases "PluginSpec_initializePlugin env (objects d ! p, ?log)") auto
    from initializePlugin_log [OF i] obtain pl where
      pl: "plugin (objects d ! p) = Some pl" "plugin spec = Some pl"
        "log = ?log @ [PluginInitialize pl]" "ok = plugin_initialize env pl"
      by blast
    let ?d1 = "d\<lparr>objects := (objects d)[p := spec], events := log\<rparr>"
    have e1: "emissions ?d1 = emissions d" by (simp add: emissions_def pl)
    show ?thesis
    proof (cases ok)
      case True
      with Cons.prems loaded i
      have "initializePlugins_loop fuel env rest a ?d1 = Some res" by (simp add: Let_def)
      from Cons.IH [OF this] show ?thesis unfolding e1 .
    next
      case failed: False
      have p1: "plugin (objects ?d1 ! p) = Some pl"
        using pl(1,2) by (cases "p < length (objects d)") (simp_all add: list_update_beyond)
      show ?thesis
      proof (cases "plugin_isShutdownRequested env pl")
        case True
        with Cons.prems loaded i failed p1
        have res: "res = Inl (?d1\<lparr>pluginWhichRequestedShutdown := name (objects ?d1 ! p)\<rparr>)"
          by (auto simp: Let_def)
        have "returned_for_shutdown env (?d1\<lparr>pluginWhichRequestedShutdown := name (objects ?d1 ! p)\<rparr>)"
          using True failed pl(3,4) by (simp add: returned_for_shutdown_def)
        with e1 res show ?thesis by (simp add: emissions_def)
      next
        case False
        with Cons.prems loaded i failed p1 obtain ok2 \<sigma>2 queue circularity where
          u: "PluginSpec_unloadQueue fuel p (objects ?d1, [], []) = Some (ok2, \<sigma>2, queue, circularity)"
          by (cases "PluginSpec_unloadQueue fuel p (objects ?d1, [], [])") (auto simp: Let_def)
        let ?d2 = "PluginManager_unloadPlugins env queue (?d1\<lparr>objects := \<sigma>2\<rparr>)"
        have e2: "emissions ?d2 = emissions d"
          using e1 by (simp add: unloadPlugins_emissions) (simp add: emissions_def)
        from Cons.prems loaded i failed p1 False u obtain \<sigma>3 stack where
          r: "PluginSpec_resolveIndirectlyDisabled fuel True p (objects ?d2, resolvedPluginsStack ?d2)
                = Some (\<sigma>3, stack)"
          by (cases "PluginSpec_resolveIndirectlyDisabled fuel True p
                       (objects ?d2, resolvedPluginsStack ?d2)") (auto simp: Let_def)
        from Cons.prems loaded i failed p1 False u r
        have l3: "initializePlugins_loop fuel env rest False
                (?d2\<lparr>objects := \<sigma>3, resolvedPluginsStack := stack\<rparr>) = Some res"
          by (simp add: Let_def)
        have e3: "emissions (?d2\<lparr>objects := \<sigma>3, resolvedPluginsStack := stack\<rparr>) = emissions d"
          using e2 by (simp add: emissions_def)
        from Cons.IH [OF l3] show ?thesis unfolding e3 .
      qed
    qed
  qed
qed

lemma manager_loadQueue_events:
  "PluginManager_loadQueue fuel d = Some (queue, d') \<Longrightarrow> events d' = events d"
  by (auto simp: PluginManager_loadQueue_def Let_def split: option.splits)

text \<open>
  Whenever \<^verbatim>\<open>initializePlugins\<close> returns: the signal was emitted once, as the last
  thing, unless the call came back from inside the loop; then it was not emitted,
  and the result is \<^verbatim>\<open>false\<close>.
\<close>

lemma initializePlugins_emissions:
  assumes "PluginManager_initializePlugins fuel env d = Some (r, d')"
  shows "if returned_for_shutdown env d' then emissions d' = emissions d \<and> \<not> r
         else emissions d' = emissions d + 1 \<and> last (events d') = PluginsInitialized"
proof -
  from assms obtain queue d1 where
    q: "PluginManager_loadQueue fuel d = Some (queue, d1)"
    by (cases "PluginManager_loadQueue fuel d") (auto simp: PluginManager_initializePlugins_def)
  have e1: "emissions (d1\<lparr>pluginWhichRequestedShutdown := []\<rparr>) = emissions d"
    using manager_loadQueue_events [OF q] by (simp add: emissions_def)
  from assms q obtain res where
    l: "initializePlugins_loop fuel env queue True (d1\<lparr>pluginWhichRequestedShutdown := []\<rparr>)
          = Some res"
    by (cases "initializePlugins_loop fuel env queue True (d1\<lparr>pluginWhichRequestedShutdown := []\<rparr>)")
       (auto simp: PluginManager_initializePlugins_def)
  note L = initializePlugins_loop_emissions [OF l]
  show ?thesis
  proof (cases res)
    case (Inl d2)
    with assms q l have "r = False" "d' = d2"
      by (simp_all add: PluginManager_initializePlugins_def)
    with L Inl e1 show ?thesis by simp
  next
    case (Inr x)
    obtain a d2 where x: "x = (a, d2)" by (cases x)
    with assms q l Inr have d': "d' = d2\<lparr>events := events d2 @ [PluginsInitialized]\<rparr>"
      by (simp add: PluginManager_initializePlugins_def)
    from L Inr x e1 have "emissions d2 = emissions d" by simp
    with d' show ?thesis by (simp add: emissions_def returned_for_shutdown_def)
  qed
qed

subsection \<open>Stores the manager can work on\<close>

lemma loadable_cong:
  assumes L: "loadable \<sigma>" and l: "length \<sigma>' = length \<sigma>"
    and e: "\<And>p. p < length \<sigma> \<Longrightarrow>
              dependencySpecs (\<sigma>' ! p) = dependencySpecs (\<sigma> ! p)
              \<and> providesSpecs (\<sigma>' ! p) = providesSpecs (\<sigma> ! p)
              \<and> circularDependencyDetected (\<sigma>' ! p) = circularDependencyDetected (\<sigma> ! p)
              \<and> state_rank Resolved \<le> state_rank (state (\<sigma>' ! p))
              \<and> (state (\<sigma>' ! p) = Loaded \<longrightarrow> plugin (\<sigma>' ! p) \<noteq> None)"
  shows "loadable \<sigma>'"
proof -
  have "dep_rel \<sigma>' = dep_rel \<sigma>" using l e by (auto simp: dep_rel_def)
  with L l e show ?thesis by (simp add: loadable_def resolved_graph_def)
qed

lemma loadable_update:
  assumes L: "loadable \<sigma>"
    and e: "dependencySpecs spec = dependencySpecs (\<sigma> ! p)"
      "providesSpecs spec = providesSpecs (\<sigma> ! p)"
      "circularDependencyDetected spec = circularDependencyDetected (\<sigma> ! p)"
      "state_rank Resolved \<le> state_rank (state spec)"
      "state spec = Loaded \<longrightarrow> plugin spec \<noteq> None"
  shows "loadable (\<sigma>[p := spec])"
proof (rule loadable_cong [OF L])
  show "length (\<sigma>[p := spec]) = length \<sigma>" by simp
next
  fix r assume r: "r < length \<sigma>"
  show "dependencySpecs (\<sigma>[p := spec] ! r) = dependencySpecs (\<sigma> ! r)
        \<and> providesSpecs (\<sigma>[p := spec] ! r) = providesSpecs (\<sigma> ! r)
        \<and> circularDependencyDetected (\<sigma>[p := spec] ! r) = circularDependencyDetected (\<sigma> ! r)
        \<and> state_rank Resolved \<le> state_rank (state (\<sigma>[p := spec] ! r))
        \<and> (state (\<sigma>[p := spec] ! r) = Loaded \<longrightarrow> plugin (\<sigma>[p := spec] ! r) \<noteq> None)"
  proof (cases "r = p")
    case True
    with r e show ?thesis by simp
  next
    case False
    with r L show ?thesis by (simp add: loadable_def)
  qed
qed

lemma errors_only_refl: "errors_only \<sigma> \<sigma>"
  by (simp add: errors_only_def)

lemma errors_only_length: "errors_only \<sigma> \<sigma>' \<Longrightarrow> length \<sigma>' = length \<sigma>"
  by (simp add: errors_only_def)

lemma errors_only_nth:
  "errors_only \<sigma> \<sigma>' \<Longrightarrow> p < length \<sigma> \<Longrightarrow>
   \<sigma>' ! p = (\<sigma> ! p)\<lparr>hasError := hasError (\<sigma>' ! p), errorString := errorString (\<sigma>' ! p)\<rparr>"
  by (simp add: errors_only_def)

lemma errors_only_fields:
  assumes "errors_only \<sigma> \<sigma>'" "p < length \<sigma>"
  shows "dependencySpecs (\<sigma>' ! p) = dependencySpecs (\<sigma> ! p)"
    and "providesSpecs (\<sigma>' ! p) = providesSpecs (\<sigma> ! p)"
    and "state (\<sigma>' ! p) = state (\<sigma> ! p)"
    and "plugin (\<sigma>' ! p) = plugin (\<sigma> ! p)"
    and "circularDependencyDetected (\<sigma>' ! p) = circularDependencyDetected (\<sigma> ! p)"
proof -
  note e = errors_only_nth [OF assms]
  show "dependencySpecs (\<sigma>' ! p) = dependencySpecs (\<sigma> ! p)" by (subst e) simp
  show "providesSpecs (\<sigma>' ! p) = providesSpecs (\<sigma> ! p)" by (subst e) simp
  show "state (\<sigma>' ! p) = state (\<sigma> ! p)" by (subst e) simp
  show "plugin (\<sigma>' ! p) = plugin (\<sigma> ! p)" by (subst e) simp
  show "circularDependencyDetected (\<sigma>' ! p) = circularDependencyDetected (\<sigma> ! p)"
    by (subst e) simp
qed

lemma errors_only_trans:
  assumes "errors_only \<sigma> \<sigma>'" "errors_only \<sigma>' \<sigma>''"
  shows "errors_only \<sigma> \<sigma>''"
proof -
  have l: "length \<sigma>' = length \<sigma>" "length \<sigma>'' = length \<sigma>"
    using assms by (simp_all add: errors_only_def)
  have "\<sigma>'' ! p = (\<sigma> ! p)\<lparr>hasError := hasError (\<sigma>'' ! p), errorString := errorString (\<sigma>'' ! p)\<rparr>"
    if "p < length \<sigma>" for p
  proof -
    from that l have p': "p < length \<sigma>'" by simp
    have "\<sigma>'' ! p = (\<sigma>' ! p)\<lparr>hasError := hasError (\<sigma>'' ! p), errorString := errorString (\<sigma>'' ! p)\<rparr>"
      by (rule errors_only_nth [OF assms(2) p'])
    also have "\<sigma>' ! p = (\<sigma> ! p)\<lparr>hasError := hasError (\<sigma>' ! p), errorString := errorString (\<sigma>' ! p)\<rparr>"
      by (rule errors_only_nth [OF assms(1) that])
    finally show ?thesis by simp
  qed
  with l show ?thesis by (simp add: errors_only_def)
qed

lemma errors_only_reportError: "errors_only \<sigma> (\<sigma>[p := reportError e (\<sigma> ! p)])"
proof -
  have "\<sigma>[p := reportError e (\<sigma> ! p)] ! r
          = (\<sigma> ! r)\<lparr>hasError := hasError (\<sigma>[p := reportError e (\<sigma> ! p)] ! r),
                       errorString := errorString (\<sigma>[p := reportError e (\<sigma> ! p)] ! r)\<rparr>"
    if "r < length \<sigma>" for r
  proof (cases "r = p")
    case True
    with that show ?thesis by (simp add: reportError_def)
  next
    case False
    then show ?thesis by simp
  qed
  then show ?thesis by (simp add: errors_only_def)
qed

lemma errors_only_loadable:
  assumes "loadable \<sigma>" "errors_only \<sigma> \<sigma>'"
  shows "loadable \<sigma>'"
proof (rule loadable_cong [OF assms(1) errors_only_length [OF assms(2)]])
  fix p assume p: "p < length \<sigma>"
  with assms(1) errors_only_fields [OF assms(2) p]
  show "dependencySpecs (\<sigma>' ! p) = dependencySpecs (\<sigma> ! p)
        \<and> providesSpecs (\<sigma>' ! p) = providesSpecs (\<sigma> ! p)
        \<and> circularDependencyDetected (\<sigma>' ! p) = circularDependencyDetected (\<sigma> ! p)
        \<and> state_rank Resolved \<le> state_rank (state (\<sigma>' ! p))
        \<and> (state (\<sigma>' ! p) = Loaded \<longrightarrow> plugin (\<sigma>' ! p) \<noteq> None)"
    by (simp add: loadable_def)
qed

lemma flags_only_loadable:
  assumes "loadable \<sigma>" "flags_only \<sigma> \<sigma>'"
  shows "loadable \<sigma>'"
proof (rule loadable_cong [OF assms(1) flags_only_length [OF assms(2)]])
  fix p assume p: "p < length \<sigma>"
  note e = flags_only_nth [OF assms(2) p]
  have "state (\<sigma>' ! p) = state (\<sigma> ! p)" by (subst e) simp
  moreover have "plugin (\<sigma>' ! p) = plugin (\<sigma> ! p)" by (subst e) simp
  ultimately show "dependencySpecs (\<sigma>' ! p) = dependencySpecs (\<sigma> ! p)
        \<and> providesSpecs (\<sigma>' ! p) = providesSpecs (\<sigma> ! p)
        \<and> circularDependencyDetected (\<sigma>' ! p) = circularDependencyDetected (\<sigma> ! p)
        \<and> state_rank Resolved \<le> state_rank (state (\<sigma>' ! p))
        \<and> (state (\<sigma>' ! p) = Loaded \<longrightarrow> plugin (\<sigma>' ! p) \<noteq> None)"
    using assms(1) p flags_only_fields(1,2,6) [OF assms(2) p] by (simp add: loadable_def)
qed

lemma unloadPlugin_loadable:
  assumes "loadable \<sigma>"
  shows "loadable (\<sigma>[p := fst (PluginSpec_unloadPlugin env (\<sigma> ! p, log))])"
proof (cases "p < length \<sigma>")
  case False
  with assms show ?thesis by (simp add: list_update_beyond)
next
  case True
  show ?thesis
  proof (cases "plugin (\<sigma> ! p)")
    case None
    with assms show ?thesis by (simp add: PluginSpec_unloadPlugin_def)
  next
    case (Some pl)
    then have "fst (PluginSpec_unloadPlugin env (\<sigma> ! p, log))
                 = (\<sigma> ! p)\<lparr>plugin := None, state := Resolved\<rparr>"
      by (simp add: PluginSpec_unloadPlugin_def Let_def)
    then show ?thesis by (simp add: loadable_update [OF assms])
  qed
qed

lemma unloadPlugins_loadable:
  "loadable (objects d) \<Longrightarrow> loadable (objects (PluginManager_unloadPlugins env queue d))"
proof (induction queue arbitrary: d)
  case Nil
  then show ?case by simp
next
  case (Cons p queue)
  obtain spec log where u: "PluginSpec_unloadPlugin env (objects d ! p, events d) = (spec, log)"
    by (cases "PluginSpec_unloadPlugin env (objects d ! p, events d)")
  from unloadPlugin_loadable [OF Cons.prems, of p env "events d"] u
  have "loadable ((objects d)[p := spec])" by simp
  with u show ?case by (simp add: Cons.IH Let_def)
qed

subsection \<open>The queue walks return\<close>

lemma loadQueue_dependencies_returns:
  assumes rec: "\<And>c \<sigma> queue circ. c \<in> set ds \<Longrightarrow> errors_only \<sigma>0 \<sigma> \<Longrightarrow> set queue \<subseteq> {..<length \<sigma>0}
            \<Longrightarrow> \<exists>fuel ok \<sigma>' queue' circ'.
                  PluginSpec_loadQueue fuel c (\<sigma>, queue, circ) = Some (ok, \<sigma>', queue', circ')
                  \<and> errors_only \<sigma> \<sigma>' \<and> set queue' \<subseteq> {..<length \<sigma>0}"
  shows "errors_only \<sigma>0 \<sigma> \<Longrightarrow> set queue \<subseteq> {..<length \<sigma>0}
         \<Longrightarrow> \<exists>fuel ok \<sigma>' queue' circ'.
               loadQueue_dependencies (\<lambda>p s. PluginSpec_loadQueue fuel p s) q ds (\<sigma>, queue, circ)
                 = Some (ok, \<sigma>', queue', circ')
               \<and> errors_only \<sigma> \<sigma>' \<and> set queue' \<subseteq> {..<length \<sigma>0}"
  using rec
proof (induction ds arbitrary: \<sigma> queue circ)
  case Nil
  then show ?case by (auto simp: errors_only_refl)
next
  case (Cons c ds)
  from Cons.prems(3) [of c \<sigma> queue circ] Cons.prems(1,2) obtain fuel1 ok \<sigma>1 queue1 circ1 where
    c: "PluginSpec_loadQueue fuel1 c (\<sigma>, queue, circ) = Some (ok, \<sigma>1, queue1, circ1)"
    and e1: "errors_only \<sigma> \<sigma>1" and q1: "set queue1 \<subseteq> {..<length \<sigma>0}"
    by auto
  show ?case
  proof (cases ok)
    case False
    let ?\<sigma>' = "\<sigma>1[q := reportError (dependency_failed_message (name (\<sigma>1 ! q)) (name (\<sigma>1 ! c)))
                            (\<sigma>1 ! q)]"
    have "loadQueue_dependencies (\<lambda>p s. PluginSpec_loadQueue fuel1 p s) q (c # ds) (\<sigma>, queue, circ)
            = Some (False, ?\<sigma>', queue1, circ1)"
      using c False by simp
    moreover have "errors_only \<sigma> ?\<sigma>'"
      by (rule errors_only_trans [OF e1 errors_only_reportError])
    ultimately show ?thesis using q1 by blast
  next
    case True
    have e01: "errors_only \<sigma>0 \<sigma>1" by (rule errors_only_trans [OF Cons.prems(1) e1])
    have "\<exists>fuel ok \<sigma>' queue' circ'.
               loadQueue_dependencies (\<lambda>p s. PluginSpec_loadQueue fuel p s) q ds (\<sigma>1, queue1, circ1)
                 = Some (ok, \<sigma>', queue', circ')
               \<and> errors_only \<sigma>1 \<sigma>' \<and> set queue' \<subseteq> {..<length \<sigma>0}"
      by (rule Cons.IH [OF e01 q1]) (rule Cons.prems(3), simp_all)
    then obtain fuel2 ok2 \<sigma>2 queue2 circ2 where
      r: "loadQueue_dependencies (\<lambda>p s. PluginSpec_loadQueue fuel2 p s) q ds (\<sigma>1, queue1, circ1)
            = Some (ok2, \<sigma>2, queue2, circ2)"
      and e2: "errors_only \<sigma>1 \<sigma>2" and q2: "set queue2 \<subseteq> {..<length \<sigma>0}"
      by blast
    let ?f = "max fuel1 fuel2"
    have c': "PluginSpec_loadQueue ?f c (\<sigma>, queue, circ) = Some (ok, \<sigma>1, queue1, circ1)"
      by (rule PluginSpec_loadQueue_mono [OF c]) simp
    have m: "PluginSpec_loadQueue ?f x s = Some y" if "PluginSpec_loadQueue fuel2 x s = Some y"
      for x s y
      by (rule PluginSpec_loadQueue_mono [OF that]) simp
    have r': "loadQueue_dependencies (\<lambda>p s. PluginSpec_loadQueue ?f p s) q ds (\<sigma>1, queue1, circ1)
            = Some (ok2, \<sigma>2, queue2, circ2)"
      by (rule loadQueue_dependencies_mono [OF m r])
    have "loadQueue_dependencies (\<lambda>p s. PluginSpec_loadQueue ?f p s) q (c # ds) (\<sigma>, queue, circ)
            = Some (ok2, \<sigma>2, queue2, circ2)"
      using c' r' True by simp
    moreover have "errors_only \<sigma> \<sigma>2" by (rule errors_only_trans [OF e1 e2])
    ultimately show ?thesis using q2 by blast
  qed
qed

lemma loadQueue_returns:
  assumes L: "loadable \<sigma>0"
  shows "q < length \<sigma>0 \<Longrightarrow> errors_only \<sigma>0 \<sigma> \<Longrightarrow> set queue \<subseteq> {..<length \<sigma>0}
         \<Longrightarrow> \<exists>fuel ok \<sigma>' queue' circ'.
               PluginSpec_loadQueue fuel q (\<sigma>, queue, circ) = Some (ok, \<sigma>', queue', circ')
               \<and> errors_only \<sigma> \<sigma>' \<and> set queue' \<subseteq> {..<length \<sigma>0}"
proof -
  from L have G: "resolved_graph \<sigma>0" by (simp add: loadable_def)
  show "q < length \<sigma>0 \<Longrightarrow> errors_only \<sigma>0 \<sigma> \<Longrightarrow> set queue \<subseteq> {..<length \<sigma>0}
         \<Longrightarrow> \<exists>fuel ok \<sigma>' queue' circ'.
               PluginSpec_loadQueue fuel q (\<sigma>, queue, circ) = Some (ok, \<sigma>', queue', circ')
               \<and> errors_only \<sigma> \<sigma>' \<and> set queue' \<subseteq> {..<length \<sigma>0}"
    using wf_dep_rel_converse [OF G]
  proof (induction q arbitrary: \<sigma> queue circ rule: wf_induct_rule)
    case (less q)
    note ql = less.prems(1) and e0 = less.prems(2) and qr = less.prems(3)
    have st: "state (\<sigma> ! q) = state (\<sigma>0 ! q)" by (rule errors_only_fields(3) [OF e0 ql])
    have ds: "dependencySpecs (\<sigma> ! q) = dependencySpecs (\<sigma>0 ! q)"
      by (rule errors_only_fields(1) [OF e0 ql])
    have rank: "\<not> state_rank (state (\<sigma> ! q)) < state_rank Resolved"
      using L ql st by (simp add: loadable_def not_less)
    have rec: "\<exists>fuel ok \<sigma>' queue' circ'.
                  PluginSpec_loadQueue fuel c (\<sigma>1, queue1, circ1) = Some (ok, \<sigma>', queue', circ')
                  \<and> errors_only \<sigma>1 \<sigma>' \<and> set queue' \<subseteq> {..<length \<sigma>0}"
      if "c \<in> set (dependencySpecs (\<sigma>0 ! q))" "errors_only \<sigma>0 \<sigma>1" "set queue1 \<subseteq> {..<length \<sigma>0}"
      for c \<sigma>1 queue1 circ1
    proof -
      from that(1) ql have r: "(q, c) \<in> dep_rel \<sigma>0" by (simp add: dep_rel_def)
      then have cl: "c < length \<sigma>0" by (rule dep_rel_less2 [OF G])
      from r have "(c, q) \<in> (dep_rel \<sigma>0)\<inverse>" by simp
      from less.IH [OF this cl that(2,3)] show ?thesis .
    qed
    from loadQueue_dependencies_returns [of "dependencySpecs (\<sigma>0 ! q)" \<sigma>0 \<sigma> queue q "circ @ [q]",
        OF rec e0 qr]
    obtain fuel ok \<sigma>' queue' circ' where
      d: "loadQueue_dependencies (\<lambda>p s. PluginSpec_loadQueue fuel p s) q (dependencySpecs (\<sigma>0 ! q))
            (\<sigma>, queue, circ @ [q]) = Some (ok, \<sigma>', queue', circ')"
      and e': "errors_only \<sigma> \<sigma>'" and q': "set queue' \<subseteq> {..<length \<sigma>0}"
      by blast
    have "\<exists>ok2 \<sigma>2 queue2 circ2.
            PluginSpec_loadQueue (Suc fuel) q (\<sigma>, queue, circ) = Some (ok2, \<sigma>2, queue2, circ2)
            \<and> errors_only \<sigma> \<sigma>2 \<and> set queue2 \<subseteq> {..<length \<sigma>0}"
      using rank d e' q' qr ql
      by (auto simp: PluginSpec_loadQueue.simps ds errors_only_refl errors_only_reportError)
    then show ?case by blast
  qed
qed

lemma unloadQueue_provides_returns:
  assumes rec: "\<And>c \<sigma> queue circ. c \<in> set ps \<Longrightarrow> errors_only \<sigma>0 \<sigma>
            \<Longrightarrow> \<exists>fuel ok \<sigma>' queue' circ'.
                  PluginSpec_unloadQueue fuel c (\<sigma>, queue, circ) = Some (ok, \<sigma>', queue', circ')
                  \<and> errors_only \<sigma> \<sigma>'"
  shows "errors_only \<sigma>0 \<sigma>
         \<Longrightarrow> \<exists>fuel \<sigma>' queue' circ'.
               foreach_opt (\<lambda>p s. map_option snd (PluginSpec_unloadQueue fuel p s)) ps
                 (\<sigma>, queue, circ) = Some (\<sigma>', queue', circ')
               \<and> errors_only \<sigma> \<sigma>'"
  using rec
proof (induction ps arbitrary: \<sigma> queue circ)
  case Nil
  then show ?case by (auto simp: errors_only_refl)
next
  case (Cons c ps)
  from Cons.prems(2) [of c \<sigma> queue circ] Cons.prems(1) obtain fuel1 ok \<sigma>1 queue1 circ1 where
    c: "PluginSpec_unloadQueue fuel1 c (\<sigma>, queue, circ) = Some (ok, \<sigma>1, queue1, circ1)"
    and e1: "errors_only \<sigma> \<sigma>1"
    by auto
  have e01: "errors_only \<sigma>0 \<sigma>1" by (rule errors_only_trans [OF Cons.prems(1) e1])
  have "\<exists>fuel \<sigma>' queue' circ'.
          foreach_opt (\<lambda>p s. map_option snd (PluginSpec_unloadQueue fuel p s)) ps
            (\<sigma>1, queue1, circ1) = Some (\<sigma>', queue', circ')
          \<and> errors_only \<sigma>1 \<sigma>'"
    by (rule Cons.IH [OF e01]) (rule Cons.prems(2), simp_all)
  then obtain fuel2 \<sigma>2 queue2 circ2 where
    r: "foreach_opt (\<lambda>p s. map_option snd (PluginSpec_unloadQueue fuel2 p s)) ps
          (\<sigma>1, queue1, circ1) = Some (\<sigma>2, queue2, circ2)"
    and e2: "errors_only \<sigma>1 \<sigma>2"
    by blast
  let ?f = "max fuel1 fuel2"
  have c': "PluginSpec_unloadQueue ?f c (\<sigma>, queue, circ) = Some (ok, \<sigma>1, queue1, circ1)"
    by (rule PluginSpec_unloadQueue_mono [OF c]) simp
  have m: "map_option snd (PluginSpec_unloadQueue ?f x s) = Some y"
    if "map_option snd (PluginSpec_unloadQueue fuel2 x s) = Some y" for x s y
  proof -
    from that obtain z where z: "PluginSpec_unloadQueue fuel2 x s = Some z" and y: "y = snd z"
      by (cases "PluginSpec_unloadQueue fuel2 x s") auto
    have "PluginSpec_unloadQueue ?f x s = Some z"
      by (rule PluginSpec_unloadQueue_mono [OF z]) simp
    with y show ?thesis by simp
  qed
  have r': "foreach_opt (\<lambda>p s. map_option snd (PluginSpec_unloadQueue ?f p s)) ps
          (\<sigma>1, queue1, circ1) = Some (\<sigma>2, queue2, circ2)"
    by (rule foreach_opt_mono [OF m r])
  have "foreach_opt (\<lambda>p s. map_option snd (PluginSpec_unloadQueue ?f p s)) (c # ps)
          (\<sigma>, queue, circ) = Some (\<sigma>2, queue2, circ2)"
    using c' r' by simp
  moreover have "errors_only \<sigma> \<sigma>2" by (rule errors_only_trans [OF e1 e2])
  ultimately show ?case by blast
qed

lemma unloadQueue_returns:
  assumes L: "loadable \<sigma>0"
  shows "q < length \<sigma>0 \<Longrightarrow> errors_only \<sigma>0 \<sigma>
         \<Longrightarrow> \<exists>fuel ok \<sigma>' queue' circ'.
               PluginSpec_unloadQueue fuel q (\<sigma>, queue, circ) = Some (ok, \<sigma>', queue', circ')
               \<and> errors_only \<sigma> \<sigma>'"
proof -
  from L have G: "resolved_graph \<sigma>0" by (simp add: loadable_def)
  show "q < length \<sigma>0 \<Longrightarrow> errors_only \<sigma>0 \<sigma>
         \<Longrightarrow> \<exists>fuel ok \<sigma>' queue' circ'.
               PluginSpec_unloadQueue fuel q (\<sigma>, queue, circ) = Some (ok, \<sigma>', queue', circ')
               \<and> errors_only \<sigma> \<sigma>'"
    using wf_dep_rel [OF G]
  proof (induction q arbitrary: \<sigma> queue circ rule: wf_induct_rule)
    case (less q)
    note ql = less.prems(1) and e0 = less.prems(2)
    have st: "state (\<sigma> ! q) = state (\<sigma>0 ! q)" by (rule errors_only_fields(3) [OF e0 ql])
    have ps: "providesSpecs (\<sigma> ! q) = providesSpecs (\<sigma>0 ! q)"
      by (rule errors_only_fields(2) [OF e0 ql])
    have rank: "\<not> state_rank (state (\<sigma> ! q)) < state_rank Resolved"
      using L ql st by (simp add: loadable_def not_less)
    have rec: "\<exists>fuel ok \<sigma>' queue' circ'.
                  PluginSpec_unloadQueue fuel c (\<sigma>1, queue1, circ1) = Some (ok, \<sigma>', queue', circ')
                  \<and> errors_only \<sigma>1 \<sigma>'"
      if "c \<in> set (providesSpecs (\<sigma>0 ! q))" "errors_only \<sigma>0 \<sigma>1"
      for c \<sigma>1 queue1 circ1
    proof -
      from child_dep_rel [OF G ql] that(1)
      have "c < length \<sigma>0" "(c, q) \<in> dep_rel \<sigma>0" by blast+
      from less.IH [OF this(2,1) that(2)] show ?thesis .
    qed
    from unloadQueue_provides_returns [of "providesSpecs (\<sigma>0 ! q)" \<sigma>0 \<sigma> queue "circ @ [q]",
        OF rec e0]
    obtain fuel \<sigma>' queue' circ' where
      d: "foreach_opt (\<lambda>p s. map_option snd (PluginSpec_unloadQueue fuel p s))
            (providesSpecs (\<sigma>0 ! q)) (\<sigma>, queue, circ @ [q]) = Some (\<sigma>', queue', circ')"
      and e': "errors_only \<sigma> \<sigma>'"
      by blast
    have "\<exists>ok2 \<sigma>2 queue2 circ2.
            PluginSpec_unloadQueue (Suc fuel) q (\<sigma>, queue, circ) = Some (ok2, \<sigma>2, queue2, circ2)
            \<and> errors_only \<sigma> \<sigma>2"
      using rank d e'
      by (auto simp: PluginSpec_unloadQueue.simps ps errors_only_refl errors_only_reportError)
    then show ?case by blast
  qed
qed

subsection \<open>The load queue of the manager\<close>

lemma qmap_insert_values: "snd ` set (qmap_insert k v m) \<subseteq> insert v (snd ` set m)"
  by (induction m) (force split: if_splits)+

lemma foldl_qmap_insert_values:
  "snd ` set (foldl (\<lambda>m p. qmap_insert (f p) p m) m0 xs) \<subseteq> set xs \<union> snd ` set m0"
proof (induction xs arbitrary: m0)
  case Nil
  then show ?case by simp
next
  case (Cons x xs)
  from Cons.IH [of "qmap_insert (f x) x m0"] qmap_insert_values [of "f x" x m0]
  show ?case by auto
qed

lemma loadQueue_step_mono:
  assumes "loadQueue_step fuel p s = Some y" "fuel \<le> fuel'"
  shows "loadQueue_step fuel' p s = Some y"
proof -
  obtain \<sigma> queue where s: "s = (\<sigma>, queue)" by (cases s)
  show ?thesis
  proof (cases "state_rank Resolved \<le> state_rank (state (\<sigma> ! p))")
    case False
    with assms(1) show ?thesis by (auto simp: loadQueue_step_def s)
  next
    case True
    with assms(1) obtain z where z: "PluginSpec_loadQueue fuel p (\<sigma>, queue, []) = Some z"
      by (cases "PluginSpec_loadQueue fuel p (\<sigma>, queue, [])") (auto simp: loadQueue_step_def s)
    from PluginSpec_loadQueue_mono [OF z assms(2)] z assms(1) True show ?thesis
      by (simp add: loadQueue_step_def s)
  qed
qed

lemma PluginManager_loadQueue_mono:
  assumes "PluginManager_loadQueue fuel d = Some y" "fuel \<le> fuel'"
  shows "PluginManager_loadQueue fuel' d = Some y"
proof -
  let ?ps = "map snd (foldl (\<lambda>m pluginSpec. qmap_insert (name (objects d ! pluginSpec)) pluginSpec m)
                          [] (map snd (m_pluginToSpec d)))"
  from assms(1) obtain z where z: "foreach_opt (loadQueue_step fuel) ?ps (objects d, []) = Some z"
    by (cases "foreach_opt (loadQueue_step fuel) ?ps (objects d, [])")
       (auto simp: PluginManager_loadQueue_def Let_def)
  have "foreach_opt (loadQueue_step fuel') ?ps (objects d, []) = Some z"
    by (rule foreach_opt_mono [OF _ z]) (erule loadQueue_step_mono, rule assms(2))
  with z assms(1) show ?thesis by (simp add: PluginManager_loadQueue_def Let_def)
qed

lemma loadQueue_steps_return:
  assumes L: "loadable \<sigma>0"
  shows "set ps \<subseteq> {..<length \<sigma>0} \<Longrightarrow> errors_only \<sigma>0 \<sigma> \<Longrightarrow> set queue \<subseteq> {..<length \<sigma>0}
         \<Longrightarrow> \<exists>fuel \<sigma>' queue'. foreach_opt (loadQueue_step fuel) ps (\<sigma>, queue) = Some (\<sigma>', queue')
               \<and> errors_only \<sigma> \<sigma>' \<and> set queue' \<subseteq> {..<length \<sigma>0}"
proof (induction ps arbitrary: \<sigma> queue)
  case Nil
  then show ?case by (auto simp: errors_only_refl)
next
  case (Cons p ps)
  from Cons.prems(1) have pl: "p < length \<sigma>0" and psl: "set ps \<subseteq> {..<length \<sigma>0}" by simp_all
  from loadQueue_returns [OF L pl Cons.prems(2,3), of "[]"] obtain fuel1 ok \<sigma>1 queue1 circ1 where
    c: "PluginSpec_loadQueue fuel1 p (\<sigma>, queue, []) = Some (ok, \<sigma>1, queue1, circ1)"
    and e1: "errors_only \<sigma> \<sigma>1" and q1: "set queue1 \<subseteq> {..<length \<sigma>0}"
    by blast
  have "state_rank Resolved \<le> state_rank (state (\<sigma> ! p))"
    using L pl errors_only_fields(3) [OF Cons.prems(2) pl] by (simp add: loadable_def)
  with c have s1: "loadQueue_step fuel1 p (\<sigma>, queue) = Some (\<sigma>1, queue1)"
    by (simp add: loadQueue_step_def)
  from Cons.IH [OF psl errors_only_trans [OF Cons.prems(2) e1] q1]
  obtain fuel2 \<sigma>2 queue2 where
    r: "foreach_opt (loadQueue_step fuel2) ps (\<sigma>1, queue1) = Some (\<sigma>2, queue2)"
    and e2: "errors_only \<sigma>1 \<sigma>2" and q2: "set queue2 \<subseteq> {..<length \<sigma>0}"
    by blast
  let ?f = "max fuel1 fuel2"
  have s1': "loadQueue_step ?f p (\<sigma>, queue) = Some (\<sigma>1, queue1)"
    by (rule loadQueue_step_mono [OF s1]) simp
  have r': "foreach_opt (loadQueue_step ?f) ps (\<sigma>1, queue1) = Some (\<sigma>2, queue2)"
    by (rule foreach_opt_mono [OF _ r]) (erule loadQueue_step_mono, simp)
  from s1' r' have "foreach_opt (loadQueue_step ?f) (p # ps) (\<sigma>, queue) = Some (\<sigma>2, queue2)"
    by simp
  with errors_only_trans [OF e1 e2] q2 show ?case by blast
qed

lemma PluginManager_loadQueue_returns:
  assumes "manager_inv d"
  shows "\<exists>fuel queue d'. PluginManager_loadQueue fuel d = Some (queue, d')
           \<and> loadable (objects d') \<and> set queue \<subseteq> {..<length (objects d')}
           \<and> resolvedPluginsStack d' = []"
proof -
  let ?ps = "map snd (foldl (\<lambda>m pluginSpec. qmap_insert (name (objects d ! pluginSpec)) pluginSpec m)
                          [] (map snd (m_pluginToSpec d)))"
  from assms have L: "loadable (objects d)"
    and v: "snd ` set (m_pluginToSpec d) \<subseteq> {..<length (objects d)}"
    and st: "resolvedPluginsStack d = []"
    by (simp_all add: manager_inv_def)
  have "set ?ps \<subseteq> set (map snd (m_pluginToSpec d))"
    using foldl_qmap_insert_values [of "\<lambda>p. name (objects d ! p)" "[]" "map snd (m_pluginToSpec d)"]
    by simp
  with v have ps: "set ?ps \<subseteq> {..<length (objects d)}" by auto
  from loadQueue_steps_return [OF L ps errors_only_refl, of "[]"] obtain fuel \<sigma>' queue where
    r: "foreach_opt (loadQueue_step fuel) ?ps (objects d, []) = Some (\<sigma>', queue)"
    and e: "errors_only (objects d) \<sigma>'" and q: "set queue \<subseteq> {..<length (objects d)}"
    by auto
  let ?d' = "d\<lparr>objects := \<sigma>'\<rparr>"
  from r have a: "PluginManager_loadQueue fuel d = Some (queue, ?d')"
    by (simp add: PluginManager_loadQueue_def Let_def)
  have b: "loadable (objects ?d')"
    using errors_only_loadable [OF L e] by simp
  have c: "set queue \<subseteq> {..<length (objects ?d')}"
    using q errors_only_length [OF e] by simp
  have "resolvedPluginsStack ?d' = []" using st by simp
  with a b c show ?thesis by blast
qed

subsection \<open>The loop over the load queue returns\<close>

lemma initializePlugins_loop_mono:
  "initializePlugins_loop fuel env queue a d = Some res \<Longrightarrow> fuel \<le> fuel'
   \<Longrightarrow> initializePlugins_loop fuel' env queue a d = Some res"
proof (induction queue arbitrary: a d)
  case Nil
  then show ?case by simp
next
  case (Cons p rest)
  show ?case
  proof (cases "state (objects d ! p) = Loaded")
    case False
    with Cons.prems(1) have "initializePlugins_loop fuel env rest a d = Some res" by simp
    from Cons.IH [OF this Cons.prems(2)] False show ?thesis by simp
  next
    case loaded: True
    let ?log = "events d @ [MonitorSetStatus (name (objects d ! p))]"
    from loaded Cons.prems(1) obtain ok spec log where
      i: "PluginSpec_initializePlugin env (objects d ! p, ?log) = Some (ok, spec, log)"
      by (cases "PluginSpec_initializePlugin env (objects d ! p, ?log)") auto
    let ?d1 = "d\<lparr>objects := (objects d)[p := spec], events := log\<rparr>"
    show ?thesis
    proof (cases ok)
      case True
      with Cons.prems(1) loaded i
      have "initializePlugins_loop fuel env rest a ?d1 = Some res" by (simp add: Let_def)
      from Cons.IH [OF this Cons.prems(2)] loaded i True show ?thesis by (simp add: Let_def)
    next
      case failed: False
      show ?thesis
      proof (cases "plugin (objects ?d1 ! p)")
        case None
        with Cons.prems(1) loaded i failed show ?thesis by (simp add: Let_def)
      next
        case (Some pl)
        show ?thesis
        proof (cases "plugin_isShutdownRequested env pl")
          case True
          with Cons.prems(1) loaded i failed Some show ?thesis by (simp add: Let_def)
        next
          case False
          with Cons.prems(1) loaded i failed Some obtain ok2 \<sigma>2 queue circularity where
            u: "PluginSpec_unloadQueue fuel p (objects ?d1, [], []) = Some (ok2, \<sigma>2, queue, circularity)"
            by (cases "PluginSpec_unloadQueue fuel p (objects ?d1, [], [])") (auto simp: Let_def)
          let ?d2 = "PluginManager_unloadPlugins env queue (?d1\<lparr>objects := \<sigma>2\<rparr>)"
          from Cons.prems(1) loaded i failed Some False u obtain \<sigma>3 stack where
            r: "PluginSpec_resolveIndirectlyDisabled fuel True p (objects ?d2, resolvedPluginsStack ?d2)
                  = Some (\<sigma>3, stack)"
            by (cases "PluginSpec_resolveIndirectlyDisabled fuel True p
                         (objects ?d2, resolvedPluginsStack ?d2)") (auto simp: Let_def)
          from Cons.prems(1) loaded i failed Some False u r
          have l3: "initializePlugins_loop fuel env rest False
                  (?d2\<lparr>objects := \<sigma>3, resolvedPluginsStack := stack\<rparr>) = Some res"
            by (simp add: Let_def)
          note u' = PluginSpec_unloadQueue_mono [OF u Cons.prems(2)]
          note r' = PluginSpec_resolveIndirectlyDisabled_mono [OF r Cons.prems(2)]
          note l3' = Cons.IH [OF l3 Cons.prems(2)]
          from loaded i failed Some False u' r' l3' show ?thesis by (simp add: Let_def)
        qed
      qed
    qed
  qed
qed

lemma unloadPlugins_length:
  "length (objects (PluginManager_unloadPlugins env queue d)) = length (objects d)"
  by (induction queue arbitrary: d) (simp_all add: Let_def split: prod.splits)

lemma initializePlugins_loop_returns:
  "loadable (objects d) \<Longrightarrow> resolvedPluginsStack d = [] \<Longrightarrow> set queue \<subseteq> {..<length (objects d)}
   \<Longrightarrow> \<exists>fuel res. initializePlugins_loop fuel env queue a d = Some res"
proof (induction queue arbitrary: a d)
  case Nil
  then show ?case by simp
next
  case (Cons p rest)
  note L = Cons.prems(1) and st = Cons.prems(2)
  from Cons.prems(3) have pl: "p < length (objects d)" and rl: "set rest \<subseteq> {..<length (objects d)}"
    by simp_all
  show ?case
  proof (cases "state (objects d ! p) = Loaded")
    case False
    from Cons.IH [OF L st rl, of a] False show ?thesis by simp
  next
    case loaded: True
    with L pl obtain pg where pg: "plugin (objects d ! p) = Some pg"
      by (auto simp: loadable_def)
    let ?log = "events d @ [MonitorSetStatus (name (objects d ! p))]"
    show ?thesis
    proof (cases "plugin_initialize env pg")
      case True
      let ?spec = "(objects d ! p)\<lparr>initializationFailed := False, state := Initialized\<rparr>"
      let ?d1 = "d\<lparr>objects := (objects d)[p := ?spec], events := ?log @ [PluginInitialize pg]\<rparr>"
      have i: "PluginSpec_initializePlugin env (objects d ! p, ?log)
                 = Some (True, ?spec, ?log @ [PluginInitialize pg])"
        using pg loaded True by (simp add: PluginSpec_initializePlugin_def)
      have L1: "loadable (objects ?d1)" by (simp add: loadable_update [OF L])
      have "\<exists>fuel res. initializePlugins_loop fuel env rest a ?d1 = Some res"
        by (rule Cons.IH [OF L1]) (simp_all add: st rl)
      then obtain fuel res where "initializePlugins_loop fuel env rest a ?d1 = Some res" by blast
      with loaded i have "initializePlugins_loop fuel env (p # rest) a d = Some res"
        by (simp add: Let_def)
      then show ?thesis by blast
    next
      case failed: False
      let ?spec = "(reportError (initialization_failed_message (name (objects d ! p))) (objects d ! p))
                     \<lparr>initializationFailed := True\<rparr>"
      let ?d1 = "d\<lparr>objects := (objects d)[p := ?spec], events := ?log @ [PluginInitialize pg]\<rparr>"
      have i: "PluginSpec_initializePlugin env (objects d ! p, ?log)
                 = Some (False, ?spec, ?log @ [PluginInitialize pg])"
        using pg loaded failed by (simp add: PluginSpec_initializePlugin_def)
      have L1: "loadable (objects ?d1)" using pg loaded by (simp add: loadable_update [OF L])
      have p1: "plugin (objects ?d1 ! p) = Some pg" using pl pg by simp
      have l1: "length (objects ?d1) = length (objects d)" by simp
      show ?thesis
      proof (cases "plugin_isShutdownRequested env pg")
        case True
        with loaded i p1
        have "initializePlugins_loop 0 env (p # rest) a d
                = Some (Inl (?d1\<lparr>pluginWhichRequestedShutdown := name (objects ?d1 ! p)\<rparr>))"
          by (simp add: Let_def)
        then show ?thesis by blast
      next
        case False
        from unloadQueue_returns [OF L1 _ errors_only_refl, of p "[]" "[]"] pl
        obtain fuel1 ok2 \<sigma>2 queue circularity where
          u: "PluginSpec_unloadQueue fuel1 p (objects ?d1, [], []) = Some (ok2, \<sigma>2, queue, circularity)"
          and e2: "errors_only (objects ?d1) \<sigma>2"
          by auto
        let ?d2 = "PluginManager_unloadPlugins env queue (?d1\<lparr>objects := \<sigma>2\<rparr>)"
        have "loadable (objects (?d1\<lparr>objects := \<sigma>2\<rparr>))"
          using errors_only_loadable [OF L1 e2] by simp
        then have L2: "loadable (objects ?d2)" by (rule unloadPlugins_loadable)
        have l2: "length (objects ?d2) = length (objects d)"
          using errors_only_length [OF e2] by (simp add: unloadPlugins_length)
        have s2: "resolvedPluginsStack ?d2 = []" by (simp add: unloadPlugins_stack st)
        from L2 have G2: "resolved_graph (objects ?d2)" by (simp add: loadable_def)
        from propagates_enough_fuel [OF G2, of p] pl l2 obtain N where
          N: "propagates (objects ?d2) N p" by auto
        from N [unfolded propagates_def, rule_format, of "objects ?d2" "[]"]
        obtain \<sigma>3 where
          r: "PluginSpec_resolveIndirectlyDisabled N True p (objects ?d2, []) = Some (\<sigma>3, [])"
          and f3: "flags_only (objects ?d2) \<sigma>3"
          by (auto simp: flags_only_refl)
        let ?d3 = "?d2\<lparr>objects := \<sigma>3, resolvedPluginsStack := []\<rparr>"
        have L3: "loadable (objects ?d3)" using flags_only_loadable [OF L2 f3] by simp
        have l3: "length (objects ?d3) = length (objects d)"
          using flags_only_length [OF f3] l2 by simp
        have rl3: "set rest \<subseteq> {..<length (objects ?d3)}" unfolding l3 by (rule rl)
        have s3: "resolvedPluginsStack ?d3 = []" by simp
        have "\<exists>fuel res. initializePlugins_loop fuel env rest False ?d3 = Some res"
          by (rule Cons.IH [OF L3 s3 rl3])
        then obtain fuel3 res where
          c: "initializePlugins_loop fuel3 env rest False ?d3 = Some res" by blast
        let ?f = "max fuel1 (max N fuel3)"
        have u': "PluginSpec_unloadQueue ?f p (objects ?d1, [], []) = Some (ok2, \<sigma>2, queue, circularity)"
          by (rule PluginSpec_unloadQueue_mono [OF u]) simp
        have r': "PluginSpec_resolveIndirectlyDisabled ?f True p (objects ?d2, resolvedPluginsStack ?d2)
                    = Some (\<sigma>3, [])"
          unfolding s2 by (rule PluginSpec_resolveIndirectlyDisabled_mono [OF r]) simp
        have c': "initializePlugins_loop ?f env rest False ?d3 = Some res"
          by (rule initializePlugins_loop_mono [OF c]) simp
        from loaded i p1 False u' r' c'
        have "initializePlugins_loop ?f env (p # rest) a d = Some res"
          by (simp add: Let_def)
        then show ?thesis by blast
      qed
    qed
  qed
qed

lemma PluginManager_initializePlugins_mono:
  assumes "PluginManager_initializePlugins fuel env d = Some y" "fuel \<le> fuel'"
  shows "PluginManager_initializePlugins fuel' env d = Some y"
proof -
  from assms(1) obtain queue d1 where
    q: "PluginManager_loadQueue fuel d = Some (queue, d1)"
    by (cases "PluginManager_loadQueue fuel d") (auto simp: PluginManager_initializePlugins_def)
  from assms(1) q obtain res where
    l: "initializePlugins_loop fuel env queue True (d1\<lparr>pluginWhichRequestedShutdown := []\<rparr>)
          = Some res"
    by (cases "initializePlugins_loop fuel env queue True (d1\<lparr>pluginWhichRequestedShutdown := []\<rparr>)")
       (auto simp: PluginManager_initializePlugins_def)
  from PluginManager_loadQueue_mono [OF q assms(2)] initializePlugins_loop_mono [OF l assms(2)]
    assms(1) q l
  show ?thesis by (simp add: PluginManager_initializePlugins_def)
qed

lemma PluginManager_initializePlugins_returns:
  assumes "manager_inv d"
  shows "\<exists>fuel y. PluginManager_initializePlugins fuel env d = Some y"
proof -
  from PluginManager_loadQueue_returns [OF assms] obtain fuel1 queue d1 where
    q: "PluginManager_loadQueue fuel1 d = Some (queue, d1)"
    and L: "loadable (objects d1)" and r: "set queue \<subseteq> {..<length (objects d1)}"
    and s: "resolvedPluginsStack d1 = []"
    by blast
  let ?d2 = "d1\<lparr>pluginWhichRequestedShutdown := []\<rparr>"
  have "\<exists>fuel res. initializePlugins_loop fuel env queue True ?d2 = Some res"
    by (rule initializePlugins_loop_returns) (simp_all add: L r s)
  then obtain fuel2 res where l: "initializePlugins_loop fuel2 env queue True ?d2 = Some res"
    by blast
  let ?f = "max fuel1 fuel2"
  have q': "PluginManager_loadQueue ?f d = Some (queue, d1)"
    by (rule PluginManager_loadQueue_mono [OF q]) simp
  have l': "initializePlugins_loop ?f env queue True ?d2 = Some res"
    by (rule initializePlugins_loop_mono [OF l]) simp
  from q' l' have "\<exists>y. PluginManager_initializePlugins ?f env d = Some y"
    by (cases res) (auto simp: PluginManager_initializePlugins_def)
  then show ?thesis by blast
qed

lemma example_manager_inv: "manager_inv example_manager"
proof -
  have "dependencySpecs ([loaded_core] ! 0) = []"
    by (simp add: loaded_core_def PluginSpecPrivate_new_def)
  then have "dep_rel [loaded_core] = {}"
    by (auto simp: dep_rel_def intro: ccontr)
  then have "resolved_graph [loaded_core]"
    by (simp add: resolved_graph_def loaded_core_def PluginSpecPrivate_new_def acyclic_def)
  then show ?thesis
    by (simp add: manager_inv_def example_manager_def loadable_def)
       (simp add: loaded_core_def)
qed

lemma no_shutdown_in_example: "\<not> returned_for_shutdown example_environment d"
  by (simp add: returned_for_shutdown_def example_environment_def split: event.splits)

subsection \<open>The manager after a failed resolution\<close>

lemma unresolved_store_eval:
  "unresolved_store =
     [\<lparr>name = ''A'', version = [], description = [], category = [],
       dependencies = [], enabled = True, persistent = False,
       indirectlyDisabled = False, initializationFailed = False,
       circularDependencyDetected = False, filePath = [], fileName = [],
       providesSpecs = [1], dependencySpecs = [], plugin = Some 7,
       state = Loaded, hasError = False, errorString = []\<rparr>,
      \<lparr>name = ''B'', version = [], description = [], category = [],
       dependencies =
         [\<lparr>dependency_name = ''A'', dependency_version = []\<rparr>,
          \<lparr>dependency_name = ''Missing'', dependency_version = []\<rparr>],
       enabled = True, persistent = False, indirectlyDisabled = False,
       initializationFailed = False, circularDependencyDetected = False,
       filePath = [], fileName = [], providesSpecs = [], dependencySpecs = [],
       plugin = None, state = Read, hasError = True,
       errorString = ''Plugin B - could not resolve dependency on Missing.''\<rparr>]"
  by code_simp

text \<open>
  A walk of \<^verbatim>\<open>unloadQueue\<close> that starts at a loaded specification and finds, in
  its \<^verbatim>\<open>providesSpecs\<close>, a specification that never got resolved stops at the
  assertion \<^verbatim>\<open>state >= PluginSpec::Resolved\<close>, whatever the depth allowed.
\<close>

lemma unloadQueue_unresolved_dependent:
  assumes "state (\<sigma> ! q) = Loaded" and "providesSpecs (\<sigma> ! q) = c # cs"
    and "state_rank (state (\<sigma> ! c)) < state_rank Resolved"
    and "q \<notin> set queue" and "q \<notin> set circ"
  shows "PluginSpec_unloadQueue fuel q (\<sigma>, queue, circ) = None"
proof (cases fuel)
  case 0
  then show ?thesis by (simp add: PluginSpec_unloadQueue.simps)
next
  case (Suc n)
  have "PluginSpec_unloadQueue n c (\<sigma>, queue, circ @ [q]) = None"
    using assms(3) by (cases n) (simp_all add: PluginSpec_unloadQueue.simps)
  with assms Suc show ?thesis by (simp add: PluginSpec_unloadQueue.simps)
qed

lemma unresolved_manager_loadQueue:
  "PluginManager_loadQueue 1 unresolved_manager = Some ([0], unresolved_manager)"
  by code_simp

lemma initializePlugins_assertion_example:
  "PluginManager_initializePlugins fuel failing_environment unresolved_manager = None"
proof (cases "PluginManager_loadQueue fuel unresolved_manager")
  case None
  then show ?thesis by (simp add: PluginManager_initializePlugins_def)
next
  case (Some y)
  have "PluginManager_loadQueue (max fuel 1) unresolved_manager = Some y"
    by (rule PluginManager_loadQueue_mono [OF Some]) simp
  moreover have "PluginManager_loadQueue (max fuel 1) unresolved_manager
                   = Some ([0], unresolved_manager)"
    by (rule PluginManager_loadQueue_mono [OF unresolved_manager_loadQueue]) simp
  ultimately have y: "y = ([0], unresolved_manager)" by simp
  let ?failed = "(reportError (initialization_failed_message (name (unresolved_store ! 0)))
                    (unresolved_store ! 0))\<lparr>initializationFailed := True\<rparr>"
  let ?\<sigma>1 = "unresolved_store[0 := ?failed]"
  have i: "PluginSpec_initializePlugin failing_environment
             (unresolved_store ! 0, [MonitorSetStatus (name (unresolved_store ! 0))])
           = Some (False, ?failed,
                   [MonitorSetStatus (name (unresolved_store ! 0)), PluginInitialize 7])"
    by (simp add: PluginSpec_initializePlugin_def failing_environment_def
        example_environment_def unresolved_store_eval)
  have u: "PluginSpec_unloadQueue fuel 0 (?\<sigma>1, [], []) = None"
    by (rule unloadQueue_unresolved_dependent [where c = 1 and cs = "[]"])
       (simp_all add: unresolved_store_eval)
  have s0: "state (unresolved_store ! 0) = Loaded" by (simp add: unresolved_store_eval)
  have p1: "plugin (?\<sigma>1 ! 0) = Some 7" by (simp add: unresolved_store_eval)
  have ns: "\<not> plugin_isShutdownRequested failing_environment 7"
    by (simp add: failing_environment_def example_environment_def)
  have "initializePlugins_loop fuel failing_environment [0] True
          (unresolved_manager\<lparr>pluginWhichRequestedShutdown := []\<rparr>) = None"
    using s0 i p1 ns u by (simp add: unresolved_manager_def Let_def)
  with Some y show ?thesis by (simp add: PluginManager_initializePlugins_def)
qed

lemma outcomeD:
  "outcome x = Some (r, evs, n)
   \<Longrightarrow> \<exists>d'. x = Some (r, d') \<and> events d' = evs \<and> pluginWhichRequestedShutdown d' = n"
  by (cases x) (auto simp: outcome_def)

subsection \<open>The emissions of the signal\<close>

text \<open>
  Claim C6. Every call of \<^verbatim>\<open>initializePlugins\<close> that returns has emitted the
  signal \<^verbatim>\<open>pluginsInitialized\<close> exactly once, as the last thing it did, unless it
  came back from inside the loop because a failing plugin requested the shutdown:
  then the result is \<^verbatim>\<open>false\<close> and the signal was not emitted. And the call does
  return, given enough depth for the recursive walks, on a manager whose store is
  a resolved and acyclic set (the edges point into the store, the reverse edges
  mirror the forward edges, no mark of a circular dependency) with every
  specification at least resolved and every loaded one holding its plugin, whose
  map points into the store, and with the static stack empty.
\<close>

theorem initializePlugins_emits_once_unless_shutdown:
  "(\<forall>fuel r d'.
      PluginManager_initializePlugins fuel env d = Some (r, d') \<longrightarrow>
        (if returned_for_shutdown env d' then emissions d' = emissions d \<and> \<not> r
         else emissions d' = emissions d + 1 \<and> last (events d') = PluginsInitialized))
   \<and> (manager_inv d \<longrightarrow>
        (\<exists>N. \<forall>fuel \<ge> N. \<exists>r d'. PluginManager_initializePlugins fuel env d = Some (r, d')))"
proof (intro conjI allI impI)
  fix fuel r d'
  assume "PluginManager_initializePlugins fuel env d = Some (r, d')"
  then show "if returned_for_shutdown env d' then emissions d' = emissions d \<and> \<not> r
             else emissions d' = emissions d + 1 \<and> last (events d') = PluginsInitialized"
    by (rule initializePlugins_emissions)
next
  assume "manager_inv d"
  from PluginManager_initializePlugins_returns [OF this] obtain N r d' where
    N: "PluginManager_initializePlugins N env d = Some (r, d')"
    by fastforce
  have "PluginManager_initializePlugins fuel env d = Some (r, d')" if "fuel \<ge> N" for fuel
    by (rule PluginManager_initializePlugins_mono [OF N that])
  then show "\<exists>N. \<forall>fuel \<ge> N. \<exists>r d'. PluginManager_initializePlugins fuel env d = Some (r, d')"
    by blast
qed

theorem initializePlugins_emits_once_unless_shutdown_witness:
  "manager_inv example_manager
   \<and> (\<exists>N. \<forall>fuel \<ge> N. \<exists>r d'.
         PluginManager_initializePlugins fuel example_environment example_manager = Some (r, d')
         \<and> emissions d' = emissions example_manager + 1
         \<and> last (events d') = PluginsInitialized)
   \<and> (\<exists>N. \<forall>fuel \<ge> N. \<exists>r d'.
         PluginManager_initializePlugins fuel example_environment unresolved_manager = Some (r, d')
         \<and> emissions d' = emissions unresolved_manager + 1
         \<and> last (events d') = PluginsInitialized)
   \<and> (\<exists>r d'.
         PluginManager_initializePlugins 1 shutdown_environment example_manager = Some (r, d')
         \<and> returned_for_shutdown shutdown_environment d'
         \<and> emissions d' = emissions example_manager \<and> \<not> r)"
proof (intro conjI)
  show "manager_inv example_manager" by (rule example_manager_inv)
next
  note T = initializePlugins_emits_once_unless_shutdown [of example_environment example_manager]
  from T [THEN conjunct2, rule_format, OF example_manager_inv] obtain N where
    N: "\<forall>fuel \<ge> N. \<exists>r d'.
          PluginManager_initializePlugins fuel example_environment example_manager = Some (r, d')"
    by blast
  have "\<exists>r d'.
          PluginManager_initializePlugins fuel example_environment example_manager = Some (r, d')
          \<and> emissions d' = emissions example_manager + 1
          \<and> last (events d') = PluginsInitialized" if "fuel \<ge> N" for fuel
  proof -
    from N that obtain r d' where
      r: "PluginManager_initializePlugins fuel example_environment example_manager = Some (r, d')"
      by blast
    from T [THEN conjunct1, rule_format, OF r] r show ?thesis
      by (auto simp: no_shutdown_in_example)
  qed
  then show "\<exists>N. \<forall>fuel \<ge> N. \<exists>r d'.
         PluginManager_initializePlugins fuel example_environment example_manager = Some (r, d')
         \<and> emissions d' = emissions example_manager + 1
         \<and> last (events d') = PluginsInitialized"
    by blast
next
  have "outcome (PluginManager_initializePlugins 1 example_environment unresolved_manager)
          = Some (True, [MonitorSetStatus ''A'', PluginInitialize 7, PluginsInitialized], [])"
    by code_simp
  from outcomeD [OF this] obtain d' where
    r: "PluginManager_initializePlugins 1 example_environment unresolved_manager = Some (True, d')"
    by blast
  have "\<exists>r d'.
         PluginManager_initializePlugins fuel example_environment unresolved_manager = Some (r, d')
         \<and> emissions d' = emissions unresolved_manager + 1
         \<and> last (events d') = PluginsInitialized" if "fuel \<ge> 1" for fuel
  proof -
    note r' = PluginManager_initializePlugins_mono [OF r that]
    from initializePlugins_emits_once_unless_shutdown
           [of example_environment unresolved_manager, THEN conjunct1, rule_format, OF r'] r'
    show ?thesis by (auto simp: no_shutdown_in_example)
  qed
  then show "\<exists>N. \<forall>fuel \<ge> N. \<exists>r d'.
         PluginManager_initializePlugins fuel example_environment unresolved_manager = Some (r, d')
         \<and> emissions d' = emissions unresolved_manager + 1
         \<and> last (events d') = PluginsInitialized"
    by blast
next
  have "outcome (PluginManager_initializePlugins 1 shutdown_environment example_manager)
          = Some (False, [MonitorSetStatus ''core'', PluginInitialize 7], ''core'')"
    by code_simp
  from outcomeD [OF this] obtain d' where
    r: "PluginManager_initializePlugins 1 shutdown_environment example_manager = Some (False, d')"
    and e: "events d' = [MonitorSetStatus ''core'', PluginInitialize 7]"
    by blast
  from e have s: "returned_for_shutdown shutdown_environment d'"
    by (simp add: returned_for_shutdown_def shutdown_environment_def)
  from initializePlugins_emits_once_unless_shutdown
         [of shutdown_environment example_manager, THEN conjunct1, rule_format, OF r] r s
  show "\<exists>r d'.
         PluginManager_initializePlugins 1 shutdown_environment example_manager = Some (r, d')
         \<and> returned_for_shutdown shutdown_environment d'
         \<and> emissions d' = emissions example_manager \<and> \<not> r"
    by auto
qed

theorem initializePlugins_shutdown_counterexample:
  "manager_inv example_manager
   \<and> emissions example_manager = 0
   \<and> outcome (PluginManager_initializePlugins 1 shutdown_environment example_manager)
       = Some (False, [MonitorSetStatus ''core'', PluginInitialize 7], ''core'')
   \<and> outcome (PluginManager_initializePlugins 3 shutdown_environment example_manager)
       = Some (False, [MonitorSetStatus ''core'', PluginInitialize 7], ''core'')
   \<and> map_option (\<lambda>(r, d'). emissions d')
        (PluginManager_initializePlugins 3 shutdown_environment example_manager) = Some 0"
proof (intro conjI)
  show "manager_inv example_manager" by (rule example_manager_inv)
qed code_simp+

end
